(* ===== verification/Prelude.thy ===== *)
theory Prelude
  imports Main "HOL-Library.Word"
begin

text \<open>
  Shared vocabulary of the development: the Go types the program is built from (bytes, byte
  slices, 64-bit integers, \<open>interface{}\<close> values, errors), the three-way result of a Go call
  (value, error, panic), the standard-library parameter \<open>golib\<close>, and generic lemmas that the
  component theories share.

  A Go \<open>byte\<close> is a HOL \<open>char\<close> (both have 256 values); a Go \<open>string\<close> and a \<open>[]byte\<close> are both
  \<open>char list\<close>, which is exactly Go's byte-wise view of a string.  \<open>int64\<close> (and \<open>int\<close> on the
  64-bit target the program reports in \<open>BroadcastBit\<close>) is a 64-bit word read with \<open>sint\<close>.
\<close>

section \<open>Go base types\<close>

type_synonym byte = char
type_synonym bytes = "char list"
type_synonym int64 = "64 word"
type_synonym address = "char list"

abbreviation CR :: char where "CR \<equiv> CHR 0x0D"
abbreviation LF :: char where "LF \<equiv> CHR 0x0A"

section \<open>Errors, panics and results\<close>

text \<open>
  The error values the program compares or prints.  The package-level \<open>errors.New\<close> variables of
  \<open>server/const.go\<close> and \<open>protocols/line/consts.go\<close> get one constructor each; errors of the
  standard library that the program can meet follow.
\<close>

datatype num_err = NumSyntax | NumRange

datatype gerr =
    EOF                       \<comment> \<open>\<open>io.EOF\<close>\<close>
  | UnexpectedEOF             \<comment> \<open>\<open>io.ErrUnexpectedEOF\<close>\<close>
  | BufferFull                \<comment> \<open>\<open>bufio.ErrBufferFull\<close>\<close>
  | ErrNet bytes              \<comment> \<open>an error of the TCP connection, by its text\<close>
  | ErrLineFormat
  | ErrReadRequest
  | ErrBadBulkFormat
  | ErrCmdNotFound
  | ErrQuit
  | ErrLineReadRequest        \<comment> \<open>\<open>errReadRequest\<close> of the line protocol, another text\<close>
  | ErrInvalidProtocol
  | ErrNotFound               \<comment> \<open>\<open>stats.ErrNotFound\<close>\<close>
  | ErrNum bytes num_err      \<comment> \<open>\<open>*strconv.NumError\<close> of \<open>ParseInt\<close>\<close>
  | ErrFloat bytes num_err    \<comment> \<open>\<open>*strconv.NumError\<close> of \<open>ParseFloat\<close>\<close>
  | ErrJson bytes             \<comment> \<open>an error of \<open>encoding/json\<close>\<close>
  | ErrText bytes             \<comment> \<open>any other \<open>errors.New(text)\<close>\<close>

text \<open>
  A Go call returns a value, returns a non-nil error, or panics.  Panics are kept apart from
  errors, because the server's run loops treat them differently (\<open>recover\<close>).
\<close>

datatype 'a res = Ok 'a | Err gerr | Panic string

text \<open>\<open>xs[i]\<close> of Go: an index that is out of range panics.\<close>

definition index_panic :: string where
  "index_panic = ''runtime error: index out of range''"

definition at_index :: "'a list \<Rightarrow> nat \<Rightarrow> 'a res" where
  "at_index xs i = (if i < length xs then Ok (xs ! i) else Panic index_panic)"

lemma at_index_simps [simp]:
  "at_index [] i = Panic index_panic" "at_index (x # xs) 0 = Ok x" "at_index (x # xs) (Suc i) = at_index xs i"
  by (simp_all add: at_index_def)

lemma at_index_Ok [simp]:
  "i < length xs \<Longrightarrow> at_index xs i = Ok (xs ! i)"
  "\<not> length xs < 2 \<Longrightarrow> at_index xs 0 = Ok (xs ! 0)" "\<not> length xs < 2 \<Longrightarrow> at_index xs (Suc 0) = Ok (xs ! Suc 0)"
  by (auto simp: at_index_def)

text \<open>Sequencing: an error or a panic ends the call.\<close>

fun bind_res :: "'a res \<Rightarrow> ('a \<Rightarrow> 'b res) \<Rightarrow> 'b res" where
  "bind_res (Ok x) f = f x"
| "bind_res (Err e) f = Err e"
| "bind_res (Panic p) f = Panic p"

lemma map_res_OkE: "map_res f x = Ok y \<Longrightarrow> (\<And>z. x = Ok z \<Longrightarrow> y = f z \<Longrightarrow> P) \<Longrightarrow> P"
  by (cases x) auto

section \<open>Dynamic values\<close>

text \<open>
  \<open>interface{}\<close> values that cross the wire.  \<open>VInt\<close> is a Go \<open>int\<close>, \<open>VInt64\<close> an \<open>int64\<close>;
  \<open>VError\<close> is an \<open>error\<close> value carried as data, by its text; \<open>VArray\<close> is \<open>[]interface{}\<close>;
  \<open>VMap\<close> is \<open>map[string]interface{}\<close> as key/value pairs.  The type of \<open>float64\<close> is the type
  variable \<open>'f\<close>.
\<close>

datatype 'f gval =
    VNil
  | VString bytes
  | VInt int64
  | VInt64 int64
  | VFloat 'f
  | VBool bool
  | VByte byte
  | VBytes bytes
  | VError bytes
  | VArray "'f gval list"
  | VMap "(bytes \<times> 'f gval) list"

text \<open>
  The argument of a command handler, \<open>data interface{}\<close>: the default protocol passes a
  \<open>[]interface{}\<close>, the redis and line protocols pass a \<open>[][]byte\<close>.
\<close>

datatype 'f args = AIface "'f gval list" | ABulk "bytes list"

section \<open>Library routines taken as parameters\<close>

text \<open>
  What the program uses of the Go standard library is modelled in \<open>GoLib\<close> and \<open>BufIO\<close>.  The
  routines that rest on large tables or on IEEE arithmetic are one record of parameters:
  \<open>strings.ToUpper\<close> and \<open>ToLower\<close> on strings with a non-ASCII byte, the quoting in number errors, \<open>float64\<close>
  arithmetic, printing and parsing, \<open>encoding/json\<close>, and the order in which a \<open>range\<close> loop
  visits the keys of a map (unspecified in Go).
\<close>

record 'f golib =
  gl_upper :: "bytes \<Rightarrow> bytes"            \<comment> \<open>\<open>strings.ToUpper\<close> on a non-ASCII string\<close>
  gl_lower :: "bytes \<Rightarrow> bytes"            \<comment> \<open>\<open>strings.ToLower\<close> on a non-ASCII string\<close>
  gl_quote :: "bytes \<Rightarrow> bytes"            \<comment> \<open>\<open>strconv.Quote\<close>, also the verb \<open>%q\<close>\<close>
  gl_ffmt :: "'f \<Rightarrow> bytes"                \<comment> \<open>\<open>strconv.AppendFloat(nil, n, 'g', -1, 64)\<close>\<close>
  gl_fprint :: "'f \<Rightarrow> bytes"              \<comment> \<open>\<open>fmt.Fprint\<close> of a \<open>float64\<close>\<close>
  gl_fixed :: "'f \<Rightarrow> bytes"               \<comment> \<open>the verb \<open>%f\<close>\<close>
  gl_fparse :: "bytes \<Rightarrow> num_err + 'f"    \<comment> \<open>\<open>strconv.ParseFloat(s, 64)\<close>\<close>
  gl_fzero :: 'f                          \<comment> \<open>the constant \<open>0\<close>\<close>
  gl_fint :: "int64 \<Rightarrow> 'f"                \<comment> \<open>\<open>float64(n)\<close>\<close>
  gl_fdiv :: "'f \<Rightarrow> 'f \<Rightarrow> 'f"               \<comment> \<open>\<open>/\<close> on \<open>float64\<close>\<close>
  gl_seconds :: "int \<Rightarrow> 'f"               \<comment> \<open>\<open>Duration.Seconds\<close>, of a span in nanoseconds\<close>
  gl_json :: "'f gval \<Rightarrow> gerr + bytes"    \<comment> \<open>\<open>json.Marshal\<close>\<close>
  gl_unjson :: "bytes \<Rightarrow> gerr + (bytes \<times> 'f gval) list"  \<comment> \<open>\<open>json.Unmarshal\<close> into a map\<close>
  gl_range :: "bytes set \<Rightarrow> bytes list"   \<comment> \<open>the order of \<open>range\<close> over a map with these keys\<close>

text \<open>
  Documented behaviour of two of them, used as named hypotheses: \<open>range\<close> visits every key of
  a (finite) map once; the shortest formatting of a float is read back as the same float and is
  a non-empty text without a line feed.
\<close>

definition range_ok :: "'f golib \<Rightarrow> bool" where
  "range_ok L \<longleftrightarrow> (\<forall>A. finite A \<longrightarrow> distinct (gl_range L A) \<and> set (gl_range L A) = A)"

definition float_ok :: "'f golib \<Rightarrow> bool" where
  "float_ok L \<longleftrightarrow>
     (\<forall>x. gl_fparse L (gl_ffmt L x) = Inr x \<and>
       gl_ffmt L x \<noteq> [] \<and> LF \<notin> set (gl_ffmt L x) \<and> length (gl_ffmt L x) \<le> 24)"

lemma range_okD:
  assumes "range_ok L" and "finite A"
  shows "distinct (gl_range L A)" and "set (gl_range L A) = A" and "length (gl_range L A) = card A"
  using assms by (auto simp: range_ok_def distinct_card [symmetric])

section \<open>Collections of facts\<close>

named_theorems wire_simps \<open>what the encoders of the wire format produce\<close>
named_theorems emit_intros \<open>which bytes a client's write method appends to its stream\<close>
named_theorems steady_intros \<open>which read methods only consume input\<close>
named_theorems agree_intros \<open>which read methods agree when their recursive calls do\<close>
named_theorems decode_intros \<open>which bytes a read method turns into which value\<close>
named_theorems mem_defs \<open>definitions of the operations of the in-memory metrics store\<close>
named_theorems handler_defs \<open>definitions of the command handlers\<close>

section \<open>Generic lemmas\<close>

lemma takeWhile_append_stop:
  "\<forall>x \<in> set xs. P x \<Longrightarrow> \<not> P y \<Longrightarrow> takeWhile P (xs @ y # ys) = xs"
  by (induction xs) auto

lemma length_takeWhile_stop:
  "x \<in> set xs \<Longrightarrow> \<not> P x \<Longrightarrow> length (takeWhile P xs) < length xs"
  by (induction xs) auto

lemma map_of_snoc: "k \<notin> fst ` set ps \<Longrightarrow> map_of (ps @ [(k, v)]) = (map_of ps)(k \<mapsto> v)"
  by (induction ps) auto

lemma foldl_invariant:
  assumes "P s" and "\<And>s x. P s \<Longrightarrow> x \<in> set xs \<Longrightarrow> P (f s x)"
  shows "P (foldl f s xs)"
  using assms by (induction xs arbitrary: s) auto

end
