(* ===== verification/GoLib.thy ===== *)
theory GoLib
  imports Prelude "HOL-Library.Char_ord" "HOL-Library.List_Lexorder"
begin

text \<open>
  The parts of Go's \<open>strconv\<close>, \<open>strings\<close>, \<open>bytes\<close> and \<open>fmt\<close> that the program calls: decimal
  printing and parsing of \<open>int64\<close>, upper-casing, splitting on one byte, joining, prefix test,
  trimming by a cutset, substring search, and the default formatting of a dynamic value.
  The main facts are that \<open>parse_int\<close> inverts \<open>append_int\<close> on every 64-bit integer, and that
  \<open>split_on\<close> and \<open>join\<close> are inverse.
\<close>

section \<open>Decimal integers\<close>

definition digit_char :: "nat \<Rightarrow> char" where
  "digit_char d = char_of (48 + d)"

definition is_digit :: "char \<Rightarrow> bool" where
  "is_digit c \<longleftrightarrow> 48 \<le> (of_char c :: nat) \<and> (of_char c :: nat) \<le> 57"

definition digit_val :: "char \<Rightarrow> nat" where
  "digit_val c = of_char c - 48"

fun dec_nat :: "nat \<Rightarrow> bytes" where
  "dec_nat n = (if n < 10 then [digit_char n] else dec_nat (n div 10) @ [digit_char (n mod 10)])"

declare dec_nat.simps [simp del]

text \<open>\<open>strconv.AppendInt(nil, n, 10)\<close>, also \<open>strconv.Itoa\<close>.\<close>

definition dec_int :: "int \<Rightarrow> bytes" where
  "dec_int i = (if i < 0 then CHR ''-'' # dec_nat (nat (- i)) else dec_nat (nat i))"

definition append_int :: "int64 \<Rightarrow> bytes" where
  "append_int n = dec_int (sint n)"

text \<open>
  \<open>strconv.ParseUint(s, 10, 64)\<close>: the loop of the library, with its overflow checks in their
  order, so that a digit string that overflows is a range error even when a later byte is not a
  digit.
\<close>

fun parse_uint_loop :: "nat \<Rightarrow> bytes \<Rightarrow> num_err + nat" where
  "parse_uint_loop n [] = Inr n"
| "parse_uint_loop n (c # cs) =
     (if \<not> is_digit c then Inl NumSyntax
      else if n \<ge> 1844674407370955162 then Inl NumRange
      else let n1 = n * 10 + digit_val c
           in if n1 \<ge> 2 ^ 64 then Inl NumRange else parse_uint_loop n1 cs)"

definition parse_uint :: "bytes \<Rightarrow> num_err + nat" where
  "parse_uint s = (if s = [] then Inl NumSyntax else parse_uint_loop 0 s)"

text \<open>\<open>strconv.ParseInt(s, 10, 64)\<close>.\<close>

definition parse_int :: "bytes \<Rightarrow> int64 res" where
  "parse_int s =
     (let neg = (s \<noteq> [] \<and> hd s = CHR ''-'');
          ds = (if s \<noteq> [] \<and> (hd s = CHR ''-'' \<or> hd s = CHR ''+'') then tl s else s)
      in case parse_uint ds of
           Inl e \<Rightarrow> Err (ErrNum s e)
         | Inr un \<Rightarrow>
             if \<not> neg \<and> un \<ge> 2 ^ 63 then Err (ErrNum s NumRange)
             else if neg \<and> un > 2 ^ 63 then Err (ErrNum s NumRange)
             else Ok (word_of_int (if neg then - int un else int un)))"

subsection \<open>Printing then parsing\<close>

lemma is_digit_digit_char [simp]: "d < 10 \<Longrightarrow> is_digit (digit_char d)"
  by (simp add: is_digit_def digit_char_def of_char_of)

lemma digit_val_digit_char [simp]: "d < 10 \<Longrightarrow> digit_val (digit_char d) = d"
  by (simp add: digit_val_def digit_char_def of_char_of)

lemma dec_nat_not_Nil [simp]: "dec_nat n \<noteq> []"
  by (subst dec_nat.simps) simp

lemma dec_nat_digits: "\<forall>c \<in> set (dec_nat n). is_digit c"
proof (induction n rule: dec_nat.induct)
  case (1 n)
  then show ?case by (subst dec_nat.simps) auto
qed

definition digits_val :: "nat \<Rightarrow> bytes \<Rightarrow> nat" where
  "digits_val n cs = foldl (\<lambda>a c. a * 10 + digit_val c) n cs"

lemma digits_val_simps [simp]:
  "digits_val n [] = n"
  "digits_val n (c # cs) = digits_val (n * 10 + digit_val c) cs"
  "digits_val n (cs @ [c]) = digits_val n cs * 10 + digit_val c"
  by (simp_all add: digits_val_def)

lemma digits_val_ge: "n \<le> digits_val n cs"
proof (induction cs arbitrary: n)
  case (Cons c cs)
  have "n \<le> n * 10 + digit_val c" by simp
  also have "\<dots> \<le> digits_val (n * 10 + digit_val c) cs" by (rule Cons.IH)
  finally show ?case by simp
qed simp

lemma digits_val_dec_nat: "digits_val 0 (dec_nat n) = n"
proof (induction n rule: dec_nat.induct)
  case (1 n)
  show ?case
  proof (cases "n < 10")
    case True
    then show ?thesis by (subst dec_nat.simps) simp
  next
    case False
    with "1.IH" have "digits_val 0 (dec_nat (n div 10)) = n div 10" by simp
    with False show ?thesis by (subst dec_nat.simps) simp
  qed
qed

lemma parse_uint_loop_digits:
  assumes "\<forall>c \<in> set cs. is_digit c" and "digits_val n cs < 2 ^ 64"
  shows "parse_uint_loop n cs = Inr (digits_val n cs)"
  using assms
proof (induction cs arbitrary: n)
  case (Cons c cs)
  have le: "n * 10 + digit_val c \<le> digits_val (n * 10 + digit_val c) cs"
    by (rule digits_val_ge)
  with Cons.prems(2) have "n * 10 + digit_val c < 2 ^ 64" by simp
  moreover from this have "n < 1844674407370955162" by simp
  ultimately show ?case using Cons by (simp add: Let_def)
qed simp

lemma parse_uint_dec_nat: "n < 2 ^ 64 \<Longrightarrow> parse_uint (dec_nat n) = Inr n"
  by (simp add: parse_uint_def parse_uint_loop_digits dec_nat_digits digits_val_dec_nat)

lemma dec_nat_hd_digit: "is_digit (hd (dec_nat n))"
  using dec_nat_digits [of n] by simp

lemma not_digit_sign [simp]: "\<not> is_digit CHR ''-''" "\<not> is_digit CHR ''+''"
  by (simp_all add: is_digit_def)

lemma dec_nat_hd_sign: "hd (dec_nat n) \<noteq> CHR ''-''" "hd (dec_nat n) \<noteq> CHR ''+''"
  using dec_nat_hd_digit [of n] by auto

lemma parse_int_dec_int:
  assumes "- (2 ^ 63) \<le> i" and "i < 2 ^ 63"
  shows "parse_int (dec_int i) = Ok (word_of_int i)"
proof (cases "i < 0")
  case True
  with assms have "nat (- i) \<le> 2 ^ 63" by simp
  with True show ?thesis
    by (simp add: parse_int_def dec_int_def parse_uint_dec_nat Let_def)
next
  case False
  with assms have "nat i < 2 ^ 63" by simp
  with False show ?thesis
    by (simp add: parse_int_def dec_int_def parse_uint_dec_nat dec_nat_hd_sign Let_def)
qed

lemma parse_int_append_int [simp]: "parse_int (append_int n) = Ok n"
proof -
  have "- (2 ^ 63) \<le> sint n" and "sint n < 2 ^ 63"
    using sint_ge [of n] sint_lt [of n] by simp_all
  then show ?thesis by (simp add: append_int_def parse_int_dec_int)
qed

lemma append_int_not_Nil [simp]: "append_int n \<noteq> []"
  by (simp add: append_int_def dec_int_def)

lemma append_int_no_LF [simp]: "LF \<notin> set (append_int n)"
proof -
  have "LF \<notin> set (dec_nat m)" for m
    using dec_nat_digits [of m] by (auto simp: is_digit_def)
  then show ?thesis by (simp add: append_int_def dec_int_def)
qed


lemma length_dec_nat: "0 < k \<Longrightarrow> n < 10 ^ k \<Longrightarrow> length (dec_nat n) \<le> k"
proof (induction k arbitrary: n)
  case (Suc k)
  show ?case
  proof (cases "n < 10")
    case False
    then have "0 < k" using Suc.prems by (cases k) auto
    moreover have "n div 10 < 10 ^ k" using Suc.prems(2) by (simp add: less_mult_imp_div_less mult.commute)
    ultimately have "length (dec_nat (n div 10)) \<le> k" by (rule Suc.IH)
    with False show ?thesis by (subst dec_nat.simps) simp
  qed (subst dec_nat.simps, simp)
qed simp

lemma length_append_int: "length (append_int n) \<le> 20"
proof -
  have "length (dec_nat (nat (sint n))) \<le> 19" and "length (dec_nat (nat (- sint n))) \<le> 19"
    using sint_ge [of n] sint_lt [of n] by (simp_all add: length_dec_nat)
  then show ?thesis by (simp add: append_int_def dec_int_def)
qed

lemma append_int_minus_one: "append_int (- 1) = ''-1''"
  by code_simp

section \<open>Strings\<close>

text \<open>
  \<open>strings.ToUpper\<close>: on a string of ASCII bytes each lower-case letter is mapped; otherwise the
  Unicode table decides, which is the parameter \<open>gl_upper\<close>.
\<close>

definition is_ascii :: "bytes \<Rightarrow> bool" where
  "is_ascii s \<longleftrightarrow> list_all (\<lambda>c. (of_char c :: nat) < 128) s"

definition upper_char :: "char \<Rightarrow> char" where
  "upper_char c =
     (let n = (of_char c :: nat) in if 97 \<le> n \<and> n \<le> 122 then char_of (n - 32) else c)"

definition to_upper :: "'f golib \<Rightarrow> bytes \<Rightarrow> bytes" where
  "to_upper L s = (if is_ascii s then map upper_char s else gl_upper L s)"

text \<open>\<open>strings.ToLower\<close>, with the parameter \<open>gl_lower\<close> on a string with a non-ASCII byte.\<close>

definition lower_char :: "char \<Rightarrow> char" where
  "lower_char c =
     (let n = (of_char c :: nat) in if 65 \<le> n \<and> n \<le> 90 then char_of (n + 32) else c)"

definition to_lower :: "'f golib \<Rightarrow> bytes \<Rightarrow> bytes" where
  "to_lower L s = (if is_ascii s then map lower_char s else gl_lower L s)"

text \<open>\<open>strings.Split\<close> and \<open>bytes.Split\<close> by a separator of one byte.\<close>

fun split_on :: "char \<Rightarrow> bytes \<Rightarrow> bytes list" where
  "split_on sep [] = [[]]"
| "split_on sep (c # cs) =
     (if c = sep then [] # split_on sep cs
      else case split_on sep cs of [] \<Rightarrow> [[c]] | w # ws \<Rightarrow> (c # w) # ws)"

text \<open>\<open>strings.Join\<close>.\<close>

fun join :: "bytes \<Rightarrow> bytes list \<Rightarrow> bytes" where
  "join sep [] = []"
| "join sep [w] = w"
| "join sep (w # ws) = w @ sep @ join sep ws"

text \<open>\<open>strings.HasPrefix(s, p)\<close>, \<open>strings.TrimLeft(s, cutset)\<close>.\<close>

definition has_prefix :: "bytes \<Rightarrow> bytes \<Rightarrow> bool" where
  "has_prefix s p \<longleftrightarrow> take (length p) s = p"

definition trim_left :: "bytes \<Rightarrow> bytes \<Rightarrow> bytes" where
  "trim_left s cutset = dropWhile (\<lambda>c. c \<in> set cutset) s"

text \<open>\<open>strings.Trim(s, cutset)\<close> for a cutset of ASCII bytes.\<close>

definition trim :: "bytes \<Rightarrow> bytes \<Rightarrow> bytes" where
  "trim s cutset = rev (trim_left (rev (trim_left s cutset)) cutset)"

text \<open>\<open>strings.Index(s, sub)\<close>.\<close>

fun index_of :: "bytes \<Rightarrow> bytes \<Rightarrow> int" where
  "index_of [] sub = (if sub = [] then 0 else - 1)"
| "index_of (c # cs) sub =
     (if has_prefix (c # cs) sub then 0
      else let i = index_of cs sub in if i < 0 then - 1 else i + 1)"

text \<open>
  \<open>string(n)\<close> of an integer: the UTF-8 encoding of the code point \<open>n\<close>, and of U+FFFD for a number that
  is not a code point.
\<close>

definition rune_string :: "int \<Rightarrow> bytes" where
  "rune_string n =
     (let k = nat n in
      if n < 0 \<or> 1114111 < n \<or> (55296 \<le> n \<and> n \<le> 57343) then map char_of [239, 191, 189 :: nat]
      else if n < 128 then [char_of k]
      else if n < 2048 then map char_of [192 + k div 64, 128 + k mod 64]
      else if n < 65536 then map char_of [224 + k div 4096, 128 + k div 64 mod 64, 128 + k mod 64]
      else map char_of [240 + k div 262144, 128 + k div 4096 mod 64, 128 + k div 64 mod 64, 128 + k mod 64])"

text \<open>\<open>fmt.Fprint\<close> of a dynamic value: the default format of its type.\<close>

fun fprint :: "'f golib \<Rightarrow> 'f gval \<Rightarrow> bytes" where
  "fprint L VNil = ''<nil>''"
| "fprint L (VString s) = s"
| "fprint L (VInt n) = append_int n"
| "fprint L (VInt64 n) = append_int n"
| "fprint L (VFloat x) = gl_fprint L x"
| "fprint L (VBool b) = (if b then ''true'' else ''false'')"
| "fprint L (VByte c) = dec_nat (of_char c)"
| "fprint L (VBytes bs) = ''['' @ join '' '' (map (\<lambda>c. dec_nat (of_char c)) bs) @ '']''"
| "fprint L (VError e) = e"
| "fprint L (VArray vs) = ''['' @ join '' '' (map (fprint L) vs) @ '']''"
| "fprint L (VMap kvs) =
     ''map['' @ join '' '' (map (\<lambda>kv. fst kv @ '':'' @ fprint L (snd kv)) kvs) @ '']''"

text \<open>The text of an error, \<open>e.Error()\<close>.\<close>

fun num_err_text :: "num_err \<Rightarrow> bytes" where
  "num_err_text NumSyntax = ''invalid syntax''"
| "num_err_text NumRange = ''value out of range''"

fun err_text :: "'f golib \<Rightarrow> gerr \<Rightarrow> bytes" where
  "err_text L EOF = ''EOF''"
| "err_text L UnexpectedEOF = ''unexpected EOF''"
| "err_text L BufferFull = ''bufio: buffer full''"
| "err_text L (ErrNet t) = t"
| "err_text L ErrLineFormat = ''bad response line format''"
| "err_text L ErrReadRequest = ''invalid request protocol''"
| "err_text L ErrBadBulkFormat = ''bad bulk string format''"
| "err_text L ErrCmdNotFound = ''invalid command format''"
| "err_text L ErrQuit = ''client quit''"
| "err_text L ErrLineReadRequest = ''invalid request format''"
| "err_text L ErrInvalidProtocol = ''invalid protocol''"
| "err_text L ErrNotFound = ''key not found''"
| "err_text L (ErrNum s e) =
     ''strconv.ParseInt: parsing '' @ gl_quote L s @ '': '' @ num_err_text e"
| "err_text L (ErrFloat s e) =
     ''strconv.ParseFloat: parsing '' @ gl_quote L s @ '': '' @ num_err_text e"
| "err_text L (ErrJson t) = t"
| "err_text L (ErrText t) = t"

subsection \<open>Facts about strings\<close>

lemma to_upper_ascii: "is_ascii s \<Longrightarrow> to_upper L s = map upper_char s"
  by (simp add: to_upper_def)

lemma is_ascii_append [simp]: "is_ascii (s @ t) \<longleftrightarrow> is_ascii s \<and> is_ascii t"
  by (simp add: is_ascii_def)

lemma upper_char_ascii: "(of_char c :: nat) < 128 \<Longrightarrow> (of_char (upper_char c) :: nat) < 128"
  by (auto simp: upper_char_def Let_def of_char_of)

lemma upper_char_idem: "upper_char (upper_char c) = upper_char c"
proof (cases "97 \<le> (of_char c :: nat) \<and> (of_char c :: nat) \<le> 122")
  case True
  then have "(of_char c - 32 :: nat) mod 256 = of_char c - 32"
    by (intro mod_less) linarith
  with True show ?thesis by (auto simp: upper_char_def Let_def of_char_of)
next
  case False
  then show ?thesis by (auto simp: upper_char_def Let_def)
qed

lemma is_ascii_to_upper: "is_ascii s \<Longrightarrow> is_ascii (to_upper L s)"
  by (induction s) (auto simp: to_upper_def is_ascii_def upper_char_ascii list_all_iff)

lemma rune_string_big: "1114111 < n \<Longrightarrow> rune_string n = [CHR 0xEF, CHR 0xBF, CHR 0xBD]"
proof -
  assume n: "1114111 < n"
  have "map char_of [239, 191, 189 :: nat] = [CHR 0xEF, CHR 0xBF, CHR 0xBD]" by code_simp
  with n show ?thesis by (simp add: rune_string_def Let_def)
qed

lemma split_on_not_Nil [simp]: "split_on sep s \<noteq> []"
  by (cases s) (auto split: list.splits)

lemma split_on_no_sep: "sep \<notin> set s \<Longrightarrow> split_on sep s = [s]"
  by (induction s) auto

lemma split_on_append:
  "sep \<notin> set w \<Longrightarrow> split_on sep (w @ sep # s) = w # split_on sep s"
  by (induction w) auto

lemma split_on_join:
  assumes "ws \<noteq> []" and "\<forall>w \<in> set ws. sep \<notin> set w"
  shows "split_on sep (join [sep] ws) = ws"
  using assms by (induction "[sep]" ws rule: join.induct) (simp_all add: split_on_no_sep split_on_append)

lemma join_split_on: "join [sep] (split_on sep s) = s"
proof (induction s)
  case (Cons c cs)
  obtain w ws where ws: "split_on sep cs = w # ws" by (cases "split_on sep cs") auto
  with Cons show ?case by (cases ws) auto
qed simp

lemma split_on_parts: "\<forall>w \<in> set (split_on sep s). sep \<notin> set w"
proof (induction s)
  case (Cons c cs)
  obtain w ws where "split_on sep cs = w # ws" by (cases "split_on sep cs") auto
  with Cons show ?case by auto
qed simp

lemma has_prefix_Nil [simp]: "has_prefix s []"
  by (simp add: has_prefix_def)

lemma has_prefix_iff: "has_prefix s p \<longleftrightarrow> (\<exists>t. s = p @ t)"
  by (metis append_eq_conv_conj append_take_drop_id has_prefix_def)

lemma index_of_ge: "- 1 \<le> index_of s sub"
  by (induction s) (auto simp: Let_def)

lemma index_of_neg_iff: "index_of s sub < 0 \<longleftrightarrow> (\<nexists>a b. s = a @ sub @ b)"
proof (induction s)
  case (Cons c cs)
  have "(\<exists>a b. c # cs = a @ sub @ b) \<longleftrightarrow>
        has_prefix (c # cs) sub \<or> (\<exists>a b. cs = a @ sub @ b)"
    unfolding has_prefix_iff by (metis append_Cons append_Nil list.exhaust list.inject)
  with Cons show ?case by (auto simp: Let_def)
qed auto


section \<open>One instance of the parameters\<close>

text \<open>
  A concrete \<open>golib\<close> for evaluating the model on closed inputs: floats are represented by 64-bit
  integers, maps are ranged over in lexicographic order of their keys, and the JSON text is a
  placeholder.  It meets the two hypotheses on the parameters.
\<close>

definition plain_lib :: "int64 golib" where
  "plain_lib =
     \<lparr>gl_upper = (\<lambda>s. s), gl_lower = (\<lambda>s. s), gl_quote = (\<lambda>s. CHR 0x22 # s @ [CHR 0x22]),
      gl_ffmt = append_int, gl_fprint = append_int, gl_fixed = append_int,
      gl_fparse = (\<lambda>s. case parse_int s of Ok n \<Rightarrow> Inr n | _ \<Rightarrow> Inl NumSyntax),
      gl_fzero = 0, gl_fint = (\<lambda>n. n), gl_fdiv = (\<lambda>a b. a div b), gl_seconds = word_of_int,
      gl_json = (\<lambda>v. Inr ''{}''), gl_unjson = (\<lambda>s. if s = ''{}'' then Inr [] else Inl (ErrJson s)),
      gl_range = sorted_list_of_set\<rparr>"

lemma plain_lib_range_ok [simp]: "range_ok plain_lib"
  by (simp add: range_ok_def plain_lib_def)

lemma plain_lib_float_ok [simp]: "float_ok plain_lib"
  using le_trans [OF length_append_int, of 24] by (simp add: float_ok_def plain_lib_def)

end
