(* ===== verification/Memory.thy ===== *)
theory Memory
  imports GoLib "HOL-Library.Multiset"
begin

text \<open>
  \<open>backends/stats/memorybackend.go\<close>: the in-memory metrics store.  Each method takes its lock for
  its whole body; here it is one state transformer, which returns its Go result and the new store (the
  theory \<open>Locking\<close> derives this from the accesses and locks of the method).  Go maps are HOL maps, \<open>map[string]struct{}\<close> is a set of keys; a \<open>*Counter\<close> is reachable
  through one key only, so the counters are held by value.
\<close>

section \<open>The store\<close>

record 'f counter =
  ctr_value :: int64
  ctr_rate :: 'f               \<comment> \<open>\<open>Rate.RatePerSecond\<close>\<close>
  ctr_history :: "'f list"     \<comment> \<open>\<open>Rate.AvgHistory\<close>\<close>

record 'f mem =
  mem_counters :: "bytes \<rightharpoonup> 'f counter"
  mem_values :: "bytes \<rightharpoonup> int64"
  mem_sets :: "bytes \<rightharpoonup> bytes set"
  mem_max_history :: nat
  mem_last :: int              \<comment> \<open>\<open>lastTimeStamp\<close>, in nanoseconds\<close>

text \<open>\<open>NewMemoryBackend\<close>; \<open>now\<close> is the value of \<open>time.Now()\<close>.\<close>

definition new_memory_backend :: "int \<Rightarrow> 'f mem" where
  "new_memory_backend now =
     \<lparr>mem_counters = Map.empty, mem_values = Map.empty, mem_sets = Map.empty,
      mem_max_history = 100, mem_last = now\<rparr>"

section \<open>Counters\<close>

text \<open>The body of the loop of \<open>FlushCounters\<close> for one counter; \<open>d\<close> is the elapsed time.\<close>

definition flush_counter :: "'f golib \<Rightarrow> 'f \<Rightarrow> nat \<Rightarrow> 'f counter \<Rightarrow> 'f counter" where
  "flush_counter L d max_history v =
     (let value = ctr_value v;
          rate_prev = ctr_rate v;
          history = ctr_history v @ [rate_prev];
          l = length history
      in v\<lparr>ctr_rate := gl_fdiv L (gl_fint L value) d,
           ctr_history := (if max_history < l then drop (l - max_history) history else history),
           ctr_value := 0\<rparr>)"

definition flush_counters :: "'f golib \<Rightarrow> int \<Rightarrow> 'f mem \<Rightarrow> 'f mem" where
  "flush_counters L now m =
     (let d = gl_seconds L (now - mem_last m)
      in m\<lparr>mem_last := now,
           mem_counters := (\<lambda>k. map_option (flush_counter L d (mem_max_history m)) (mem_counters m k))\<rparr>)"

definition mem_counter_by :: "'f golib \<Rightarrow> bytes \<Rightarrow> int64 \<Rightarrow> 'f mem \<Rightarrow> int64 res \<times> 'f mem" where
  "mem_counter_by L name cnt m =
     (case mem_counters m name of
        Some v \<Rightarrow>
          (let v' = v\<lparr>ctr_value := ctr_value v + cnt\<rparr>
           in (Ok (ctr_value v'), m\<lparr>mem_counters := (mem_counters m)(name \<mapsto> v')\<rparr>))
      | None \<Rightarrow>
          (Ok cnt, m\<lparr>mem_counters := (mem_counters m)(name \<mapsto>
             \<lparr>ctr_value = cnt, ctr_rate = gl_fzero L, ctr_history = []\<rparr>)\<rparr>))"

definition mem_counter :: "'f golib \<Rightarrow> bytes \<Rightarrow> 'f mem \<Rightarrow> int64 res \<times> 'f mem" where
  "mem_counter L name = mem_counter_by L name 1"

section \<open>Values\<close>

definition mem_incr_by :: "bytes \<Rightarrow> int64 \<Rightarrow> 'f mem \<Rightarrow> int64 res \<times> 'f mem" where
  "mem_incr_by name cnt m =
     (case mem_values m name of
        Some v \<Rightarrow> (Ok (v + cnt), m\<lparr>mem_values := (mem_values m)(name \<mapsto> v + cnt)\<rparr>)
      | None \<Rightarrow> (Ok cnt, m\<lparr>mem_values := (mem_values m)(name \<mapsto> cnt)\<rparr>))"

definition mem_incr :: "bytes \<Rightarrow> 'f mem \<Rightarrow> int64 res \<times> 'f mem" where
  "mem_incr name = mem_incr_by name 1"

text \<open>On a missing key \<open>DecrBy\<close> stores \<open>-1 * count\<close> and returns \<open>count\<close>.\<close>

definition mem_decr_by :: "bytes \<Rightarrow> int64 \<Rightarrow> 'f mem \<Rightarrow> int64 res \<times> 'f mem" where
  "mem_decr_by name cnt m =
     (case mem_values m name of
        Some v \<Rightarrow> (Ok (v - cnt), m\<lparr>mem_values := (mem_values m)(name \<mapsto> v - cnt)\<rparr>)
      | None \<Rightarrow> (Ok cnt, m\<lparr>mem_values := (mem_values m)(name \<mapsto> - 1 * cnt)\<rparr>))"

definition mem_decr :: "bytes \<Rightarrow> 'f mem \<Rightarrow> int64 res \<times> 'f mem" where
  "mem_decr name = mem_decr_by name 1"

definition mem_del :: "bytes \<Rightarrow> 'f mem \<Rightarrow> int64 res \<times> 'f mem" where
  "mem_del name m =
     (let (deleted, m1) =
            (case mem_values m name of
               Some _ \<Rightarrow> (1 :: int64, m\<lparr>mem_values := (mem_values m)(name := None)\<rparr>)
             | None \<Rightarrow> (0, m))
      in case mem_counters m1 name of
           Some _ \<Rightarrow> (Ok (deleted + 1), m1\<lparr>mem_counters := (mem_counters m1)(name := None)\<rparr>)
         | None \<Rightarrow> (Ok deleted, m1))"

definition mem_exists :: "bytes \<Rightarrow> 'f mem \<Rightarrow> int64 res" where
  "mem_exists name m = (case mem_values m name of Some _ \<Rightarrow> Ok 1 | None \<Rightarrow> Ok 0)"

definition mem_get :: "bytes \<Rightarrow> 'f mem \<Rightarrow> int64 res" where
  "mem_get name m = (case mem_values m name of Some v \<Rightarrow> Ok v | None \<Rightarrow> Err ErrNotFound)"

definition mem_set :: "bytes \<Rightarrow> int64 \<Rightarrow> 'f mem \<Rightarrow> int64 res \<times> 'f mem" where
  "mem_set name value m = (Ok 1, m\<lparr>mem_values := (mem_values m)(name \<mapsto> value)\<rparr>)"

definition mem_setnx :: "bytes \<Rightarrow> int64 \<Rightarrow> 'f mem \<Rightarrow> int64 res \<times> 'f mem" where
  "mem_setnx name value m =
     (case mem_values m name of
        None \<Rightarrow> (Ok 1, m\<lparr>mem_values := (mem_values m)(name \<mapsto> value)\<rparr>)
      | Some _ \<Rightarrow> (Ok (- 1), m))"

section \<open>Sets\<close>

definition mem_sadd :: "bytes \<Rightarrow> bytes \<Rightarrow> 'f mem \<Rightarrow> int64 res \<times> 'f mem" where
  "mem_sadd name value m =
     (let (st, m1) =
            (case mem_sets m name of
               Some s \<Rightarrow> (s, m)
             | None \<Rightarrow> ({}, m\<lparr>mem_sets := (mem_sets m)(name \<mapsto> {})\<rparr>))
      in if value \<in> st then (Ok 0, m1)
         else (Ok 1, m1\<lparr>mem_sets := (mem_sets m1)(name \<mapsto> insert value st)\<rparr>))"

definition mem_srem :: "bytes \<Rightarrow> bytes \<Rightarrow> 'f mem \<Rightarrow> int64 res \<times> 'f mem" where
  "mem_srem name value m =
     (case mem_sets m name of
        None \<Rightarrow> (Ok (- 1), m)
      | Some st \<Rightarrow>
          if value \<in> st then (Ok 1, m\<lparr>mem_sets := (mem_sets m)(name \<mapsto> st - {value})\<rparr>)
          else (Ok 0, m))"

definition mem_scard :: "bytes \<Rightarrow> 'f mem \<Rightarrow> int64 res" where
  "mem_scard name m =
     (case mem_sets m name of Some st \<Rightarrow> Ok (word_of_int (int (card st))) | None \<Rightarrow> Ok 0)"

text \<open>\<open>SMembers\<close> and \<open>SInter\<close> return a nil map for a missing set, here \<open>None\<close>.\<close>

definition mem_smembers :: "bytes \<Rightarrow> 'f mem \<Rightarrow> bytes set option res" where
  "mem_smembers name m = Ok (mem_sets m name)"

definition mem_sdiff :: "bytes set \<Rightarrow> bytes \<Rightarrow> 'f mem \<Rightarrow> bytes set res" where
  "mem_sdiff result_set name m =
     (case mem_sets m name of
        None \<Rightarrow> Ok result_set
      | Some st \<Rightarrow> Ok {k \<in> result_set. k \<notin> st})"

definition mem_sismember :: "bytes \<Rightarrow> bytes \<Rightarrow> 'f mem \<Rightarrow> int64 res" where
  "mem_sismember name value m =
     (case mem_sets m name of Some st \<Rightarrow> if value \<in> st then Ok 1 else Ok 0 | None \<Rightarrow> Ok 0)"

fun sunion_loop :: "(bytes \<rightharpoonup> bytes set) \<Rightarrow> bytes list \<Rightarrow> bytes set \<Rightarrow> bytes set" where
  "sunion_loop sets [] results = results"
| "sunion_loop sets (v # vs) results =
     sunion_loop sets vs (case sets v of Some result \<Rightarrow> results \<union> result | None \<Rightarrow> results)"

definition mem_sunion :: "bytes list \<Rightarrow> 'f mem \<Rightarrow> bytes set res" where
  "mem_sunion names m = Ok (sunion_loop (mem_sets m) names {})"

text \<open>
  The first loop of \<open>SInter\<close>: look up every set (a missing one ends the call with nil) and
  remember the index of a smallest one.  \<open>vals\<close> holds the sets found so far.
\<close>

fun sinter_collect :: "(bytes \<rightharpoonup> bytes set) \<Rightarrow> bytes list \<Rightarrow> bytes set list \<Rightarrow> nat \<Rightarrow>
    (bytes set list \<times> nat) option" where
  "sinter_collect sets [] vals min_index = Some (vals, min_index)"
| "sinter_collect sets (v # vs) vals min_index =
     (case sets v of
        None \<Rightarrow> None
      | Some result \<Rightarrow>
          (let vals' = vals @ [result]
           in sinter_collect sets vs vals'
                (if card result < card (vals' ! min_index) then length vals else min_index)))"

definition sinter_pick :: "bytes set list \<Rightarrow> nat \<Rightarrow> bytes set" where
  "sinter_pick vals min_index =
     {k \<in> vals ! min_index.
        list_all (\<lambda>(i, v). i = min_index \<or> k \<in> v) (enumerate 0 vals)}"

definition mem_sinter :: "bytes list \<Rightarrow> 'f mem \<Rightarrow> bytes set option res" where
  "mem_sinter names m =
     (case sinter_collect (mem_sets m) names [] 0 of
        None \<Rightarrow> Ok None
      | Some (vals, min_index) \<Rightarrow>
          if vals = [] then Panic ''runtime error: index out of range''
          else Ok (Some (sinter_pick vals min_index)))"

section \<open>Keys\<close>

text \<open>
  The matching loop of \<open>Keys\<close> for a pattern with a star: \<open>ps\<close> are the parts from \<open>iter\<close> on.  A
  part must be a prefix of \<open>s\<close>; the next part is searched in the whole key; the text from there
  must start with the part after it, and so on.  (The assignment \<open>s = strings.TrimLeft(...)\<close> of
  the source is dead: \<open>s\<close> is overwritten or the loop ends before it is read.)
\<close>

fun keys_match :: "bytes \<Rightarrow> bytes list \<Rightarrow> bytes \<Rightarrow> bool" where
  "keys_match k [] s = True"
| "keys_match k [p] s = has_prefix s p"
| "keys_match k (p # q # ps) s =
     (if has_prefix s p then
        (let index = index_of k q
         in if 0 \<le> index then keys_match k ps (drop (nat index) k) else False)
      else False)"

text \<open>
  \<open>Keys(pattern)\<close>.  For the empty pattern and \<open>*\<close> the loop assigns every key to \<open>results[iter]\<close>
  and never advances \<open>iter\<close>.
\<close>

definition mem_keys :: "'f golib \<Rightarrow> bytes \<Rightarrow> 'f mem \<Rightarrow> bytes list res" where
  "mem_keys L pattern m =
     (let keys = gl_range L (dom (mem_values m)) in
      if pattern = [] \<or> pattern = ''*'' then
        (let results = replicate (card (dom (mem_values m))) []; iter = 0
         in Ok (foldl (\<lambda>results k. results[iter := k]) results keys))
      else
        (let patterns = split_on CHR ''*'' pattern
         in if length patterns = 1 then Ok (filter (\<lambda>k. k = pattern) keys)
            else Ok (filter (\<lambda>k. keys_match k patterns k) keys)))"

lemmas [mem_defs] =
  mem_counter_by_def mem_counter_def mem_incr_by_def mem_incr_def mem_decr_by_def mem_decr_def
  mem_del_def mem_exists_def mem_get_def mem_set_def mem_setnx_def mem_sadd_def mem_srem_def
  mem_scard_def mem_smembers_def mem_sdiff_def mem_sismember_def mem_sunion_def


section \<open>The contract of the values\<close>

text \<open>
  What a client of the \<open>Metrics\<close> interface relies on for the plain values: each operation's effect
  on the map of values.
\<close>

locale metric_values =
  fixes vals :: "'m \<Rightarrow> (bytes \<rightharpoonup> int64)"
    and incr_by :: "bytes \<Rightarrow> int64 \<Rightarrow> 'm \<Rightarrow> int64 res \<times> 'm"
    and decr_by :: "bytes \<Rightarrow> int64 \<Rightarrow> 'm \<Rightarrow> int64 res \<times> 'm"
    and put :: "bytes \<Rightarrow> int64 \<Rightarrow> 'm \<Rightarrow> int64 res \<times> 'm"
    and get :: "bytes \<Rightarrow> 'm \<Rightarrow> int64 res"
  assumes incr_vals: "vals (snd (incr_by k n m)) =
      (vals m)(k \<mapsto> (case vals m k of None \<Rightarrow> n | Some v \<Rightarrow> v + n))"
    and incr_reply: "fst (incr_by k n m) = Ok (case vals m k of None \<Rightarrow> n | Some v \<Rightarrow> v + n)"
    and decr_vals: "vals (snd (decr_by k n m)) =
      (vals m)(k \<mapsto> (case vals m k of None \<Rightarrow> - n | Some v \<Rightarrow> v - n))"
    and put_vals: "vals (snd (put k n m)) = (vals m)(k \<mapsto> n)"
    and get_reply: "get k m = (case vals m k of None \<Rightarrow> Err ErrNotFound | Some v \<Rightarrow> Ok v)"
begin

lemma get_put: "get k (snd (put j n m)) = (if k = j then Ok n else get k m)"
  by (simp add: get_reply put_vals)

lemma get_incr: "get k (snd (incr_by k n m)) = fst (incr_by k n m)"
  by (simp add: get_reply incr_vals incr_reply)

lemma get_other:
  "j \<noteq> k \<Longrightarrow> get k (snd (incr_by j n m)) = get k m"
  "j \<noteq> k \<Longrightarrow> get k (snd (decr_by j n m)) = get k m"
  by (simp_all add: get_reply incr_vals decr_vals)

lemma incr_decr: "get k m = Ok v \<Longrightarrow> get k (snd (decr_by k n (snd (incr_by k n m)))) = Ok v"
  by (simp add: get_reply decr_vals incr_vals split: option.splits)

lemma get_incrs:
  "get k m = Ok v \<Longrightarrow> get k (foldl (\<lambda>m n. snd (incr_by k n m)) m ns) = Ok (v + sum_list ns)"
  by (induction ns arbitrary: m v)
     (simp_all add: get_reply incr_vals add.assoc split: option.splits)

end

interpretation memv: metric_values mem_values mem_incr_by mem_decr_by mem_set mem_get
  by unfold_locales (auto simp: mem_defs split: option.splits)

section \<open>The contract of the sets\<close>

locale metric_sets =
  fixes sets :: "'m \<Rightarrow> (bytes \<rightharpoonup> bytes set)"
    and sadd :: "bytes \<Rightarrow> bytes \<Rightarrow> 'm \<Rightarrow> int64 res \<times> 'm"
  assumes sadd_sets: "sets (snd (sadd k x m)) =
      (sets m)(k \<mapsto> insert x (case sets m k of None \<Rightarrow> {} | Some s \<Rightarrow> s))"
    and sadd_reply: "fst (sadd k x m) =
      Ok (if x \<in> (case sets m k of None \<Rightarrow> {} | Some s \<Rightarrow> s) then 0 else 1)"
begin

abbreviation members :: "'m \<Rightarrow> bytes \<Rightarrow> bytes set" where
  "members m k \<equiv> (case sets m k of None \<Rightarrow> {} | Some s \<Rightarrow> s)"

lemma members_sadd: "members (snd (sadd k x m)) j = (if j = k then insert x (members m k) else members m j)"
  by (simp add: sadd_sets)

text \<open>Adding a list of members: what is stored, and what the replies sum to.\<close>

lemma sadds_members:
  "members (foldl (\<lambda>m x. snd (sadd k x m)) m xs) j =
     (if j = k then members m k \<union> set xs else members m j)"
  by (induction xs arbitrary: m) (auto simp: members_sadd)

end

interpretation mems: metric_sets mem_sets mem_sadd
  by unfold_locales (auto simp: mem_defs insert_absorb split: option.splits)

section \<open>Set operations\<close>

lemma sunion_loop_eq:
  "sunion_loop sets names results = results \<union> (\<Union>v \<in> set names. case sets v of Some s \<Rightarrow> s | None \<Rightarrow> {})"
  by (induction sets names results rule: sunion_loop.induct) (auto split: option.splits)

lemma sinter_collect_None:
  "sinter_collect sets names vals i = None \<longleftrightarrow> (\<exists>v \<in> set names. sets v = None)"
  by (induction sets names vals i rule: sinter_collect.induct)
     (auto simp: Let_def split: option.splits)

lemma sinter_collect_Some:
  assumes "sinter_collect sets names vals i = Some (vals', i')"
    and "vals \<noteq> [] \<Longrightarrow> i < length vals" and "vals = [] \<Longrightarrow> i = 0"
  shows "vals' = vals @ map (\<lambda>v. the (sets v)) names \<and> (vals' \<noteq> [] \<longrightarrow> i' < length vals')"
  using assms
proof (induction sets names vals i rule: sinter_collect.induct)
  case (2 sets v vs vals i)
  then obtain s where s: "sets v = Some s" by (auto split: option.splits)
  let ?j = "if card s < card ((vals @ [s]) ! i) then length vals else i"
  have "?j < length (vals @ [s])" using "2.prems"(2,3) by (cases "vals = []") auto
  with "2.IH" [OF s] "2.prems"(1) s show ?case by (auto simp: Let_def)
qed auto

text \<open>
  The minimal-index choice is always a smallest set: this is what makes the second loop of
  \<open>SInter\<close> as short as it can be.
\<close>

lemma sinter_collect_min:
  assumes "sinter_collect sets names vals i = Some (vals', i')"
    and "vals = [] \<Longrightarrow> i = 0" and "vals \<noteq> [] \<Longrightarrow> i < length vals"
    and "\<forall>v \<in> set vals. card (vals ! i) \<le> card v"
  shows "\<forall>v \<in> set vals'. card (vals' ! i') \<le> card v"
  using assms
proof (induction sets names vals i rule: sinter_collect.induct)
  case (2 sets v vs vals i)
  then obtain s where s: "sets v = Some s" by (auto split: option.splits)
  let ?j = "if card s < card ((vals @ [s]) ! i) then length vals else i"
  have "?j < length (vals @ [s])" using "2.prems"(2,3) by (cases "vals = []") auto
  moreover have "\<forall>u \<in> set (vals @ [s]). card ((vals @ [s]) ! ?j) \<le> card u"
    using "2.prems"(2-4) by (cases "vals = []") (auto simp: nth_append)
  ultimately show ?case using "2.IH" [OF s] "2.prems"(1) s by (simp add: Let_def)
qed auto

lemma sinter_pick_eq:
  assumes "i < length vals"
  shows "sinter_pick vals i = (\<Inter>v \<in> set vals. v)"
proof -
  have "list_all (\<lambda>(j, v). j = i \<or> k \<in> v) (enumerate 0 vals) \<longleftrightarrow>
      (\<forall>j < length vals. j = i \<or> k \<in> vals ! j)" for k
    by (auto simp: list_all_length nth_enumerate_eq)
  then have "sinter_pick vals i = {k. \<forall>j < length vals. k \<in> vals ! j}"
    using assms by (auto simp: sinter_pick_def)
  also have "\<dots> = (\<Inter>v \<in> set vals. v)" by (auto simp: set_conv_nth)
  finally show ?thesis .
qed

lemma mem_sinter_eq:
  assumes "names \<noteq> []"
  shows "mem_sinter names m =
    Ok (if \<exists>v \<in> set names. mem_sets m v = None then None
        else Some (\<Inter>v \<in> set names. the (mem_sets m v)))"
proof (cases "sinter_collect (mem_sets m) names [] 0")
  case None
  then have "\<exists>v \<in> set names. mem_sets m v = None" by (simp only: sinter_collect_None)
  with None show ?thesis by (simp add: mem_sinter_def)
next
  case (Some p)
  obtain vals i where p: "p = (vals, i)" by fastforce
  from sinter_collect_Some [OF Some [unfolded p]]
  have v: "vals = map (\<lambda>v. the (mem_sets m v)) names" and "vals \<noteq> [] \<longrightarrow> i < length vals"
    by auto
  with assms have "sinter_pick vals i = (\<Inter>v \<in> set vals. v)" by (simp add: sinter_pick_eq)
  moreover from Some have "\<not> (\<exists>v \<in> set names. mem_sets m v = None)"
    by (metis option.distinct(1) sinter_collect_None)
  ultimately show ?thesis using Some p v assms by (simp add: mem_sinter_def)
qed


section \<open>Every operation keeps the store well formed\<close>

text \<open>The operations that change the store, as data, and one step of the store.\<close>

datatype mem_op =
    CounterBy bytes int64 | FlushCounters int | IncrBy bytes int64 | DecrBy bytes int64
  | Del bytes | SetTo bytes int64 | SetNx bytes int64 | SAdd bytes bytes | SRem bytes bytes

fun mem_exec :: "'f golib \<Rightarrow> mem_op \<Rightarrow> 'f mem \<Rightarrow> 'f mem" where
  "mem_exec L (CounterBy k n) m = snd (mem_counter_by L k n m)"
| "mem_exec L (FlushCounters now) m = flush_counters L now m"
| "mem_exec L (IncrBy k n) m = snd (mem_incr_by k n m)"
| "mem_exec L (DecrBy k n) m = snd (mem_decr_by k n m)"
| "mem_exec L (Del k) m = snd (mem_del k m)"
| "mem_exec L (SetTo k n) m = snd (mem_set k n m)"
| "mem_exec L (SetNx k n) m = snd (mem_setnx k n m)"
| "mem_exec L (SAdd k x) m = snd (mem_sadd k x m)"
| "mem_exec L (SRem k x) m = snd (mem_srem k x m)"

text \<open>
  Well-formedness: all maps and sets are finite (they are Go maps) and no counter keeps more than
  \<open>maxCounterHistory\<close> rates.
\<close>

definition history_ok :: "'f mem \<Rightarrow> bool" where
  "history_ok m \<longleftrightarrow>
     (\<forall>k c. mem_counters m k = Some c \<longrightarrow> length (ctr_history c) \<le> mem_max_history m)"

definition mem_ok :: "'f mem \<Rightarrow> bool" where
  "mem_ok m \<longleftrightarrow>
     finite (dom (mem_values m)) \<and> finite (dom (mem_counters m)) \<and> finite (dom (mem_sets m)) \<and>
     (\<forall>k s. mem_sets m k = Some s \<longrightarrow> finite s) \<and> history_ok m"

lemma mem_exec_max [simp]: "mem_max_history (mem_exec L op m) = mem_max_history m"
  by (cases op) (auto simp: mem_defs flush_counters_def Let_def split: option.splits)

lemma flush_counter_history:
  "length (ctr_history (flush_counter L d n c)) = min n (Suc (length (ctr_history c)))"
  by (auto simp: flush_counter_def Let_def)

lemma mem_exec_history: "history_ok m \<Longrightarrow> history_ok (mem_exec L op m)"
  unfolding history_ok_def
  by (cases op)
     (auto simp: mem_defs flush_counters_def flush_counter_history Let_def
       split: option.splits if_splits)

lemma dom_map_option [simp]: "dom (\<lambda>k. map_option f (g k)) = dom g"
  by (auto simp: dom_def)

lemma mem_exec_finite:
  "finite (dom (mem_values m)) \<Longrightarrow> finite (dom (mem_values (mem_exec L op m)))"
  "finite (dom (mem_counters m)) \<Longrightarrow> finite (dom (mem_counters (mem_exec L op m)))"
  "finite (dom (mem_sets m)) \<Longrightarrow> finite (dom (mem_sets (mem_exec L op m)))"
  by (cases op; simp add: mem_defs flush_counters_def Let_def split: option.split)+

lemma mem_exec_sets:
  "\<forall>k s. mem_sets m k = Some s \<longrightarrow> finite s \<Longrightarrow> mem_sets (mem_exec L op m) k = Some s \<Longrightarrow> finite s"
proof (cases op)
  case (SAdd j x)
  then show "\<forall>k s. mem_sets m k = Some s \<longrightarrow> finite s \<Longrightarrow> mem_sets (mem_exec L op m) k = Some s \<Longrightarrow> finite s"
    by (auto simp: mems.sadd_sets split: if_splits option.splits)
next
  case (SRem j x)
  then show "\<forall>k s. mem_sets m k = Some s \<longrightarrow> finite s \<Longrightarrow> mem_sets (mem_exec L op m) k = Some s \<Longrightarrow> finite s"
    by (auto simp: mem_srem_def split: if_splits option.splits)
qed (auto simp: mem_defs flush_counters_def Let_def split: option.splits)

lemma mem_exec_ok: "mem_ok m \<Longrightarrow> mem_ok (mem_exec L op m)"
  unfolding mem_ok_def by (intro conjI allI impI; (elim conjE)?)
    (blast intro: mem_exec_finite mem_exec_history mem_exec_sets)+

lemma mem_max_new [simp]: "mem_max_history (new_memory_backend now) = 100"
  by (simp add: new_memory_backend_def)

lemma mem_ok_new [simp]: "mem_ok (new_memory_backend now)"
  by (simp add: mem_ok_def history_ok_def new_memory_backend_def)


section \<open>What an operation adds to a value\<close>

definition value_of :: "'f mem \<Rightarrow> bytes \<Rightarrow> int64" where
  "value_of m k = (case mem_values m k of None \<Rightarrow> 0 | Some v \<Rightarrow> v)"

fun delta :: "bytes \<Rightarrow> mem_op \<Rightarrow> int64" where
  "delta k (IncrBy j n) = (if j = k then n else 0)"
| "delta k (DecrBy j n) = (if j = k then - n else 0)"
| "delta k op = 0"

fun keeps_key :: "bytes \<Rightarrow> mem_op \<Rightarrow> bool" where
  "keeps_key k (SetTo j n) \<longleftrightarrow> j \<noteq> k"
| "keeps_key k (SetNx j n) \<longleftrightarrow> j \<noteq> k"
| "keeps_key k (Del j) \<longleftrightarrow> j \<noteq> k"
| "keeps_key k op \<longleftrightarrow> True"

lemma value_of_exec: "keeps_key k op \<Longrightarrow> value_of (mem_exec L op m) k = value_of m k + delta k op"
  by (cases op) (simp_all add: value_of_def mem_defs flush_counters_def Let_def split: option.split)

section \<open>Pattern matching in Keys\<close>

lemma keys_match_prefix: "star \<notin> set p \<Longrightarrow> keys_match k [p, []] k \<longleftrightarrow> has_prefix k p"
  by (cases k) (auto simp: Let_def)

lemma index_of_nonneg: "0 \<le> index_of k q \<longleftrightarrow> (\<exists>a b. k = a @ q @ b)"
  using index_of_neg_iff [of k q] by force

lemma foldl_update_head:
  "foldl (\<lambda>results k. results[0 := k]) (r # rs) ks = (if ks = [] then r else last ks) # rs"
  by (induction ks arbitrary: r) auto

section \<open>Properties\<close>

text \<open>
The store stays well formed under every sequence of operations from start-up: all maps and
sets are finite, and no counter ever keeps more than 100 past rates.
\<close>

theorem store_invariant:
  "mem_ok (foldl (\<lambda>m op. mem_exec L op m) (new_memory_backend now) ops) \<and>
   (\<forall>k c. mem_counters (foldl (\<lambda>m op. mem_exec L op m) (new_memory_backend now) ops) k = Some c \<longrightarrow>
      length (ctr_history c) \<le> 100)"
proof -
  let ?m = "foldl (\<lambda>m op. mem_exec L op m) (new_memory_backend now) ops"
  have "mem_ok ?m \<and> mem_max_history ?m = 100"
    by (rule foldl_invariant) (auto intro: mem_exec_ok)
  then show ?thesis by (auto simp: mem_ok_def history_ok_def)
qed

theorem store_invariant_witness:
  "length (ctr_history (the (mem_counters (foldl (\<lambda>m op. mem_exec plain_lib op m) (new_memory_backend 0)
     [CounterBy ''c'' 2, FlushCounters 5]) ''c''))) \<le> 100"
proof -
  let ?m = "foldl (\<lambda>m op. mem_exec plain_lib op m) (new_memory_backend 0) [CounterBy ''c'' 2, FlushCounters 5]"
  have "\<exists>c. mem_counters ?m ''c'' = Some c"
    by (simp add: mem_counter_by_def flush_counters_def new_memory_backend_def)
  then obtain c where c: "mem_counters ?m ''c'' = Some c" by blast
  with store_invariant [of plain_lib 0 "[CounterBy ''c'' 2, FlushCounters 5]"]
  have "length (ctr_history c) \<le> 100" by blast
  with c show ?thesis by (simp del: foldl.simps)
qed

text \<open>
\<open>SUNION\<close> is the union of the sets that exist, \<open>SDIFF\<close> removes exactly the members of the
named set.
\<close>

lemma sunion_sdiff_spec:
  "mem_sunion names m = Ok (\<Union>v \<in> set names. case mem_sets m v of Some s \<Rightarrow> s | None \<Rightarrow> {}) \<and>
   mem_sdiff rs name m = Ok (rs - (case mem_sets m name of Some s \<Rightarrow> s | None \<Rightarrow> {}))"
  by (auto simp: mem_sunion_def sunion_loop_eq mem_sdiff_def split: option.splits)

text \<open>
C39. One flush resets every counter to 0, stores the rate of the elapsed interval, appends the
previous rate to the history (dropping the oldest beyond the bound) and neither creates nor
removes a counter nor touches the values and sets.
\<close>

theorem flush_counters_spec:
  "dom (mem_counters (flush_counters L now m)) = dom (mem_counters m) \<and>
   mem_values (flush_counters L now m) = mem_values m \<and> mem_sets (flush_counters L now m) = mem_sets m \<and>
   (\<forall>k c. mem_counters m k = Some c \<longrightarrow>
      (\<exists>c'. mem_counters (flush_counters L now m) k = Some c' \<and> ctr_value c' = 0 \<and>
         ctr_rate c' = gl_fdiv L (gl_fint L (ctr_value c)) (gl_seconds L (now - mem_last m)) \<and>
         (\<exists>n. ctr_history c' = drop n (ctr_history c @ [ctr_rate c])) \<and>
         length (ctr_history c') = min (mem_max_history m) (Suc (length (ctr_history c)))))"
proof -
  have "\<exists>n. ctr_history (flush_counter L d mx c) = drop n (ctr_history c @ [ctr_rate c])" for d mx c
    by (rule exI [of _ "if mx < Suc (length (ctr_history c)) then Suc (length (ctr_history c)) - mx else 0"])
      (simp add: flush_counter_def Let_def)
  moreover have "ctr_value (flush_counter L d mx c) = 0"
    "ctr_rate (flush_counter L d mx c) = gl_fdiv L (gl_fint L (ctr_value c)) d" for d mx c
    by (simp_all add: flush_counter_def Let_def)
  ultimately show ?thesis
    by (simp add: flush_counters_def flush_counter_history Let_def)
qed

theorem flush_counters_spec_witness:
  "\<exists>c. mem_counters (flush_counters plain_lib 5 (snd (mem_counter_by plain_lib ''c'' 2 (new_memory_backend 0)))) ''c'' = Some c \<and>
    ctr_value c = 0 \<and> length (ctr_history c) = 1"
proof -
  let ?m = "snd (mem_counter_by plain_lib ''c'' 2 (new_memory_backend 0))"
  let ?c = "\<lparr>ctr_value = 2, ctr_rate = gl_fzero plain_lib, ctr_history = []\<rparr>"
  have "mem_counters ?m ''c'' = Some ?c" "mem_max_history ?m = 100"
    by (simp_all add: mem_counter_by_def new_memory_backend_def)
  with flush_counters_spec [of plain_lib 5 ?m] show ?thesis by fastforce
qed

text \<open>
\<open>DECR\<close> of a missing key answers with the amount but stores its negation, so the reply is not
the value that a \<open>GET\<close> then returns; \<open>INCR\<close> of a missing key answers what it stores.
\<close>

lemma decr_missing_reply:
  assumes "mem_values m k = None"
  shows "fst (mem_decr_by k n m) = Ok n \<and> mem_get k (snd (mem_decr_by k n m)) = Ok (- n) \<and>
    fst (mem_incr_by k n m) = Ok n \<and> mem_get k (snd (mem_incr_by k n m)) = Ok n"
  using assms by (simp add: mem_defs)

text \<open>
On a key that exists, increments accumulate: a \<open>GET\<close> after any list of \<open>INCR\<close> amounts
returns the old value plus their sum.
\<close>

lemma incrs_accumulate:
  assumes "mem_get k m = Ok v"
  shows "mem_get k (foldl (\<lambda>m n. snd (mem_incr_by k n m)) m ns) = Ok (v + sum_list ns)"
  using assms by (rule memv.get_incrs)

text \<open>
\<open>KEYS\<close> without a pattern (or with \<open>*\<close>) does not list the keys: the answer has as many entries
as there are keys, its first entry is the key visited last, and every other entry is empty.
\<close>

lemma keys_all_only_last:
  assumes "range_ok L" and "finite (dom (mem_values m))" and "mem_values m k0 = Some v"
    and "pattern = [] \<or> pattern = ''*''"
  shows "mem_keys L pattern m =
    Ok (last (gl_range L (dom (mem_values m))) # replicate (card (dom (mem_values m)) - 1) [])"
proof -
  let ?D = "dom (mem_values m)"
  have "k0 \<in> ?D" using assms(3) by auto
  then have "card ?D \<noteq> 0" using assms(2) by auto
  then obtain n where n: "card ?D = Suc n" by (metis not0_implies_Suc)
  moreover have "gl_range L ?D \<noteq> []" using range_okD(3) [OF assms(1,2)] n by auto
  ultimately show ?thesis
    using assms(4) by (auto simp: mem_keys_def Let_def foldl_update_head)
qed

text \<open>
\<open>KEYS p*\<close> lists exactly the keys with prefix \<open>p\<close>; \<open>KEYS *q\<close> lists every key that contains
\<open>q\<close> anywhere (not only as a suffix); \<open>KEYS p\<close> without a star lists the key itself.
\<close>

lemma keys_one_star:
  assumes "CHR ''*'' \<notin> set p" and "p \<noteq> []"
  shows "mem_keys L (p @ ''*'') m = Ok (filter (\<lambda>k. has_prefix k p) (gl_range L (dom (mem_values m)))) \<and>
    mem_keys L (''*'' @ p) m =
      Ok (filter (\<lambda>k. \<exists>a b. k = a @ p @ b) (gl_range L (dom (mem_values m)))) \<and>
    mem_keys L p m = Ok (filter (\<lambda>k. k = p) (gl_range L (dom (mem_values m))))"
proof -
  have "p \<noteq> ''*''" "p @ ''*'' \<noteq> ''*''" "''*'' @ p \<noteq> ''*''" using assms by auto
  moreover have "split_on CHR ''*'' (p @ ''*'') = [p, []]"
    using split_on_append [OF assms(1), of "[]"] by simp
  moreover have "split_on CHR ''*'' (''*'' @ p) = [[], p]"
    using assms(1) by (simp add: split_on_no_sep)
  moreover have "0 \<le> index_of k []" for k
    unfolding index_of_nonneg by (intro exI [of _ k] exI [of _ "[]"]) simp
  ultimately show ?thesis
    using assms by (simp add: mem_keys_def Let_def split_on_no_sep index_of_nonneg cong: filter_cong)
qed

end
