(* ===== verification/BufIO.thy ===== *)
theory BufIO
  imports GoLib
begin

text \<open>
  The buffered reader and writer of Go's \<open>bufio\<close>, as far as \<open>server/client.go\<close> uses them.
  A reader is the size of its buffer and the bytes still to come on the connection, after which
  the peer has closed it.  A writer is its buffer, the bytes the connection has accepted so far,
  and the sticky error of \<open>bufio.Writer\<close>.  The buffer size matters: \<open>ReadSlice\<close> fails with
  \<open>ErrBufferFull\<close> on a line longer than the buffer, and all clients use a buffer of 128 bytes.

  The facts: a reader consumes a prefix of its input; a writer that has not failed appends
  exactly the bytes given, in order, never holds more than its buffer, and \<open>Flush\<close> hands
  everything to the connection.
\<close>

section \<open>bufio.Reader\<close>

record bufreader =
  br_size :: nat      \<comment> \<open>length of the buffer\<close>
  br_in :: bytes      \<comment> \<open>bytes still to be read\<close>
  br_end :: gerr      \<comment> \<open>the error a read meets after them: \<open>EOF\<close> when the peer closes\<close>

text \<open>\<open>bufio.NewReaderSize\<close>: at least 16 bytes.\<close>

definition new_reader :: "nat \<Rightarrow> bytes \<Rightarrow> bufreader" where
  "new_reader sz input = \<lparr>br_size = max 16 sz, br_in = input, br_end = EOF\<rparr>"

text \<open>
  \<open>Reader.ReadSlice('\n')\<close>: the bytes up to and including the first line feed, when it is within
  one buffer; a full buffer without a line feed is consumed and reported as \<open>ErrBufferFull\<close>; a
  shorter rest without a line feed is consumed and reported with the error that ends the input.
\<close>

definition read_slice :: "bufreader \<Rightarrow> bytes res \<times> bufreader" where
  "read_slice r =
     (let s = br_in r; w = take (br_size r) s
      in if LF \<in> set w then
           (let n = Suc (length (takeWhile (\<lambda>c. c \<noteq> LF) w))
            in (Ok (take n s), r\<lparr>br_in := drop n s\<rparr>))
         else if br_size r \<le> length s then (Err BufferFull, r\<lparr>br_in := drop (br_size r) s\<rparr>)
         else (Err (br_end r), r\<lparr>br_in := []\<rparr>))"

text \<open>\<open>io.ReadFull(r, buffer)\<close> with a buffer of \<open>n\<close> bytes.\<close>

definition read_full :: "nat \<Rightarrow> bufreader \<Rightarrow> bytes res \<times> bufreader" where
  "read_full n r =
     (if n \<le> length (br_in r) then (Ok (take n (br_in r)), r\<lparr>br_in := drop n (br_in r)\<rparr>)
      else if br_in r = [] then (Err (br_end r), r)
      else (Err (if br_end r = EOF then UnexpectedEOF else br_end r), r\<lparr>br_in := []\<rparr>))"

lemma read_slice_size [simp]: "br_size (snd (read_slice r)) = br_size r"
  by (simp add: read_slice_def Let_def)

lemma read_slice_end [simp]: "br_end (snd (read_slice r)) = br_end r"
  by (simp add: read_slice_def Let_def)

lemma read_full_end [simp]: "br_end (snd (read_full n r)) = br_end r"
  by (simp add: read_full_def)

lemma read_full_size [simp]: "br_size (snd (read_full n r)) = br_size r"
  by (simp add: read_full_def)

text \<open>A line that fits the buffer is read whole, and nothing after it.\<close>

lemma read_slice_line:
  assumes "LF \<notin> set l" and "length l < br_size r"
  shows "read_slice (r\<lparr>br_in := l @ LF # rest\<rparr>) = (Ok (l @ [LF]), r\<lparr>br_in := rest\<rparr>)"
proof -
  let ?w = "take (br_size r) (l @ LF # rest)"
  from assms(2) obtain k where "br_size r - length l = Suc k"
    by (metis Suc_diff_Suc)
  with assms(2) have w: "?w = l @ LF # take k rest" by simp
  from assms(1) have "takeWhile (\<lambda>c. c \<noteq> LF) (l @ LF # take k rest) = l"
    by (intro takeWhile_append_stop) auto
  with w show ?thesis by (simp add: read_slice_def Let_def)
qed

lemma read_slice_too_long:
  assumes "LF \<notin> set (take (br_size r) (br_in r))" and "br_size r \<le> length (br_in r)"
  shows "read_slice r = (Err BufferFull, r\<lparr>br_in := drop (br_size r) (br_in r)\<rparr>)"
  using assms by (simp add: read_slice_def Let_def)

text \<open>What is read and what is left make up the input; a line read is not empty.\<close>

lemma read_slice_Ok:
  assumes "read_slice r = (Ok l, r')"
  shows "br_in r = l @ br_in r'" and "l \<noteq> []" and "last l = LF" and "length l \<le> br_size r"
proof -
  let ?w = "take (br_size r) (br_in r)" and ?P = "\<lambda>c. c \<noteq> LF"
  let ?n = "Suc (length (takeWhile ?P ?w))"
  from assms have mem: "LF \<in> set ?w" and l: "l = take ?n (br_in r)"
    and r': "r' = r\<lparr>br_in := drop ?n (br_in r)\<rparr>"
    by (auto simp: read_slice_def Let_def split: if_splits)
  from mem have lt: "length (takeWhile ?P ?w) < length ?w"
    by (rule length_takeWhile_stop) simp
  then have "?w ! length (takeWhile ?P ?w) = LF"
    using nth_length_takeWhile [of ?P ?w] by simp
  with lt have nth: "br_in r ! length (takeWhile ?P ?w) = LF" by simp
  show "br_in r = l @ br_in r'" using l r' by simp
  show "l \<noteq> []" using l lt by auto
  show "length l \<le> br_size r" using l lt by simp
  from lt have "l = take (length (takeWhile ?P ?w)) (br_in r) @ [LF]"
    using l nth by (simp add: take_Suc_conv_app_nth)
  then show "last l = LF" by simp
qed

lemma read_slice_shorter:
  "read_slice r = (Ok l, r') \<Longrightarrow> length (br_in r') < length (br_in r)"
  using read_slice_Ok(1,2) [of r l r'] by simp

lemma read_full_append [simp]:
  "length b = n \<Longrightarrow> read_full n (r\<lparr>br_in := b @ rest\<rparr>) = (Ok b, r\<lparr>br_in := rest\<rparr>)"
  by (simp add: read_full_def)

section \<open>bufio.Writer\<close>

record bufwriter =
  bw_size :: nat              \<comment> \<open>length of the buffer\<close>
  bw_buf :: bytes             \<comment> \<open>bytes buffered and not yet handed to the connection\<close>
  bw_sent :: bytes            \<comment> \<open>bytes the connection has accepted\<close>
  bw_conn :: "gerr option"    \<comment> \<open>the error of a write on the connection, if it fails\<close>
  bw_err :: "gerr option"     \<comment> \<open>the sticky error\<close>

text \<open>\<open>bufio.NewWriterSize\<close>: a size of 0 (or less) stands for the default, 4096.\<close>

definition new_writer :: "nat \<Rightarrow> bufwriter" where
  "new_writer sz =
     \<lparr>bw_size = (if sz = 0 then 4096 else sz), bw_buf = [], bw_sent = [],
      bw_conn = None, bw_err = None\<rparr>"

abbreviation bw_avail :: "bufwriter \<Rightarrow> nat" where
  "bw_avail w \<equiv> bw_size w - length (bw_buf w)"

text \<open>A write on the TCP connection: all bytes are accepted, or the connection's error.\<close>

definition conn_write :: "bytes \<Rightarrow> bufwriter \<Rightarrow> gerr option \<times> bufwriter" where
  "conn_write p w =
     (case bw_conn w of None \<Rightarrow> (None, w\<lparr>bw_sent := bw_sent w @ p\<rparr>) | Some e \<Rightarrow> (Some e, w))"

definition bw_flush :: "bufwriter \<Rightarrow> gerr option \<times> bufwriter" where
  "bw_flush w =
     (case bw_err w of
        Some e \<Rightarrow> (Some e, w)
      | None \<Rightarrow>
          if bw_buf w = [] then (None, w)
          else (case conn_write (bw_buf w) w of
                  (None, w') \<Rightarrow> (None, w'\<lparr>bw_buf := []\<rparr>)
                | (Some e, w') \<Rightarrow> (Some e, w'\<lparr>bw_err := Some e\<rparr>)))"

text \<open>
  \<open>Writer.Write(p)\<close>: while \<open>p\<close> does not fit and there is no error, either hand a large write
  straight to the connection (empty buffer) or fill the buffer and flush it; then buffer the rest.
\<close>

function bw_write :: "bytes \<Rightarrow> bufwriter \<Rightarrow> gerr option \<times> bufwriter" where
  "bw_write p w =
     (case bw_err w of
        Some e \<Rightarrow> (Some e, w)
      | None \<Rightarrow>
          if bw_avail w < length p then
            (if bw_buf w = [] then
               (case conn_write p w of
                  (None, w') \<Rightarrow> bw_write [] w'
                | (Some e, w') \<Rightarrow> bw_write p (w'\<lparr>bw_err := Some e\<rparr>))
             else
               bw_write (drop (bw_avail w) p)
                 (snd (bw_flush (w\<lparr>bw_buf := bw_buf w @ take (bw_avail w) p\<rparr>))))
          else (None, w\<lparr>bw_buf := bw_buf w @ p\<rparr>))"
  by pat_completeness auto
termination
  by (relation "measures [\<lambda>(p, w). if bw_err w = None then 1 else 0, \<lambda>(p, w). length p,
                 \<lambda>(p, w). length (bw_buf w)]")
     (auto simp: conn_write_def bw_flush_def split: option.splits)

declare bw_write.simps [simp del]

text \<open>\<open>Writer.WriteByte\<close>.\<close>

definition bw_write_byte :: "byte \<Rightarrow> bufwriter \<Rightarrow> gerr option \<times> bufwriter" where
  "bw_write_byte c w =
     (case bw_err w of
        Some e \<Rightarrow> (Some e, w)
      | None \<Rightarrow>
          if bw_avail w = 0 then
            (case bw_flush w of
               (None, w') \<Rightarrow> (None, w'\<lparr>bw_buf := bw_buf w' @ [c]\<rparr>)
             | (Some e, w') \<Rightarrow> (Some e, w'))
          else (None, w\<lparr>bw_buf := bw_buf w @ [c]\<rparr>))"

text \<open>
  \<open>Writer.WriteString(s)\<close>: like \<open>Write\<close>, but always through the buffer.  The buffer of a writer is
  never empty of capacity (\<open>NewWriterSize\<close>), which is the last conjunct of the loop's guard.
\<close>

function bw_write_string :: "bytes \<Rightarrow> bufwriter \<Rightarrow> gerr option \<times> bufwriter" where
  "bw_write_string s w =
     (case bw_err w of
        Some e \<Rightarrow> (Some e, w)
      | None \<Rightarrow>
          if bw_avail w < length s \<and> 0 < bw_size w then
            bw_write_string (drop (bw_avail w) s)
              (snd (bw_flush (w\<lparr>bw_buf := bw_buf w @ take (bw_avail w) s\<rparr>)))
          else (None, w\<lparr>bw_buf := bw_buf w @ s\<rparr>))"
  by pat_completeness auto
termination
  by (relation "measures [\<lambda>(s, w). if bw_err w = None then 1 else 0, \<lambda>(s, w). length s,
                 \<lambda>(s, w). length (bw_buf w)]")
     (auto simp: conn_write_def bw_flush_def split: option.splits)

declare bw_write_string.simps [simp del]


subsection \<open>What a healthy writer does\<close>

text \<open>
  The stream of a writer is everything written to it, in order: what the connection has
  accepted followed by what is buffered.  A writer is healthy when neither it nor its connection
  has failed and its buffer is within bounds.
\<close>

definition bw_stream :: "bufwriter \<Rightarrow> bytes" where
  "bw_stream w = bw_sent w @ bw_buf w"

definition bw_ok :: "bufwriter \<Rightarrow> bool" where
  "bw_ok w \<longleftrightarrow> bw_err w = None \<and> bw_conn w = None \<and> 0 < bw_size w \<and> length (bw_buf w) \<le> bw_size w"

lemma bw_ok_new_writer [simp]: "bw_ok (new_writer sz)"
  by (simp add: bw_ok_def new_writer_def)

lemma bw_stream_new_writer [simp]: "bw_stream (new_writer sz) = []"
  by (simp add: bw_stream_def new_writer_def)

lemma bw_flush_ok:
  assumes "bw_ok w"
  shows "fst (bw_flush w) = None" and "bw_ok (snd (bw_flush w))"
    and "bw_stream (snd (bw_flush w)) = bw_stream w" and "bw_buf (snd (bw_flush w)) = []"
    and "bw_sent (snd (bw_flush w)) = bw_stream w"
  using assms by (auto simp: bw_ok_def bw_flush_def conn_write_def bw_stream_def)

definition emits :: "(bufwriter \<Rightarrow> gerr option \<times> bufwriter) \<Rightarrow> bytes \<Rightarrow> bool" where
  "emits f b \<longleftrightarrow>
     (\<forall>w. bw_ok w \<longrightarrow>
        fst (f w) = None \<and> bw_ok (snd (f w)) \<and> bw_stream (snd (f w)) = bw_stream w @ b)"

lemma emitsI:
  assumes "\<And>w. bw_ok w \<Longrightarrow> fst (f w) = None"
    and "\<And>w. bw_ok w \<Longrightarrow> bw_ok (snd (f w))"
    and "\<And>w. bw_ok w \<Longrightarrow> bw_stream (snd (f w)) = bw_stream w @ b"
  shows "emits f b"
  using assms by (simp add: emits_def)

lemma emitsD:
  assumes "emits f b" and "bw_ok w"
  shows "fst (f w) = None" and "bw_ok (snd (f w))" and "bw_stream (snd (f w)) = bw_stream w @ b"
  using assms by (simp_all add: emits_def)

lemma emits_flush [emit_intros]: "emits bw_flush []"
  by (rule emitsI) (simp_all add: bw_flush_ok)

lemma bw_write_fits:
  "bw_err w = None \<Longrightarrow> length p \<le> bw_avail w \<Longrightarrow> bw_write p w = (None, w\<lparr>bw_buf := bw_buf w @ p\<rparr>)"
  by (subst bw_write.simps) simp

lemma bw_write_direct:
  assumes "bw_ok w" and "bw_size w < length p" and "bw_buf w = []"
  shows "bw_write p w = (None, w\<lparr>bw_sent := bw_sent w @ p\<rparr>)"
proof -
  from assms have "bw_write p w = bw_write [] (w\<lparr>bw_sent := bw_sent w @ p\<rparr>)"
    by (subst bw_write.simps) (simp add: bw_ok_def conn_write_def)
  with assms show ?thesis by (simp add: bw_write_fits bw_ok_def)
qed

lemma bw_write_spill:
  assumes "bw_ok w" and "bw_avail w < length p" and "bw_buf w \<noteq> []"
  shows "bw_write p w =
    bw_write (drop (bw_avail w) p)
      (w\<lparr>bw_sent := bw_sent w @ bw_buf w @ take (bw_avail w) p, bw_buf := []\<rparr>)"
  using assms by (subst bw_write.simps) (simp add: bw_ok_def bw_flush_def conn_write_def)

text \<open>From an empty buffer a write is either buffered or handed over whole.\<close>

lemma bw_write_empty_buf:
  assumes "bw_ok w" and "bw_buf w = []"
  shows "fst (bw_write p w) = None \<and> bw_ok (snd (bw_write p w)) \<and>
    bw_stream (snd (bw_write p w)) = bw_stream w @ p"
  using assms by (cases "length p \<le> bw_size w")
    (simp_all add: bw_write_fits bw_write_direct bw_ok_def bw_stream_def)

lemma emits_write [emit_intros]: "emits (bw_write p) p"
proof -
  have "fst (bw_write p w) = None \<and> bw_ok (snd (bw_write p w)) \<and>
      bw_stream (snd (bw_write p w)) = bw_stream w @ p" if ok: "bw_ok w" for w
  proof -
    consider (fits) "length p \<le> bw_avail w" | (empty) "bw_buf w = []"
      | (spill) "bw_avail w < length p" "bw_buf w \<noteq> []" by fastforce
    then show ?thesis
    proof cases
      case fits
      with ok show ?thesis by (auto simp: bw_write_fits bw_ok_def bw_stream_def)
    next
      case empty
      with ok show ?thesis by (rule bw_write_empty_buf)
    next
      case spill
      let ?w = "w\<lparr>bw_sent := bw_sent w @ bw_buf w @ take (bw_avail w) p, bw_buf := []\<rparr>"
      have "bw_ok ?w" and "bw_buf ?w = []" and "bw_stream ?w = bw_stream w @ take (bw_avail w) p"
        using ok by (simp_all add: bw_ok_def bw_stream_def)
      with spill ok show ?thesis
        using bw_write_empty_buf [of ?w "drop (bw_avail w) p"] by (simp add: bw_write_spill)
    qed
  qed
  then show ?thesis by (simp add: emits_def)
qed

lemma emits_write_byte [emit_intros]: "emits (bw_write_byte c) [c]"
proof (rule emitsI)
  fix w assume ok: "bw_ok w"
  then show "fst (bw_write_byte c w) = None"
    and "bw_ok (snd (bw_write_byte c w))"
    and "bw_stream (snd (bw_write_byte c w)) = bw_stream w @ [c]"
    by (auto simp: bw_write_byte_def bw_flush_def conn_write_def bw_ok_def bw_stream_def
        split: option.splits prod.splits)
qed

lemma bw_write_string_ok:
  assumes "bw_ok w"
  shows "fst (bw_write_string s w) = None \<and> bw_ok (snd (bw_write_string s w)) \<and>
    bw_stream (snd (bw_write_string s w)) = bw_stream w @ s"
  using assms
proof (induction s w rule: bw_write_string.induct)
  case (1 s w)
  let ?w = "snd (bw_flush (w\<lparr>bw_buf := bw_buf w @ take (bw_avail w) s\<rparr>))"
  show ?case
  proof (cases "bw_avail w < length s")
    case True
    have ok: "bw_ok (w\<lparr>bw_buf := bw_buf w @ take (bw_avail w) s\<rparr>)"
      using "1.prems" by (auto simp: bw_ok_def)
    have "bw_ok ?w" and "bw_stream ?w = bw_stream w @ take (bw_avail w) s"
      using bw_flush_ok [OF ok] by (simp_all add: bw_stream_def)
    moreover have "bw_write_string s w = bw_write_string (drop (bw_avail w) s) ?w"
      using True "1.prems" by (subst bw_write_string.simps) (simp add: bw_ok_def)
    ultimately show ?thesis
      using "1.IH" True "1.prems" by (simp add: bw_ok_def)
  next
    case False
    with "1.prems" show ?thesis
      by (subst (1 2 3) bw_write_string.simps) (auto simp: bw_ok_def bw_stream_def)
  qed
qed

lemma emits_write_string [emit_intros]: "emits (bw_write_string s) s"
  by (simp add: emits_def bw_write_string_ok)

subsection \<open>The contract of a sink\<close>

text \<open>
  What the client's encoders rely on, as an interface: a \<open>put\<close> that appends to the stream, a
  \<open>flush\<close> that leaves nothing behind, and errors that stick.
\<close>

locale byte_sink =
  fixes put :: "bytes \<Rightarrow> 'w \<Rightarrow> gerr option \<times> 'w"
    and ok :: "'w \<Rightarrow> bool"
    and stream :: "'w \<Rightarrow> bytes"
  assumes put_ok: "ok w \<Longrightarrow> fst (put p w) = None \<and> ok (snd (put p w))"
    and put_stream: "ok w \<Longrightarrow> stream (snd (put p w)) = stream w @ p"
begin

lemma puts_ok: "ok w \<Longrightarrow> ok (foldl (\<lambda>w p. snd (put p w)) w ps)"
  by (induction ps arbitrary: w) (simp_all add: put_ok)

lemma puts_stream:
  "ok w \<Longrightarrow> stream (foldl (\<lambda>w p. snd (put p w)) w ps) = stream w @ concat ps"
  by (induction ps arbitrary: w) (simp_all add: put_ok put_stream)

text \<open>How a text is cut into writes does not matter.\<close>

lemma puts_chunking:
  assumes "ok w" and "concat ps = concat qs"
  shows "stream (foldl (\<lambda>w p. snd (put p w)) w ps) = stream (foldl (\<lambda>w p. snd (put p w)) w qs)"
  using assms by (simp add: puts_stream)

end

locale flushed_sink = byte_sink +
  fixes flush :: "'w \<Rightarrow> gerr option \<times> 'w"
    and sent :: "'w \<Rightarrow> bytes"
  assumes flush_ok: "ok w \<Longrightarrow> fst (flush w) = None \<and> ok (snd (flush w))"
    and flush_sent: "ok w \<Longrightarrow> sent (snd (flush w)) = stream w"
begin

lemma puts_flush_sent:
  "ok w \<Longrightarrow> sent (snd (flush (foldl (\<lambda>w p. snd (put p w)) w ps))) = stream w @ concat ps"
  by (simp add: flush_sent puts_ok puts_stream)

end

interpretation bufw: flushed_sink bw_write bw_ok bw_stream bw_flush bw_sent
  by unfold_locales
    (use emitsD [OF emits_write] bw_flush_ok in simp_all)

interpretation bufs: flushed_sink bw_write_string bw_ok bw_stream bw_flush bw_sent
  by unfold_locales
    (use emitsD [OF emits_write_string] bw_flush_ok in simp_all)

subsection \<open>Errors stick\<close>

text \<open>
  After a failed write every later operation reports the same error and changes nothing; this is
  why the client's methods may return the error of their last write only.
\<close>

definition keeps_error :: "(bufwriter \<Rightarrow> gerr option \<times> bufwriter) \<Rightarrow> bool" where
  "keeps_error f \<longleftrightarrow> (\<forall>w e. bw_err w = Some e \<longrightarrow> f w = (Some e, w))"

lemma keeps_error_basic:
  "keeps_error bw_flush" "keeps_error (bw_write p)" "keeps_error (bw_write_byte c)"
  "keeps_error (bw_write_string s)"
  unfolding keeps_error_def
  by (simp add: bw_flush_def, subst bw_write.simps, simp, simp add: bw_write_byte_def,
      subst bw_write_string.simps, simp)

text \<open>Whatever happens, the error returned is the error recorded.\<close>

definition reports_error :: "(bufwriter \<Rightarrow> gerr option \<times> bufwriter) \<Rightarrow> bool" where
  "reports_error f \<longleftrightarrow> (\<forall>w. fst (f w) = bw_err (snd (f w)))"

lemma reports_error_flush: "reports_error bw_flush"
  by (auto simp: reports_error_def bw_flush_def conn_write_def split: option.splits)

lemma reports_error_write: "reports_error (bw_write p)"
proof -
  have "fst (bw_write p w) = bw_err (snd (bw_write p w))" for w
  proof (induction p w rule: bw_write.induct)
    case (1 p w)
    then show ?case
      by (subst (1 2) bw_write.simps)
         (auto simp: conn_write_def split: option.splits prod.splits)
  qed
  then show ?thesis by (simp add: reports_error_def)
qed

lemma reports_error_write_byte: "reports_error (bw_write_byte c)"
  by (auto simp: reports_error_def bw_write_byte_def bw_flush_def conn_write_def
      split: option.splits prod.splits)

lemma reports_error_write_string: "reports_error (bw_write_string s)"
proof -
  have "fst (bw_write_string s w) = bw_err (snd (bw_write_string s w))" for w
  proof (induction s w rule: bw_write_string.induct)
    case (1 s w)
    then show ?case by (subst (1 2) bw_write_string.simps) (auto split: option.splits)
  qed
  then show ?thesis by (simp add: reports_error_def)
qed

section \<open>Sequencing writes\<close>

text \<open>
  Go's \<open>f(); g()\<close> on one writer: the error of \<open>f\<close> is ignored, the error of \<open>g\<close> is the result.
\<close>

definition seqw :: "(bufwriter \<Rightarrow> gerr option \<times> bufwriter) \<Rightarrow>
    (bufwriter \<Rightarrow> gerr option \<times> bufwriter) \<Rightarrow> bufwriter \<Rightarrow> gerr option \<times> bufwriter" where
  "seqw f g w = g (snd (f w))"

lemma emits_seqw [emit_intros]: "emits f a \<Longrightarrow> emits g b \<Longrightarrow> emits (seqw f g) (a @ b)"
  by (simp add: emits_def seqw_def)

lemma keeps_error_seqw: "keeps_error f \<Longrightarrow> keeps_error g \<Longrightarrow> keeps_error (seqw f g)"
  by (simp add: keeps_error_def seqw_def)

lemma reports_error_seqw: "reports_error g \<Longrightarrow> reports_error (seqw f g)"
  by (simp add: reports_error_def seqw_def)

text \<open>A loop of writes whose errors are ignored.\<close>

definition each_w :: "('a \<Rightarrow> bufwriter \<Rightarrow> gerr option \<times> bufwriter) \<Rightarrow> 'a list \<Rightarrow>
    bufwriter \<Rightarrow> gerr option \<times> bufwriter" where
  "each_w f xs w = (None, foldl (\<lambda>w x. snd (f x w)) w xs)"

lemma emits_each_w [emit_intros]:
  assumes "\<And>x. x \<in> set xs \<Longrightarrow> emits (f x) (enc x)"
  shows "emits (each_w f xs) (concat (map enc xs))"
proof -
  have "bw_ok (foldl (\<lambda>w x. snd (f x w)) w xs) \<and>
      bw_stream (foldl (\<lambda>w x. snd (f x w)) w xs) = bw_stream w @ concat (map enc xs)"
    if "bw_ok w" for w
    using that assms by (induction xs arbitrary: w) (simp_all add: emits_def)
  then show ?thesis by (simp add: emits_def each_w_def)
qed

end
