(* ===== verification/Client.thy ===== *)
theory Client
  imports BufIO
begin

text \<open>
  \<open>server/client.go\<close>: the methods of \<open>BufferClient\<close> that write and read the wire format, and the
  life cycle of \<open>NetworkClient\<close>.  A write method is a function on the client's \<open>bufwriter\<close> that
  returns the error of its last call, a read method a function on the client's \<open>bufreader\<close>.
\<close>

section \<open>Reading with errors and panics\<close>

text \<open>
  Sequencing of reads: an error return and a panic both end the method at once, with the reader
  where it is.
\<close>

type_synonym 'a rd = "bufreader \<Rightarrow> 'a res \<times> bufreader"

definition rbind :: "'a rd \<Rightarrow> ('a \<Rightarrow> 'b rd) \<Rightarrow> 'b rd" where
  "rbind m f r =
     (case m r of
        (Ok v, r') \<Rightarrow> f v r'
      | (Err e, r') \<Rightarrow> (Err e, r')
      | (Panic p, r') \<Rightarrow> (Panic p, r'))"

definition rret :: "'a \<Rightarrow> 'a rd" where
  "rret v r = (Ok v, r)"

definition rerr :: "gerr \<Rightarrow> 'a rd" where
  "rerr e r = (Err e, r)"

definition rlift :: "'a res \<Rightarrow> 'a rd" where
  "rlift x r = (x, r)"

lemma rbind_rlift_Ok [simp]: "rbind (rlift (Ok x)) f = f x"
  by (simp add: rbind_def rlift_def fun_eq_iff)

lemma rbind_rret [simp]: "rbind (rret x) f = f x"
  by (simp add: rbind_def rret_def fun_eq_iff)

text \<open>\<open>for i := range r { r[i], err = f(); if err != nil { return nil, err } }\<close>\<close>

fun read_n :: "'a rd \<Rightarrow> nat \<Rightarrow> 'a list rd" where
  "read_n f 0 = rret []"
| "read_n f (Suc n) = rbind f (\<lambda>v. rbind (read_n f n) (\<lambda>vs. rret (v # vs)))"

text \<open>
  \<open>make([]T, n)\<close> with elements of \<open>sz\<close> bytes: the run-time panics on a negative length and on
  a slice larger than the 48-bit address space; memory is otherwise taken to suffice.
\<close>

definition makeslice_panic :: string where
  "makeslice_panic = ''runtime error: makeslice: len out of range''"

definition make_slice :: "nat \<Rightarrow> int64 \<Rightarrow> nat res" where
  "make_slice sz n =
     (if sint n < 0 \<or> 2 ^ 48 < nat (sint n) * sz then Panic makeslice_panic else Ok (nat (sint n)))"

definition go_len :: "'a list \<Rightarrow> int64" where
  "go_len xs = word_of_int (int (length xs))"

section \<open>Write methods\<close>

definition delims :: bytes where
  "delims = [CR, LF]"

definition null_bulk :: bytes where
  "null_bulk = ''-1''"

definition write_len :: "byte \<Rightarrow> int64 \<Rightarrow> bufwriter \<Rightarrow> gerr option \<times> bufwriter" where
  "write_len prefix n =
     seqw (bw_write_byte prefix) (seqw (bw_write (append_int n)) (bw_write delims))"

definition write_string :: "bytes \<Rightarrow> bufwriter \<Rightarrow> gerr option \<times> bufwriter" where
  "write_string s = seqw (bw_write_byte CHR ''+'') (seqw (bw_write_string s) (bw_write delims))"

definition write_byte :: "byte \<Rightarrow> bufwriter \<Rightarrow> gerr option \<times> bufwriter" where
  "write_byte b = seqw (bw_write_byte CHR ''&'') (seqw (bw_write_byte b) (bw_write delims))"

definition write_bytes :: "bytes \<Rightarrow> bufwriter \<Rightarrow> gerr option \<times> bufwriter" where
  "write_bytes b = seqw (write_len CHR ''$'' (go_len b)) (seqw (bw_write b) (bw_write delims))"

definition write_int64 :: "int64 \<Rightarrow> bufwriter \<Rightarrow> gerr option \<times> bufwriter" where
  "write_int64 n = seqw (bw_write_byte CHR '':'') (seqw (bw_write (append_int n)) (bw_write delims))"

definition write_float64 :: "'f golib \<Rightarrow> 'f \<Rightarrow> bufwriter \<Rightarrow> gerr option \<times> bufwriter" where
  "write_float64 L x = seqw (bw_write_byte CHR ''.'') (seqw (bw_write (gl_ffmt L x)) (bw_write delims))"

definition write_bool :: "bool \<Rightarrow> bufwriter \<Rightarrow> gerr option \<times> bufwriter" where
  "write_bool b =
     seqw (bw_write_byte CHR ''?'')
       (seqw (if b then bw_write_byte CHR ''1'' else bw_write_byte CHR ''0'') (bw_write delims))"

text \<open>\<open>WriteError(e)\<close>; \<open>None\<close> is a nil error.\<close>

definition write_error :: "'f golib \<Rightarrow> gerr option \<Rightarrow> bufwriter \<Rightarrow> gerr option \<times> bufwriter" where
  "write_error L e =
     seqw (bw_write_byte CHR ''-'')
       (seqw (case e of Some e' \<Rightarrow> bw_write_string (''ERR '' @ err_text L e') | None \<Rightarrow> bw_write_string ''ERR '')
         (bw_write delims))"

definition write_null :: "bufwriter \<Rightarrow> gerr option \<times> bufwriter" where
  "write_null = seqw (bw_write_byte CHR ''$'') (seqw (bw_write null_bulk) (bw_write delims))"

definition write_bulk :: "bytes list \<Rightarrow> bufwriter \<Rightarrow> gerr option \<times> bufwriter" where
  "write_bulk data = seqw (write_len CHR ''*'' (go_len data)) (each_w write_bytes data)"

text \<open>
  \<open>WriteInterface\<close>: the type switch.  Its \<open>default\<close> branch formats the value with \<open>fmt.Fprint\<close>
  and writes the text as bytes; errors, slices and maps go there.
\<close>

fun write_interface :: "'f golib \<Rightarrow> 'f gval \<Rightarrow> bufwriter \<Rightarrow> gerr option \<times> bufwriter" where
  "write_interface L (VString s) = write_string s"
| "write_interface L (VInt n) = write_int64 n"
| "write_interface L (VInt64 n) = write_int64 n"
| "write_interface L (VFloat x) = write_float64 L x"
| "write_interface L (VBool b) = write_bool b"
| "write_interface L (VByte b) = write_byte b"
| "write_interface L (VBytes b) = write_bytes b"
| "write_interface L VNil = write_null"
| "write_interface L v = write_bytes (fprint L v)"

text \<open>\<open>WriteArray\<close> stops at the first error.\<close>

fun write_array_loop :: "'f golib \<Rightarrow> 'f gval list \<Rightarrow> gerr option \<times> bufwriter \<Rightarrow> gerr option \<times> bufwriter"
where
  "write_array_loop L [] (err, w) = (err, w)"
| "write_array_loop L (v # vs) (err, w) =
     (if err \<noteq> None then (err, w) else write_array_loop L vs (write_interface L v w))"

definition write_array :: "'f golib \<Rightarrow> 'f gval list \<Rightarrow> bufwriter \<Rightarrow> gerr option \<times> bufwriter" where
  "write_array L args w = write_array_loop L args (write_len CHR ''*'' (go_len args) w)"

definition write_json :: "'f golib \<Rightarrow> 'f gval \<Rightarrow> bufwriter \<Rightarrow> gerr option \<times> bufwriter" where
  "write_json L arg w =
     (case gl_json L arg of
        Inl e \<Rightarrow> (Some e, w)
      | Inr b \<Rightarrow>
          seqw (bw_write_byte CHR ''~'')
            (seqw (bw_write_string ''json'') (seqw (bw_write delims) (write_bytes b))) w)"

definition write_command :: "'f golib \<Rightarrow> bytes \<Rightarrow> 'f gval list \<Rightarrow> bufwriter \<Rightarrow> gerr option \<times> bufwriter"
where
  "write_command L cmd args = write_array L (VBytes (to_upper L cmd) # args)"

section \<open>Parsers of a line\<close>

definition parse_byte :: "bytes \<Rightarrow> byte res" where
  "parse_byte b = (if b = [] then Err (ErrText ''malformed byte'') else Ok (hd b))"

definition parse_string :: "bytes \<Rightarrow> bytes res" where
  "parse_string b = Ok b"

definition parse_int64 :: "bytes \<Rightarrow> int64 res" where
  "parse_int64 b = (if b = [] then Ok 0 else parse_int b)"

definition parse_float64 :: "'f golib \<Rightarrow> bytes \<Rightarrow> 'f res" where
  "parse_float64 L b =
     (if b = [] then Ok (gl_fzero L)
      else case gl_fparse L b of Inr x \<Rightarrow> Ok x | Inl e \<Rightarrow> Err (ErrFloat b e))"

definition parse_bool :: "bytes \<Rightarrow> bool res" where
  "parse_bool b = (if b = [] then Ok False else Ok (hd b = CHR ''1''))"

text \<open>\<open>ParseError\<close> returns the error the line carries as a value, here its text.\<close>

definition parse_error :: "bytes \<Rightarrow> bytes res" where
  "parse_error b = (if b = [] then Err (ErrText ''malformed error'') else Ok b)"

section \<open>Read methods\<close>

definition read_line :: "bytes rd" where
  "read_line = rbind read_slice (\<lambda>packet.
     if length packet < 2 \<or> packet ! (length packet - 2) \<noteq> CR then rerr ErrLineFormat
     else rret (take (length packet - 2) packet))"

definition read_line_invariant :: "bytes rd" where
  "read_line_invariant = rbind read_slice (\<lambda>packet.
     if length packet < 2 then rerr ErrLineFormat
     else if packet ! (length packet - 2) = CR \<or> packet ! (length packet - 2) = CHR '' ''
          then rret (take (length packet - 2) packet)
          else rret (take (length packet - 1) packet))"

text \<open>
  The body of a \<open>$\<close> payload of length \<open>n\<close>, which \<open>ReadPayload\<close> and \<open>ReadInterface\<close> share:
  \<open>make\<close>, \<open>io.ReadFull\<close>, and the empty line that must follow.
\<close>

definition read_blob :: "int64 \<Rightarrow> bytes rd" where
  "read_blob n = rbind (rlift (make_slice 1 n)) (\<lambda>k.
     rbind (read_full k) (\<lambda>buffer.
       rbind read_line (\<lambda>line.
         if line \<noteq> [] then rerr ErrBadBulkFormat else rret buffer)))"

text \<open>\<open>ReadPayload\<close>; a nil slice is \<open>None\<close>.\<close>

definition read_payload :: "bytes option rd" where
  "read_payload = rbind read_line (\<lambda>line.
     if length line < 2 then rerr ErrReadRequest
     else if hd line \<noteq> CHR ''$'' then rerr ErrReadRequest
     else rbind (rlift (parse_int64 (tl line))) (\<lambda>n.
       if n = - 1 then rret None
       else rbind (read_blob n) (\<lambda>buffer. rret (Some buffer))))"

text \<open>
  \<open>ReadBulkPayload\<close>.  The elements of the result are only ever used as strings and lengths, where
  a nil slice is the empty string.
\<close>

definition go_bytes :: "bytes option \<Rightarrow> bytes" where
  "go_bytes b = (case b of None \<Rightarrow> [] | Some s \<Rightarrow> s)"

definition read_bulk_payload :: "bytes list rd" where
  "read_bulk_payload = rbind read_line (\<lambda>line.
     if length line < 2 then rerr ErrReadRequest
     else if hd line = CHR ''*'' then
       rbind (rlift (parse_int64 (tl line))) (\<lambda>n.
         rbind (rlift (make_slice 24 n)) (\<lambda>k.
           rbind (read_n read_payload k) (\<lambda>r. rret (map go_bytes r))))
     else rerr ErrReadRequest)"

text \<open>
  \<open>ReadInterface\<close>, with its recursive calls as the argument \<open>rec\<close>.  The type assertion
  \<open>r.([]byte)\<close> of the \<open>~\<close> branch panics on any other type, a nil value included.
\<close>

definition assert_bytes_panic :: string where
  "assert_bytes_panic = ''interface conversion: interface is not []uint8''"

text \<open>
  The cases of its \<open>switch\<close> that return one parsed line, and the return after the \<open>switch\<close>.
\<close>

definition read_interface_line :: "'f golib \<Rightarrow> char \<Rightarrow> bytes \<Rightarrow> 'f gval res" where
  "read_interface_line L t b =
     (if t = CHR ''&'' then map_res VByte (parse_byte b)
      else if t = CHR ''+'' then map_res VString (parse_string b)
      else if t = CHR '':'' then map_res VInt64 (parse_int64 b)
      else if t = CHR ''.'' then map_res VFloat (parse_float64 L b)
      else if t = CHR ''?'' then map_res VBool (parse_bool b)
      else if t = CHR ''-'' then map_res VError (parse_error b)
      else Err ErrReadRequest)"

definition read_interface_body :: "'f golib \<Rightarrow> 'f gval rd \<Rightarrow> 'f gval rd" where
  "read_interface_body L rec = rbind read_line (\<lambda>line.
     if length line < 2 then rerr ErrReadRequest
     else let t = hd line; b = tl line in
       if t = CHR ''$'' then
         rbind (rlift (parse_int64 b)) (\<lambda>n.
           if n = - 1 then rret VNil
           else rbind (read_blob n) (\<lambda>buffer. rret (VBytes buffer)))
       else if t = CHR ''*'' then
         rbind (rlift (parse_int64 b)) (\<lambda>n.
           rbind (rlift (make_slice 16 n)) (\<lambda>k.
             rbind (read_n rec k) (\<lambda>r. rret (VArray r))))
       else if t = CHR ''~'' then
         rbind (rlift (parse_string b)) (\<lambda>structure.
           rbind rec (\<lambda>r.
             if structure = ''json'' then
               (case r of
                  VBytes j \<Rightarrow> (case gl_unjson L j of Inl e \<Rightarrow> rerr e | Inr m \<Rightarrow> rret (VMap m))
                | _ \<Rightarrow> rlift (Panic assert_bytes_panic))
             else rerr ErrReadRequest))
       else rlift (read_interface_line L t b))"

text \<open>
  The recursion runs on the input: every call consumes a line first, so one unit of fuel per
  byte of input (and one more) is enough, which \<open>read_interface_unfold\<close> below proves: with that
  fuel \<open>read_interface\<close> satisfies the recursive equation of the source.
\<close>

fun read_interface_fuel :: "'f golib \<Rightarrow> nat \<Rightarrow> 'f gval rd" where
  "read_interface_fuel L 0 = rlift (Panic ''out of fuel'')"
| "read_interface_fuel L (Suc k) = read_interface_body L (read_interface_fuel L k)"

definition read_interface :: "'f golib \<Rightarrow> 'f gval rd" where
  "read_interface L r = read_interface_fuel L (Suc (length (br_in r))) r"


section \<open>The life cycle of a network client\<close>

text \<open>
  \<open>NetworkClient\<close>.  \<open>nc_closed\<close>, \<open>nc_addr\<close> and \<open>nc_conn\<close> are fields of the struct itself
  (\<open>nc_conn\<close>: the pointer \<open>Conn\<close> is not nil).  The others are what its pointers and channels refer
  to, which a copy of the struct shares: the reader and writer, whether the TCP connection is still
  open, and whether the channels \<open>Quit\<close> and \<open>RequestError\<close> have been closed.
\<close>

record netclient =
  nc_reader :: bufreader
  nc_writer :: bufwriter
  nc_addr :: address
  nc_closed :: bool
  nc_conn :: bool
  nc_conn_open :: bool
  nc_quit_closed :: bool
  nc_reqerr_closed :: bool

text \<open>
  \<open>Initialize(conn, bufferSize)\<close> on a connection from address \<open>addr\<close> on which \<open>input\<close> is going to
  arrive.
\<close>

definition nc_initialize :: "address \<Rightarrow> bytes \<Rightarrow> nat \<Rightarrow> netclient" where
  "nc_initialize addr input sz =
     \<lparr>nc_reader = new_reader sz input, nc_writer = new_writer sz, nc_addr = addr,
      nc_closed = False, nc_conn = True, nc_conn_open = True,
      nc_quit_closed = False, nc_reqerr_closed = False\<rparr>"

definition new_network_client :: "address \<Rightarrow> bytes \<Rightarrow> netclient" where
  "new_network_client addr input = nc_initialize addr input 128"

text \<open>
  The clients of the redis and the line protocol embed a \<open>NetworkClient\<close> and initialise it with the size of
  their buffers; they differ from it in their \<open>WriteCommand\<close>.
\<close>

definition new_redis_client_size :: "address \<Rightarrow> bytes \<Rightarrow> nat \<Rightarrow> netclient" where
  [simp]: "new_redis_client_size addr input sz = nc_initialize addr input sz"

definition new_redis_client :: "address \<Rightarrow> bytes \<Rightarrow> netclient" where
  [simp]: "new_redis_client addr input = new_redis_client_size addr input 128"

definition new_line_client_size :: "address \<Rightarrow> bytes \<Rightarrow> nat \<Rightarrow> netclient" where
  [simp]: "new_line_client_size addr input sz = nc_initialize addr input sz"

definition new_line_client :: "address \<Rightarrow> bytes \<Rightarrow> netclient" where
  [simp]: "new_line_client addr input = new_line_client_size addr input 128"

definition conn_closed_error :: gerr where
  "conn_closed_error = ErrNet ''use of closed network connection''"

text \<open>
  \<open>Conn.Close()\<close>: later writes on the connection and later reads from it fail.  (Which bytes the
  reader had already buffered is decided where a client is closed while its loop is running.)
\<close>

definition conn_close :: "netclient \<Rightarrow> netclient" where
  "conn_close n =
     n\<lparr>nc_conn_open := False,
       nc_writer := (nc_writer n)\<lparr>bw_conn := Some conn_closed_error\<rparr>,
       nc_reader := (nc_reader n)\<lparr>br_end := conn_closed_error\<rparr>\<rparr>"

definition close_closed_panic :: string where
  "close_closed_panic = ''close of closed channel''"

text \<open>The body of \<open>Close\<close>, on the struct it works on.\<close>

definition close_body :: "netclient \<Rightarrow> unit res \<times> netclient" where
  "close_body n =
     (if \<not> nc_conn n then (Ok (), n)
      else
        let n1 = (conn_close (n\<lparr>nc_closed := True\<rparr>))\<lparr>nc_conn := False\<rparr> in
        if nc_reqerr_closed n1 then (Panic close_closed_panic, n1)
        else
          let n2 = n1\<lparr>nc_reqerr_closed := True\<rparr> in
          if nc_quit_closed n2 then (Panic close_closed_panic, n2)
          else (Ok (), n2\<lparr>nc_quit_closed := True\<rparr>))"

text \<open>
  \<open>func (netClient NetworkClient) Close()\<close> has a value receiver: it works on a copy of the struct,
  so its assignments to \<open>Closed\<close> and \<open>Conn\<close> are lost to the caller, while what it does to the
  connection and the channels is not.
\<close>

definition nc_close :: "netclient \<Rightarrow> unit res \<times> netclient" where
  "nc_close n =
     (case close_body n of
        (r, n') \<Rightarrow> (r, n'\<lparr>nc_closed := nc_closed n, nc_conn := nc_conn n\<rparr>))"

definition nc_is_closed :: "netclient \<Rightarrow> bool" where
  "nc_is_closed n = nc_closed n"

definition nc_address :: "netclient \<Rightarrow> address" where
  "nc_address n = nc_addr n"

text \<open>A client that is connected and has not been closed.\<close>

definition nc_live :: "netclient \<Rightarrow> bool" where
  "nc_live n \<longleftrightarrow> nc_conn n \<and> nc_conn_open n \<and> \<not> nc_quit_closed n \<and> \<not> nc_reqerr_closed n"

lemma nc_live_initialize [simp]: "nc_live (nc_initialize addr input sz)"
  by (simp add: nc_live_def nc_initialize_def)

lemma nc_close_live:
  "nc_live n \<Longrightarrow>
   nc_close n = (Ok (), (conn_close n)\<lparr>nc_quit_closed := True, nc_reqerr_closed := True\<rparr>)"
  by (cases n) (simp add: nc_live_def nc_close_def close_body_def conn_close_def)

lemma nc_close_again: "nc_conn n \<Longrightarrow> nc_reqerr_closed n \<Longrightarrow> fst (nc_close n) = Panic close_closed_panic"
  by (simp add: nc_close_def close_body_def conn_close_def)

lemma nc_close_fields [simp]:
  "nc_addr (snd (nc_close n)) = nc_addr n" "nc_closed (snd (nc_close n)) = nc_closed n"
  "nc_conn (snd (nc_close n)) = nc_conn n"
  by (auto simp: nc_close_def close_body_def conn_close_def Let_def split: prod.split)

text \<open>
\<open>Close\<close> of a live client closes the connection and both channels, but it is not idempotent and
not recorded: \<open>IsClosed\<close> still answers false, and a second \<open>Close\<close> panics on the closed channel.
The body of \<open>Close\<close> on the struct itself (a pointer receiver) would be idempotent.
\<close>

theorem close_twice_panics:
  assumes "nc_live n"
  shows "\<exists>n'. nc_close n = (Ok (), n') \<and> \<not> nc_conn_open n' \<and> nc_quit_closed n' \<and>
    nc_is_closed n' = nc_is_closed n \<and> fst (nc_close n') = Panic close_closed_panic \<and>
    (let m = snd (close_body n) in nc_is_closed m \<and> close_body m = (Ok (), m))"
proof -
  obtain n' where n': "nc_close n = (Ok (), n')" "\<not> nc_conn_open n'" "nc_quit_closed n'" "nc_reqerr_closed n'"
    using nc_close_live [OF assms] by (simp add: conn_close_def)
  with nc_close_fields [of n] have "nc_conn n'" "nc_closed n' = nc_closed n"
    using assms by (simp_all add: nc_live_def)
  with n' nc_close_again [of n'] assms show ?thesis
    by (auto simp: nc_is_closed_def nc_live_def close_body_def conn_close_def Let_def)
qed

theorem close_twice_panics_witness:
  "\<exists>n'. nc_close (new_network_client ''1.2.3.4:5'' []) = (Ok (), n') \<and> \<not> nc_is_closed n' \<and>
    fst (nc_close n') = Panic close_closed_panic"
  using close_twice_panics [of "new_network_client ''1.2.3.4:5'' []"]
  by (auto simp: new_network_client_def nc_initialize_def nc_live_def nc_is_closed_def)

end
