(* ===== verification/Wire.thy ===== *)
theory Wire
  imports Client
begin

text \<open>
  The wire format of \<open>server/client.go\<close>, both directions.  First the reading side on its own:
  every read method consumes a prefix of the input, and \<open>read_interface\<close> satisfies the recursive
  equation of the source.  Then the writing side: the bytes each write method appends.  Then the
  two against each other: what is read back from what was written, and the limits of that (an
  empty string, a line feed, a line longer than the reader's buffer, a nested array).
\<close>

section \<open>Readers consume their input\<close>

definition steady :: "'a rd \<Rightarrow> bool" where
  "steady m \<longleftrightarrow> (\<forall>r :: bufreader. \<exists>k. snd (m r) = r\<lparr>br_in := drop k (br_in r)\<rparr>)"

definition progress :: "'a rd \<Rightarrow> bool" where
  "progress m \<longleftrightarrow> (\<forall>r v r'. m r = (Ok v, r') \<longrightarrow> length (br_in r') < length (br_in r))"

lemma steady_le: "steady m \<Longrightarrow> m r = (x, r') \<Longrightarrow> length (br_in r') \<le> length (br_in r)"
  unfolding steady_def by (metis bufreader.select_convs(2) bufreader.surjective
      bufreader.update_convs(2) diff_le_self length_drop snd_conv)

lemma steadyI: "(\<And>r. \<exists>k. snd (m r) = r\<lparr>br_in := drop k (br_in r)\<rparr>) \<Longrightarrow> steady m"
  by (simp add: steady_def)

lemma drop_none: "\<exists>k. r = r\<lparr>br_in := drop k (br_in r)\<rparr>" for r :: bufreader
  by (rule exI [of _ 0]) simp

lemma drop_all_in: "\<exists>k. r\<lparr>br_in := []\<rparr> = r\<lparr>br_in := drop k (br_in r)\<rparr>" for r :: bufreader
  by (rule exI [of _ "length (br_in r)"]) simp

lemma steady_basic [steady_intros]:
  "steady (rret v)" "steady (rerr e)" "steady (rlift x)"
  by (auto intro!: steadyI drop_none simp: rret_def rerr_def rlift_def)

lemma steady_read_slice [steady_intros]: "steady read_slice"
proof (rule steadyI)
  fix r show "\<exists>k. snd (read_slice r) = r\<lparr>br_in := drop k (br_in r)\<rparr>"
    unfolding read_slice_def Let_def using drop_all_in [of r] by (simp, blast)
qed

lemma steady_read_full [steady_intros]: "steady (read_full n)"
proof (rule steadyI)
  fix r show "\<exists>k. snd (read_full n r) = r\<lparr>br_in := drop k (br_in r)\<rparr>"
    unfolding read_full_def using drop_all_in [of r] drop_none [of r] by (simp, blast)
qed

lemma steady_if [steady_intros]: "steady a \<Longrightarrow> steady b \<Longrightarrow> steady (if c then a else b)"
  by simp

lemma steady_case_sum [steady_intros]:
  "(\<And>x. steady (f x)) \<Longrightarrow> (\<And>y. steady (g y)) \<Longrightarrow> steady (case s of Inl x \<Rightarrow> f x | Inr y \<Rightarrow> g y)"
  by (cases s) auto

lemma steady_case_bytes [steady_intros]:
  "(\<And>j. steady (f j)) \<Longrightarrow> steady a \<Longrightarrow> steady (case v of VBytes j \<Rightarrow> f j | _ \<Rightarrow> a)"
  by (cases v) auto

lemma steady_rbind [steady_intros]:
  assumes "steady m" and "\<And>v. steady (f v)"
  shows "steady (rbind m f)"
proof -
  have "\<exists>k. snd (rbind m f r) = r\<lparr>br_in := drop k (br_in r)\<rparr>" for r
  proof -
    obtain x r1 where m: "m r = (x, r1)" by fastforce
    with assms(1) obtain k where r1: "r1 = r\<lparr>br_in := drop k (br_in r)\<rparr>"
      unfolding steady_def by (metis snd_conv)
    show ?thesis
    proof (cases x)
      case (Ok v)
      from assms(2) obtain j where "snd (f v r1) = r1\<lparr>br_in := drop j (br_in r1)\<rparr>"
        unfolding steady_def by blast
      with m Ok r1 show ?thesis by (auto simp: rbind_def drop_drop)
    qed (use m r1 in \<open>auto simp: rbind_def\<close>)
  qed
  then show ?thesis by (simp add: steady_def)
qed

lemma steady_read_n [steady_intros]: "steady f \<Longrightarrow> steady (read_n f n)"
  by (induction n) (auto intro!: steady_intros)

lemma progress_read_slice: "progress read_slice"
  by (simp add: progress_def read_slice_shorter)

lemma progress_rbind:
  assumes "progress m" and "\<And>v. steady (f v)"
  shows "progress (rbind m f)"
  unfolding progress_def
proof (intro allI impI)
  fix r v r' assume "rbind m f r = (Ok v, r')"
  then obtain x r1 where "m r = (Ok x, r1)" and "f x r1 = (Ok v, r')"
    by (auto simp: rbind_def split: prod.splits res.splits)
  then show "length (br_in r') < length (br_in r)"
    using assms steady_le [of "f x"] unfolding progress_def by fastforce
qed

lemma steady_read_line [steady_intros]: "steady read_line"
  unfolding read_line_def by (intro steady_intros)

lemma progress_read_line: "progress read_line"
  unfolding read_line_def by (intro progress_rbind progress_read_slice steady_intros)

lemma steady_read_blob [steady_intros]: "steady (read_blob n)"
  unfolding read_blob_def by (intro steady_intros)

lemma steady_read_payload [steady_intros]: "steady read_payload"
  unfolding read_payload_def by (intro steady_intros)

lemma progress_read_bulk_payload: "progress read_bulk_payload"
  unfolding read_bulk_payload_def by (intro progress_rbind progress_read_line steady_intros)

lemma steady_read_bulk_payload [steady_intros]: "steady read_bulk_payload"
  unfolding read_bulk_payload_def by (intro steady_intros)

lemma steady_read_line_invariant [steady_intros]: "steady read_line_invariant"
  unfolding read_line_invariant_def by (intro steady_intros)

lemma progress_read_line_invariant: "progress read_line_invariant"
  unfolding read_line_invariant_def by (intro progress_rbind progress_read_slice steady_intros)

section \<open>The recursive equation of ReadInterface\<close>

lemma steady_body: "steady f \<Longrightarrow> steady (read_interface_body L f)"
  unfolding read_interface_body_def Let_def by (intro steady_intros)

lemma progress_body: "steady f \<Longrightarrow> progress (read_interface_body L f)"
  unfolding read_interface_body_def Let_def
  by (intro progress_rbind progress_read_line steady_intros)

lemma steady_fuel: "steady (read_interface_fuel L k)"
  by (induction k) (auto intro: steady_body steady_intros)

text \<open>Two readers agree below \<open>k\<close> when they do the same on every input shorter than \<open>k\<close>.\<close>

definition agree :: "nat \<Rightarrow> 'a rd \<Rightarrow> 'a rd \<Rightarrow> bool" where
  "agree k f g \<longleftrightarrow> (\<forall>r. length (br_in r) < k \<longrightarrow> f r = g r)"

lemma agree_refl [agree_intros]: "agree k f f"
  by (simp add: agree_def)

lemma agree_if [agree_intros]:
  "agree k a a' \<Longrightarrow> agree k b b' \<Longrightarrow> agree k (if c then a else b) (if c then a' else b')"
  by simp

lemma agree_rbind [agree_intros]:
  assumes "steady m" and "agree k m m'" and "\<And>v. agree k (f v) (g v)"
  shows "agree k (rbind m f) (rbind m' g)"
  unfolding agree_def
proof (intro allI impI)
  fix r :: bufreader assume r: "length (br_in r) < k"
  obtain x r1 where m: "m r = (x, r1)" by fastforce
  have "length (br_in r1) \<le> length (br_in r)" using assms(1) m by (rule steady_le)
  with r assms(3) have "f v r1 = g v r1" for v unfolding agree_def by simp
  moreover have "m' r = (x, r1)" using assms(2) r m by (simp add: agree_def)
  ultimately show "rbind m f r = rbind m' g r"
    using m by (simp add: rbind_def split: res.splits)
qed

lemma agree_read_n [agree_intros]: "steady f \<Longrightarrow> agree k f g \<Longrightarrow> agree k (read_n f n) (read_n g n)"
  by (induction n) (auto intro!: agree_intros steady_intros)

lemma rbind_agree:
  assumes "progress m" and "\<And>v. agree (length (br_in r)) (f v) (g v)"
  shows "rbind m f r = rbind m g r"
  using assms by (auto simp: rbind_def progress_def agree_def split: prod.splits res.splits)

lemma body_agree:
  assumes "steady f" and "agree (length (br_in r)) f g"
  shows "read_interface_body L f r = read_interface_body L g r"
  unfolding read_interface_body_def Let_def
  using assms by (intro rbind_agree progress_read_line agree_intros steady_intros)

lemma fuel_stable:
  "length (br_in r) < k \<Longrightarrow> length (br_in r) < j \<Longrightarrow>
   read_interface_fuel L k r = read_interface_fuel L j r"
proof (induction k arbitrary: j r)
  case (Suc k)
  then obtain i where j: "j = Suc i" by (cases j) auto
  have "agree (length (br_in r)) (read_interface_fuel L k) (read_interface_fuel L i)"
    unfolding agree_def using Suc.prems j by (auto intro!: Suc.IH)
  then show ?case using j by (simp add: body_agree steady_fuel)
qed simp

lemma read_interface_unfold: "read_interface L = read_interface_body L (read_interface L)"
proof
  fix r :: bufreader
  have "agree (length (br_in r)) (read_interface_fuel L (length (br_in r))) (read_interface L)"
    unfolding agree_def read_interface_def by (auto simp del: read_interface_fuel.simps intro!: fuel_stable)
  from body_agree [OF steady_fuel this]
  show "read_interface L r = read_interface_body L (read_interface L) r"
    by (subst read_interface_def) simp
qed

lemma steady_read_interface [steady_intros]: "steady (read_interface L)"
  using steady_fuel unfolding steady_def read_interface_def by blast

lemma progress_read_interface: "progress (read_interface L)"
  by (subst read_interface_unfold) (simp add: progress_body steady_read_interface)


section \<open>What the write methods append\<close>

definition enc_line :: "char \<Rightarrow> bytes \<Rightarrow> bytes" where
  "enc_line c s = c # s @ [CR, LF]"

definition enc_blob :: "bytes \<Rightarrow> bytes" where
  "enc_blob b = enc_line CHR ''$'' (append_int (go_len b)) @ b @ [CR, LF]"

fun enc_value :: "'f golib \<Rightarrow> 'f gval \<Rightarrow> bytes" where
  "enc_value L (VString s) = enc_line CHR ''+'' s"
| "enc_value L (VInt n) = enc_line CHR '':'' (append_int n)"
| "enc_value L (VInt64 n) = enc_line CHR '':'' (append_int n)"
| "enc_value L (VFloat x) = enc_line CHR ''.'' (gl_ffmt L x)"
| "enc_value L (VBool b) = enc_line CHR ''?'' (if b then ''1'' else ''0'')"
| "enc_value L (VByte b) = enc_line CHR ''&'' [b]"
| "enc_value L (VBytes b) = enc_blob b"
| "enc_value L VNil = enc_line CHR ''$'' ''-1''"
| "enc_value L v = enc_blob (fprint L v)"

definition enc_bulk :: "bytes list \<Rightarrow> bytes" where
  "enc_bulk ds = enc_line CHR ''*'' (append_int (go_len ds)) @ concat (map enc_blob ds)"

definition enc_array :: "'f golib \<Rightarrow> 'f gval list \<Rightarrow> bytes" where
  "enc_array L vs = enc_line CHR ''*'' (append_int (go_len vs)) @ concat (map (enc_value L) vs)"

definition enc_error :: "'f golib \<Rightarrow> gerr \<Rightarrow> bytes" where
  "enc_error L e = enc_line CHR ''-'' (''ERR '' @ err_text L e)"

lemma emits_line:
  assumes "emits f s"
  shows "emits (seqw (bw_write_byte c) (seqw f (bw_write delims))) (enc_line c s)"
  using emits_seqw [OF emits_write_byte emits_seqw [OF assms emits_write]]
  by (simp add: enc_line_def delims_def)

lemma emits_write_len [emit_intros]: "emits (write_len c n) (enc_line c (append_int n))"
  unfolding write_len_def by (intro emits_line emit_intros)

lemma emits_client_string [emit_intros]: "emits (write_string s) (enc_line CHR ''+'' s)"
  unfolding write_string_def by (intro emits_line emit_intros)

lemma emits_client_byte [emit_intros]: "emits (write_byte b) (enc_line CHR ''&'' [b])"
  unfolding write_byte_def by (intro emits_line emit_intros)

lemma emits_client_int64 [emit_intros]: "emits (write_int64 n) (enc_line CHR '':'' (append_int n))"
  unfolding write_int64_def by (intro emits_line emit_intros)

lemma emits_client_float64 [emit_intros]: "emits (write_float64 L x) (enc_line CHR ''.'' (gl_ffmt L x))"
  unfolding write_float64_def by (intro emits_line emit_intros)

lemma emits_client_bool [emit_intros]:
  "emits (write_bool b) (enc_line CHR ''?'' (if b then ''1'' else ''0''))"
  unfolding write_bool_def by (rule emits_line) (simp add: emits_write_byte)

lemma emits_client_null [emit_intros]: "emits write_null (enc_line CHR ''$'' ''-1'')"
  unfolding write_null_def null_bulk_def by (intro emits_line emit_intros)

lemma emits_client_error [emit_intros]: "emits (write_error L (Some e)) (enc_error L e)"
  unfolding write_error_def enc_error_def option.case by (intro emits_line emit_intros)

lemma emits_client_bytes [emit_intros]: "emits (write_bytes b) (enc_blob b)"
  using emits_seqw [OF emits_write_len emits_seqw [OF emits_write emits_write]]
  by (simp add: write_bytes_def enc_blob_def delims_def)

lemma emits_client_interface [emit_intros]: "emits (write_interface L v) (enc_value L v)"
  by (cases v; simp only: write_interface.simps enc_value.simps; rule emit_intros)

lemma emits_client_bulk [emit_intros]: "emits (write_bulk ds) (enc_bulk ds)"
  unfolding write_bulk_def enc_bulk_def by (intro emits_seqw emit_intros)

lemma write_array_loop_ok:
  "bw_ok w \<Longrightarrow>
   fst (write_array_loop L vs (None, w)) = None \<and> bw_ok (snd (write_array_loop L vs (None, w))) \<and>
   bw_stream (snd (write_array_loop L vs (None, w))) = bw_stream w @ concat (map (enc_value L) vs)"
proof (induction vs arbitrary: w)
  case (Cons v vs)
  obtain e w' where w': "write_interface L v w = (e, w')" by fastforce
  with emitsD [OF emits_client_interface Cons.prems, of L v]
  have "e = None" "bw_ok w'" "bw_stream w' = bw_stream w @ enc_value L v" by simp_all
  with w' Cons.IH [of w'] show ?case by simp
qed simp

lemma emits_client_array [emit_intros]: "emits (write_array L vs) (enc_array L vs)"
proof -
  have "fst (write_array L vs w) = None \<and> bw_ok (snd (write_array L vs w)) \<and>
      bw_stream (snd (write_array L vs w)) = bw_stream w @ enc_array L vs" if ok: "bw_ok w" for w
  proof -
    obtain e w' where w': "write_len CHR ''*'' (go_len vs) w = (e, w')" by fastforce
    with emitsD [OF emits_write_len ok, of "CHR ''*''" "go_len vs"]
    have "e = None" "bw_ok w'" "bw_stream w' = bw_stream w @ enc_line CHR ''*'' (append_int (go_len vs))"
      by simp_all
    with w' write_array_loop_ok [of w' L vs] show ?thesis
      by (simp add: write_array_def enc_array_def)
  qed
  then show ?thesis by (simp add: emits_def)
qed

lemma emits_client_command [emit_intros]:
  "emits (write_command L cmd vs) (enc_array L (VBytes (to_upper L cmd) # vs))"
  unfolding write_command_def by (rule emits_client_array)

text \<open>\<open>WriteJson\<close> announces the text and writes it as a blob; a value that cannot be marshalled
  writes nothing.\<close>

definition enc_json :: "bytes \<Rightarrow> bytes" where
  "enc_json b = enc_line CHR ''~'' ''json'' @ enc_blob b"

lemma emits_client_json: "gl_json L v = Inr b \<Longrightarrow> emits (write_json L v) (enc_json b)"
  using emits_seqw [OF emits_write_byte emits_seqw [OF emits_write_string
      emits_seqw [OF emits_write emits_client_bytes]], of "CHR ''~''" "''json''" delims b]
  by (simp add: write_json_def emits_def enc_json_def enc_line_def delims_def)


section \<open>What the read methods make of it\<close>

text \<open>
  \<open>decodes sz m b v\<close>: with a buffer of \<open>sz\<close> bytes, \<open>m\<close> reads exactly the bytes \<open>b\<close> off any
  input that starts with them and returns \<open>v\<close>.
\<close>

definition decodes :: "nat \<Rightarrow> 'a rd \<Rightarrow> bytes \<Rightarrow> 'a \<Rightarrow> bool" where
  "decodes sz m b v \<longleftrightarrow>
     (\<forall>r rest. br_size r = sz \<longrightarrow> br_in r = b @ rest \<longrightarrow> m r = (Ok v, r\<lparr>br_in := rest\<rparr>))"

lemma decodesI:
  "(\<And>r :: bufreader. \<And>rest. br_size r = sz \<Longrightarrow> br_in r = b @ rest \<Longrightarrow> m r = (Ok v, r\<lparr>br_in := rest\<rparr>)) \<Longrightarrow>
   decodes sz m b v"
  by (simp add: decodes_def)

lemma decodesD:
  "decodes sz m b v \<Longrightarrow> br_size r = sz \<Longrightarrow> br_in r = b @ rest \<Longrightarrow> m r = (Ok v, r\<lparr>br_in := rest\<rparr>)"
  by (simp add: decodes_def)

lemma decodes_rbind:
  assumes "decodes sz m a x" and "decodes sz (f x) b y"
  shows "decodes sz (rbind m f) (a @ b) y"
proof (rule decodesI)
  fix r :: bufreader and rest
  assume "br_size r = sz" and "br_in r = (a @ b) @ rest"
  with assms show "rbind m f r = (Ok y, r\<lparr>br_in := rest\<rparr>)"
    by (simp add: rbind_def decodes_def)
qed

lemma decodes_pure:
  "decodes sz (rret v) [] v" "decodes sz (rlift (Ok v)) [] v"
  by (simp_all add: decodes_def rret_def rlift_def)

lemma decodes_rbind_pure: "decodes sz (f x) b y \<Longrightarrow> decodes sz (rbind (rlift (Ok x)) f) b y"
  using decodes_rbind [OF decodes_pure(2), of sz f x b y] by simp

lemma decodes_rbind_last: "decodes sz m a x \<Longrightarrow> f x = rret y \<Longrightarrow> decodes sz (rbind m f) a y"
  by (simp add: decodes_def rbind_def rret_def)

lemma decodes_read_n:
  assumes "\<And>x. x \<in> set xs \<Longrightarrow> decodes sz f (enc x) (nm x)"
  shows "decodes sz (read_n f (length xs)) (concat (map enc xs)) (map nm xs)"
  using assms
proof (induction xs)
  case (Cons x xs)
  have "decodes sz (rbind (read_n f (length xs)) (\<lambda>vs. rret (nm x # vs)))
      (concat (map enc xs)) (map nm (x # xs))"
    using Cons by (auto intro: decodes_rbind_last)
  with Cons.prems show ?case by (auto intro!: decodes_rbind)
qed (simp add: decodes_pure)

lemma decodes_read_full: "length b = k \<Longrightarrow> decodes sz (read_full k) b b"
  by (simp add: decodes_def read_full_def)

lemma read_slice_crlf:
  assumes "LF \<notin> set l" and "length l + 2 \<le> br_size r" and "br_in r = l @ CR # LF # rest"
  shows "read_slice r = (Ok (l @ [CR, LF]), r\<lparr>br_in := rest\<rparr>)"
proof -
  have "r\<lparr>br_in := l @ CR # LF # rest\<rparr> = r" by (simp add: assms(3) [symmetric])
  with assms read_slice_line [of "l @ [CR]" r rest] show ?thesis by simp
qed

lemma decodes_read_line:
  "LF \<notin> set l \<Longrightarrow> length l + 2 \<le> sz \<Longrightarrow> decodes sz read_line (l @ [CR, LF]) l"
  by (auto simp: decodes_def read_line_def rbind_def rret_def read_slice_crlf)

lemma decodes_line:
  assumes "LF \<notin> set s" and "c \<noteq> LF" and "length s + 3 \<le> sz"
  shows "decodes sz read_line (enc_line c s) (c # s)"
  using decodes_read_line [of "c # s" sz] assms by (simp add: enc_line_def)

subsection \<open>Lengths\<close>

lemma sint_go_len: "length xs < 2 ^ 63 \<Longrightarrow> sint (go_len xs) = int (length xs)"
  unfolding go_len_def by (simp only: sint_sbintrunc', rule signed_take_bit_int_eq_self) simp_all

lemma go_len_not_minus_one: "length xs < 2 ^ 63 \<Longrightarrow> go_len xs \<noteq> - 1"
proof
  assume "length xs < 2 ^ 63" and "go_len xs = - 1"
  then have "int (length xs) = - 1" by (metis sint_go_len sint_n1)
  then show False by simp
qed

lemma make_slice_go_len:
  assumes "length xs * sz \<le> 2 ^ 48" and "0 < sz"
  shows "make_slice sz (go_len xs) = Ok (length xs)"
proof -
  have "length xs \<le> length xs * sz" using assms(2) by simp
  also note assms(1)
  also have "(2 :: nat) ^ 48 < 2 ^ 63" by simp
  finally have "length xs < 2 ^ 63" .
  with assms show ?thesis by (simp add: make_slice_def sint_go_len)
qed

lemma parse_int64_append_int [simp]: "parse_int64 (append_int n) = Ok n"
  by (simp add: parse_int64_def)

text \<open>The header line of a blob or of an array.\<close>

lemma decodes_header:
  assumes "32 \<le> sz" and "c \<noteq> LF"
  shows "decodes sz read_line (enc_line c (append_int n)) (c # append_int n)"
  using assms length_append_int [of n] by (intro decodes_line) auto

lemma append_int_two: "2 \<le> length (c # append_int n)"
  using append_int_not_Nil [of n] by (cases "append_int n") auto

section \<open>Round trips\<close>

lemma decodes_blob_body:
  assumes "length b \<le> 2 ^ 48" and "32 \<le> sz"
  shows "decodes sz (read_blob (go_len b)) (b @ [CR, LF]) b"
proof -
  have "decodes sz read_line ([] @ [CR, LF]) []"
    using assms(2) by (intro decodes_read_line) auto
  then have "decodes sz (rbind read_line (\<lambda>line. if line \<noteq> [] then rerr ErrBadBulkFormat else rret b))
      [CR, LF] b"
    by (auto intro: decodes_rbind_last)
  with assms show ?thesis
    unfolding read_blob_def
    by (auto simp: make_slice_go_len intro!: decodes_rbind_pure decodes_rbind decodes_read_full)
qed

lemma decodes_payload:
  assumes "length b \<le> 2 ^ 48" and "32 \<le> sz"
  shows "decodes sz read_payload (enc_blob b) (Some b)"
proof -
  have ne: "go_len b \<noteq> - 1" using assms by (intro go_len_not_minus_one) simp
  have "decodes sz (rbind (read_blob (go_len b)) (\<lambda>buffer. rret (Some buffer))) (b @ [CR, LF]) (Some b)"
    using decodes_blob_body [OF assms] by (auto intro: decodes_rbind_last)
  then show ?thesis
    unfolding read_payload_def enc_blob_def
    using assms ne append_int_two [of "CHR ''$''" "go_len b"]
    by (intro decodes_rbind [OF decodes_header]) (auto intro!: decodes_rbind_pure)
qed

text \<open>A list of byte strings survives \<open>WriteBulk\<close> and \<open>ReadBulkPayload\<close>.\<close>

definition blob_ok :: "bytes \<Rightarrow> bool" where
  "blob_ok b \<longleftrightarrow> length b \<le> 2 ^ 48"

lemma decodes_bulk:
  assumes "\<forall>d \<in> set ds. blob_ok d" and "length ds * 24 \<le> 2 ^ 48" and "32 \<le> sz"
  shows "decodes sz read_bulk_payload (enc_bulk ds) ds"
proof -
  have "decodes sz (read_n read_payload (length ds)) (concat (map enc_blob ds)) (map Some ds)"
    using assms by (intro decodes_read_n decodes_payload) (auto simp: blob_ok_def)
  then have "decodes sz (rbind (read_n read_payload (length ds)) (\<lambda>r. rret (map go_bytes r)))
      (concat (map enc_blob ds)) ds"
    by (auto intro: decodes_rbind_last simp: go_bytes_def comp_def)
  with assms show ?thesis
    unfolding read_bulk_payload_def enc_bulk_def
    using append_int_two [of "CHR ''*''" "go_len ds"]
    by (intro decodes_rbind [OF decodes_header])
       (auto intro!: decodes_rbind_pure simp: make_slice_go_len)
qed


text \<open>What a value is read back as, and which values the format carries.\<close>

fun readback :: "'f golib \<Rightarrow> 'f gval \<Rightarrow> 'f gval" where
  "readback L (VInt n) = VInt64 n"
| "readback L (VError e) = VBytes e"
| "readback L (VArray vs) = VBytes (fprint L (VArray vs))"
| "readback L (VMap kvs) = VBytes (fprint L (VMap kvs))"
| "readback L v = v"

fun wire_ok :: "'f golib \<Rightarrow> nat \<Rightarrow> 'f gval \<Rightarrow> bool" where
  "wire_ok L sz (VString s) \<longleftrightarrow> s \<noteq> [] \<and> LF \<notin> set s \<and> length s + 3 \<le> sz"
| "wire_ok L sz (VByte b) \<longleftrightarrow> b \<noteq> LF"
| "wire_ok L sz (VBytes b) \<longleftrightarrow> blob_ok b"
| "wire_ok L sz (VError e) \<longleftrightarrow> blob_ok e"
| "wire_ok L sz (VArray vs) \<longleftrightarrow> blob_ok (fprint L (VArray vs))"
| "wire_ok L sz (VMap kvs) \<longleftrightarrow> blob_ok (fprint L (VMap kvs))"
| "wire_ok L sz v \<longleftrightarrow> True"

lemma decodes_unfold:
  "decodes sz (read_interface_body L (read_interface L)) b v \<Longrightarrow> decodes sz (read_interface L) b v"
  by (subst read_interface_unfold)

lemma decodes_interface_blob:
  assumes "blob_ok b" and "32 \<le> sz"
  shows "decodes sz (read_interface L) (enc_blob b) (VBytes b)"
proof -
  have len: "length b \<le> 2 ^ 48" using assms(1) by (simp add: blob_ok_def)
  then have ne: "go_len b \<noteq> - 1" by (intro go_len_not_minus_one) simp
  have "decodes sz (rbind (read_blob (go_len b)) (\<lambda>buffer. rret (VBytes buffer :: 'a gval)))
      (b @ [CR, LF]) (VBytes b)"
    using decodes_blob_body [OF len assms(2)] by (auto intro: decodes_rbind_last)
  then show ?thesis
    unfolding enc_blob_def
    using assms ne append_int_two [of "CHR ''$''" "go_len b"]
    by (intro decodes_unfold, unfold read_interface_body_def, intro decodes_rbind [OF decodes_header])
       (auto intro!: decodes_rbind_pure)
qed

text \<open>The one-line values: a prefix, a text that parses, a line end.\<close>

lemma decodes_interface_line:
  assumes "LF \<notin> set s" and "s \<noteq> []" and "length s + 3 \<le> sz"
    and "read_interface_line L c s = Ok v" and "c \<notin> {CHR ''$'', CHR ''*'', CHR ''~'', LF}"
  shows "decodes sz (read_interface L) (enc_line c s) v"
proof -
  have "2 \<le> length (c # s)" using assms(2) by (cases s) auto
  moreover have "decodes sz read_line (enc_line c s) (c # s)"
    using assms(1,3,5) by (intro decodes_line) auto
  ultimately show ?thesis
    using assms(4,5)
    by (intro decodes_unfold, unfold read_interface_body_def, elim decodes_rbind_last)
       (auto simp: rlift_def rret_def fun_eq_iff)
qed

lemma value_decodes:
  assumes "float_ok L" and "32 \<le> sz" and "wire_ok L sz v"
  shows "decodes sz (read_interface L) (enc_value L v) (readback L v)"
proof -
  have int: "length (append_int n) + 3 \<le> sz" for n using length_append_int [of n] assms(2) by simp
  have fl: "gl_fparse L (gl_ffmt L x) = Inr x" "gl_ffmt L x \<noteq> []" "LF \<notin> set (gl_ffmt L x)"
    "length (gl_ffmt L x) + 3 \<le> sz" for x
    using assms(1,2) by (auto simp: float_ok_def intro: le_trans [of _ "24 + 3"])
  have "length ''-1'' + 3 \<le> sz" using assms(2) by simp
  then have "decodes sz read_line (enc_line CHR ''$'' ''-1'') (CHR ''$'' # ''-1'')"
    by (intro decodes_line) auto
  moreover have "parse_int64 ''-1'' = Ok (- 1)"
    by (simp only: append_int_minus_one [symmetric] parse_int64_append_int)
  ultimately have nil: "decodes sz (read_interface L) (enc_line CHR ''$'' ''-1'') VNil"
    by (intro decodes_unfold, unfold read_interface_body_def, elim decodes_rbind_last) simp
  show ?thesis
  proof (cases v)
    case VNil
    with nil show ?thesis by simp
  qed (use assms int fl in \<open>auto intro!: decodes_interface_blob decodes_interface_line
        simp: read_interface_line_def parse_float64_def parse_bool_def parse_byte_def parse_string_def\<close>)
qed


lemma array_decodes:
  assumes "float_ok L" and "32 \<le> sz" and "\<forall>v \<in> set vs. wire_ok L sz v" and "length vs * 16 \<le> 2 ^ 48"
  shows "decodes sz (read_interface L) (enc_array L vs) (VArray (map (readback L) vs))"
proof -
  have "decodes sz (read_n (read_interface L) (length vs)) (concat (map (enc_value L) vs))
      (map (readback L) vs)"
    using assms by (intro decodes_read_n value_decodes) auto
  then have "decodes sz (rbind (read_n (read_interface L) (length vs)) (\<lambda>r. rret (VArray r)))
      (concat (map (enc_value L) vs)) (VArray (map (readback L) vs))"
    by (rule decodes_rbind_last) simp
  with assms show ?thesis
    unfolding enc_array_def
    using append_int_two [of "CHR ''*''" "go_len vs"]
    by (intro decodes_unfold, unfold read_interface_body_def, intro decodes_rbind [OF decodes_header])
       (auto simp: make_slice_go_len)
qed

text \<open>A bulk message read by \<open>ReadInterface\<close> is an array of byte strings.\<close>

lemma bulk_interface_decodes:
  assumes "\<forall>d \<in> set ds. blob_ok d" and "length ds * 16 \<le> 2 ^ 48"
  shows "decodes 128 (read_interface L) (enc_bulk ds) (VArray (map VBytes ds))"
proof -
  have "decodes 128 (read_n (read_interface L) (length ds)) (concat (map enc_blob ds)) (map VBytes ds)"
    using assms(1) by (intro decodes_read_n decodes_interface_blob) auto
  then have "decodes 128 (rbind (read_n (read_interface L) (length ds)) (\<lambda>r. rret (VArray r)))
      (concat (map enc_blob ds)) (VArray (map VBytes ds))"
    by (rule decodes_rbind_last) simp
  with assms(2) show ?thesis
    unfolding enc_bulk_def
    using append_int_two [of "CHR ''*''" "go_len ds"]
    by (intro decodes_unfold, unfold read_interface_body_def, intro decodes_rbind [OF decodes_header])
       (auto simp: make_slice_go_len)
qed

lemma error_decodes:
  assumes "LF \<notin> set (err_text L e)" and "length (err_text L e) + 7 \<le> sz"
  shows "decodes sz (read_interface L) (enc_error L e) (VError (''ERR '' @ err_text L e))"
  unfolding enc_error_def using assms
  by (intro decodes_interface_line) (auto simp: read_interface_line_def parse_error_def)

lemma json_decodes:
  assumes "blob_ok b" and "32 \<le> sz" and "gl_unjson L b = Inr m"
  shows "decodes sz (read_interface L) (enc_json b) (VMap m)"
proof -
  have "decodes sz read_line (enc_line CHR ''~'' ''json'') (CHR ''~'' # ''json'')"
    using assms(2) by (intro decodes_line) auto
  moreover have "decodes sz (rbind (read_interface L) (\<lambda>r. case r of
      VBytes j \<Rightarrow> (case gl_unjson L j of Inl e \<Rightarrow> rerr e | Inr m \<Rightarrow> rret (VMap m))
    | _ \<Rightarrow> rlift (Panic assert_bytes_panic))) (enc_blob b) (VMap m)"
    using assms(3) by (intro decodes_rbind_last [OF decodes_interface_blob [OF assms(1,2)]]) simp
  ultimately show ?thesis
    unfolding enc_json_def
    by (intro decodes_unfold, unfold read_interface_body_def, elim decodes_rbind)
       (simp add: parse_string_def)
qed

section \<open>The types of replies\<close>

text \<open>
  The dynamic types that \<open>json.Unmarshal\<close> gives the values of a map, as package \<open>encoding/json\<close>
  documents them (a named hypothesis on the parameter), and those that \<open>ReadInterface\<close> can return: never a
  Go \<open>int\<close>, and maps only from JSON.
\<close>

fun json_type :: "'f gval \<Rightarrow> bool" where
  "json_type VNil = True"
| "json_type (VString _) = True"
| "json_type (VFloat _) = True"
| "json_type (VBool _) = True"
| "json_type (VArray vs) = list_all json_type vs"
| "json_type (VMap kvs) = list_all (\<lambda>kv. json_type (snd kv)) kvs"
| "json_type _ = False"

fun wire_type :: "'f gval \<Rightarrow> bool" where
  "wire_type (VInt _) = False"
| "wire_type (VArray vs) = list_all wire_type vs"
| "wire_type (VMap kvs) = list_all (\<lambda>kv. json_type (snd kv)) kvs"
| "wire_type _ = True"

definition unjson_typed :: "'f golib \<Rightarrow> bool" where
  "unjson_typed L \<longleftrightarrow> (\<forall>b m. gl_unjson L b = Inr m \<longrightarrow> json_type (VMap m))"

definition yields :: "('a \<Rightarrow> bool) \<Rightarrow> 'a rd \<Rightarrow> bool" where
  "yields P m \<longleftrightarrow> (\<forall>r v r'. m r = (Ok v, r') \<longrightarrow> P v)"

lemma yields_basic: "P v \<Longrightarrow> yields P (rret v)" "yields P (rerr e)" "yields P (rlift (Panic q))"
  "(\<And>v. x = Ok v \<Longrightarrow> P v) \<Longrightarrow> yields P (rlift x)"
  by (simp_all add: yields_def rret_def rerr_def rlift_def)

lemma yields_rbind: "yields Q m \<Longrightarrow> (\<And>v. Q v \<Longrightarrow> yields P (f v)) \<Longrightarrow> yields P (rbind m f)"
  by (fastforce simp: yields_def rbind_def split: prod.splits res.splits)

lemma yields_any: "yields (\<lambda>_. True) m"
  by (simp add: yields_def)

lemma yields_read_n: "yields P f \<Longrightarrow> yields (list_all P) (read_n f n)"
proof (induction n)
  case (Suc n)
  show ?case
    by simp (rule yields_rbind [OF Suc.prems], rule yields_rbind [OF Suc.IH [OF Suc.prems]], simp add: yields_basic)
qed (simp add: yields_basic)

lemma yields_body:
  assumes "unjson_typed L" and "yields wire_type rec"
  shows "yields wire_type (read_interface_body L rec)"
proof -
  have line: "yields wire_type (rlift (read_interface_line L t b))" for t b
    by (rule yields_basic(4)) (auto simp: read_interface_line_def elim!: map_res_OkE split: if_splits)
  have blob: "yields wire_type (rbind (read_blob n) (\<lambda>buffer. rret (VBytes buffer)))" for n
    by (rule yields_rbind [OF yields_any]) (simp add: yields_basic)
  have array: "yields wire_type (rbind (rlift (make_slice 16 n)) (\<lambda>k. rbind (read_n rec k) (\<lambda>r. rret (VArray r))))" for n
    by (rule yields_rbind [OF yields_any], rule yields_rbind [OF yields_read_n [OF assms(2)]]) (simp add: yields_basic)
  have map: "yields wire_type (case r of VBytes j \<Rightarrow> (case gl_unjson L j of Inl e \<Rightarrow> rerr e | Inr m \<Rightarrow> rret (VMap m))
      | _ \<Rightarrow> rlift (Panic assert_bytes_panic))" for r
    using assms(1) by (auto simp: unjson_typed_def intro!: yields_basic split: gval.split sum.split)
  show ?thesis
    unfolding read_interface_body_def Let_def
    by (rule yields_rbind [OF yields_any])
       (auto intro!: yields_basic(1-3) line blob array map yields_rbind [OF yields_any])
qed

lemma yields_interface: "unjson_typed L \<Longrightarrow> yields wire_type (read_interface L)"
proof -
  assume L: "unjson_typed L"
  have "yields wire_type (read_interface_fuel L k)" for k
    by (induction k) (simp_all add: yields_basic yields_body [OF L])
  then show ?thesis by (auto simp: yields_def read_interface_def simp del: read_interface_fuel.simps)
qed

text \<open>The type that the first byte of a reply announces.\<close>

fun announces :: "char \<Rightarrow> 'f gval \<Rightarrow> bool" where
  "announces t (VByte _) \<longleftrightarrow> t = CHR ''&''"
| "announces t (VString _) \<longleftrightarrow> t = CHR ''+''"
| "announces t (VInt64 _) \<longleftrightarrow> t = CHR '':''"
| "announces t (VFloat _) \<longleftrightarrow> t = CHR ''.''"
| "announces t (VBool _) \<longleftrightarrow> t = CHR ''?''"
| "announces t (VError _) \<longleftrightarrow> t = CHR ''-''"
| "announces t (VBytes _) \<longleftrightarrow> t = CHR ''$''"
| "announces t VNil \<longleftrightarrow> t = CHR ''$''"
| "announces t (VArray _) \<longleftrightarrow> t = CHR ''*''"
| "announces t (VMap _) \<longleftrightarrow> t = CHR ''~''"
| "announces t (VInt _) \<longleftrightarrow> False"

lemma read_line_first:
  assumes "read_line r = (Ok line, r')" and "line \<noteq> []"
  shows "br_in r \<noteq> []" "hd (br_in r) = hd line"
proof -
  obtain packet where p: "read_slice r = (Ok packet, r')" and l: "line = take (length packet - 2) packet"
    using assms(1) by (auto simp: read_line_def rbind_def rerr_def rret_def split: prod.splits res.splits if_splits)
  have "packet \<noteq> []" "br_in r = packet @ br_in r'" using read_slice_Ok [OF p] by simp_all
  moreover have "hd line = hd packet" using l assms(2) by (cases packet) (auto simp: take_Cons')
  ultimately show "br_in r \<noteq> []" "hd (br_in r) = hd line" by simp_all
qed

lemma body_announces:
  assumes "read_interface_body L rec r = (Ok v, r')"
  shows "br_in r \<noteq> [] \<and> announces (hd (br_in r)) v"
proof -
  from assms obtain line r1 where line: "read_line r = (Ok line, r1)" "\<not> length line < 2"
    by (auto simp: read_interface_body_def rbind_def rerr_def split: prod.splits res.splits if_splits)
  then have ne: "line \<noteq> []" by auto
  let ?t = "hd line"
  have one: "yields (announces t) (rlift (read_interface_line L t b))" for t b
    by (rule yields_basic(4)) (auto simp: read_interface_line_def elim!: map_res_OkE split: if_splits)
  have blob: "yields (announces CHR ''$'') (rbind (rlift (parse_int64 b)) (\<lambda>n.
      if n = - 1 then rret VNil else rbind (read_blob n) (\<lambda>buffer. rret (VBytes buffer))))" for b
    by (rule yields_rbind [OF yields_any]) (auto intro!: yields_basic yields_rbind [OF yields_any])
  have array: "yields (announces CHR ''*'') (rbind (rlift (parse_int64 b)) (\<lambda>n.
      rbind (rlift (make_slice 16 n)) (\<lambda>k. rbind (read_n rec k) (\<lambda>r. rret (VArray r)))))" for b
    by (intro yields_rbind [OF yields_any] yields_basic) simp
  have "yields (announces CHR ''~'') (case r of
      VBytes j \<Rightarrow> (case gl_unjson L j of Inl e \<Rightarrow> rerr e | Inr m \<Rightarrow> rret (VMap m))
    | _ \<Rightarrow> rlift (Panic assert_bytes_panic))" for r
    by (auto intro!: yields_basic split: gval.split sum.split)
  then have map: "yields (announces CHR ''~'') (rbind (rlift (parse_string b)) (\<lambda>structure. rbind rec (\<lambda>r.
      if structure = ''json'' then
        (case r of VBytes j \<Rightarrow> (case gl_unjson L j of Inl e \<Rightarrow> rerr e | Inr m \<Rightarrow> rret (VMap m))
         | _ \<Rightarrow> rlift (Panic assert_bytes_panic))
      else rerr ErrReadRequest)))" for b
    by (intro yields_rbind [OF yields_any]) (auto intro!: yields_basic)
  have at: "yields P m \<Longrightarrow> m r1 = (Ok v, r') \<Longrightarrow> P v" for P and m :: "'a gval rd"
    unfolding yields_def by blast
  have body: "read_interface_body L rec r = (if ?t = CHR ''$'' then
         rbind (rlift (parse_int64 (tl line))) (\<lambda>n. if n = - 1 then rret VNil else rbind (read_blob n) (\<lambda>buffer. rret (VBytes buffer)))
       else if ?t = CHR ''*'' then
         rbind (rlift (parse_int64 (tl line))) (\<lambda>n. rbind (rlift (make_slice 16 n)) (\<lambda>k. rbind (read_n rec k) (\<lambda>r. rret (VArray r))))
       else if ?t = CHR ''~'' then
         rbind (rlift (parse_string (tl line))) (\<lambda>structure. rbind rec (\<lambda>r.
             if structure = ''json'' then
               (case r of
                  VBytes j \<Rightarrow> (case gl_unjson L j of Inl e \<Rightarrow> rerr e | Inr m \<Rightarrow> rret (VMap m))
                | _ \<Rightarrow> rlift (Panic assert_bytes_panic))
             else rerr ErrReadRequest))
       else rlift (read_interface_line L ?t (tl line))) r1"
    using line by (simp add: read_interface_body_def rbind_def [of read_line] Let_def)
  consider "?t = CHR ''$''" | "?t = CHR ''*''" | "?t = CHR ''~''" | "?t \<notin> {CHR ''$'', CHR ''*'', CHR ''~''}" by blast
  then have "announces ?t v"
  proof cases
    case 1
    show ?thesis unfolding 1 by (rule at [OF blob]) (use assms body 1 in simp)
  next
    case 2
    show ?thesis unfolding 2 by (rule at [OF array]) (use assms body 2 in simp)
  next
    case 3
    show ?thesis unfolding 3 by (rule at [OF map]) (use assms body 3 in simp)
  next
    case 4
    show ?thesis by (rule at [OF one]) (use assms body 4 in simp)
  qed
  with read_line_first [OF line(1) ne] show ?thesis by simp
qed

section \<open>Over the wire\<close>

text \<open>
  The bytes that reach the connection when a fresh client (buffer of 128 bytes, as
  \<open>NewNetworkClient\<close> makes it) calls a write method and flushes, and a fresh client that reads them.
\<close>

definition over_wire :: "(bufwriter \<Rightarrow> gerr option \<times> bufwriter) \<Rightarrow> bytes" where
  "over_wire f = bw_sent (snd (bw_flush (snd (f (new_writer 128)))))"

lemma over_wire_emits: "emits f b \<Longrightarrow> over_wire f = b"
  using emitsD [of f b "new_writer 128"] bw_flush_ok(5) by (simp add: over_wire_def)

lemma decodes_new_reader:
  "decodes 128 m b v \<Longrightarrow> m (new_reader 128 (b @ rest)) = (Ok v, new_reader 128 rest)"
  using decodesD [of 128 m b v "new_reader 128 (b @ rest)" rest] by (simp add: new_reader_def)

lemma reads_over_wire:
  "emits f b \<Longrightarrow> decodes 128 m b v \<Longrightarrow>
   m (new_reader 128 (over_wire f @ rest)) = (Ok v, new_reader 128 rest)"
  by (simp add: over_wire_emits decodes_new_reader)

text \<open>The line of an empty string is shorter than the two bytes \<open>ReadInterface\<close> asks for.\<close>

lemma read_empty_string:
  "read_interface L (new_reader 128 (enc_line CHR ''+'' [] @ rest)) =
    (Err ErrReadRequest, new_reader 128 rest)"
proof -
  have "decodes 128 read_line (enc_line CHR ''+'' []) ''+''"
    using decodes_line [of "[]" "CHR ''+''" 128] by simp
  from decodes_new_reader [OF this, of rest] show ?thesis
    by (subst read_interface_unfold) (simp add: read_interface_body_def rbind_def rerr_def)
qed

text \<open>An array whose second element cannot be read cannot be read.\<close>

lemma read_array_fails:
  assumes "decodes 128 (read_interface L) a v" and "read_interface L (new_reader 128 rest) = (Err e, r')"
    and "n = Suc (Suc j)" and "n * 16 \<le> 2 ^ 48" and "length xs = n"
  shows "read_interface L (new_reader 128 (enc_line CHR ''*'' (append_int (go_len xs)) @ a @ rest)) = (Err e, r')"
proof -
  have "read_n (read_interface L) (length xs) (new_reader 128 (a @ rest)) = (Err e, r')"
    using assms(2,3,5) decodes_new_reader [OF assms(1), of rest] by (simp add: rbind_def)
  moreover have "make_slice 16 (go_len xs) = Ok (length xs)"
    using assms(4,5) by (intro make_slice_go_len) auto
  moreover have "read_line (new_reader 128 (enc_line CHR ''*'' (append_int (go_len xs)) @ a @ rest)) =
      (Ok (CHR ''*'' # append_int (go_len xs)), new_reader 128 (a @ rest))"
    by (intro decodes_new_reader decodes_header) simp_all
  ultimately show ?thesis
    using append_int_two [of "CHR ''*''" "go_len xs"]
    by (subst read_interface_unfold) (simp add: read_interface_body_def rbind_def rlift_def)
qed

text \<open>
C19. The types of replies: a value that \<open>ReadInterface\<close> returns has the type that the first byte of the input
announces, and all of it is of the dynamic types of the wire format (never a Go \<open>int\<close>; a map holds JSON
values only), given that \<open>encoding/json\<close> returns its documented types.
\<close>

theorem replies_are_typed:
  assumes "unjson_typed L" and "read_interface L r = (Ok v, r')"
  shows "wire_type v \<and> br_in r \<noteq> [] \<and> announces (hd (br_in r)) v"
proof -
  have "wire_type v" using yields_interface [OF assms(1)] assms(2) by (auto simp: yields_def)
  with body_announces [of L _ r v r'] assms(2) show ?thesis by (simp add: read_interface_def)
qed

lemma plain_lib_unjson_typed: "unjson_typed plain_lib"
  by (simp add: unjson_typed_def plain_lib_def)

theorem replies_are_typed_witness:
  "\<exists>r'. read_interface plain_lib (new_reader 128 (enc_line CHR ''+'' ''OK'')) = (Ok (VString ''OK''), r') \<and>
    announces CHR ''+'' (VString ''OK'' :: int64 gval)"
proof -
  have "decodes 128 (read_interface plain_lib) (enc_line CHR ''+'' ''OK'') (VString ''OK'')"
    by (intro decodes_interface_line) (simp_all add: read_interface_line_def parse_string_def)
  from decodes_new_reader [OF this, of "[]"]
  have r: "read_interface plain_lib (new_reader 128 (enc_line CHR ''+'' ''OK'')) = (Ok (VString ''OK''), new_reader 128 [])" by simp
  from replies_are_typed [OF plain_lib_unjson_typed r] r show ?thesis by (auto simp: new_reader_def enc_line_def)
qed

text \<open>
C10. A value within the limits below survives \<open>WriteInterface\<close>, \<open>Flush\<close> and
\<open>ReadInterface\<close>: an \<open>int\<close> comes back as \<open>int64\<close>, composite values as the bytes of their default
format, everything else as itself, and the reader stops exactly behind the value.  The limits: a string has 1 to 125 bytes, so that it fits the
reader's buffer of 128 bytes with its prefix and line end, and no line feed; a byte is not a line feed; byte strings,
errors and composite values have a length that can be announced.  (Strings beyond them are not read back.)
\<close>

theorem value_roundtrip:
  assumes "float_ok L" and "wire_ok L 128 v"
  shows "read_interface L (new_reader 128 (over_wire (write_interface L v) @ rest)) =
    (Ok (readback L v), new_reader 128 rest)"
  using assms by (intro reads_over_wire [OF emits_client_interface] value_decodes) auto

theorem value_roundtrip_witness:
  "read_interface plain_lib (new_reader 128 (over_wire (write_interface plain_lib (VString ''a b'')) @ ''xyz'')) =
    (Ok (VString ''a b''), new_reader 128 ''xyz'')"
  using value_roundtrip [of plain_lib "VString ''a b''" "''xyz''"] by simp

text \<open>
C26. A command sent with \<open>WriteCommand\<close> of the default client is read by the server's
\<open>ReadInterface\<close> as one array: the upper-cased command name as bytes, then the arguments as they
read back, provided that every argument is within the limits of the round trip of values: a string argument
has 1 to 125 bytes and no line feed, a byte is not a line feed.
\<close>

theorem command_roundtrip:
  assumes "float_ok L" and "\<forall>v \<in> set args. wire_ok L 128 v" and "blob_ok (to_upper L cmd)"
    and "Suc (length args) * 16 \<le> 2 ^ 48"
  shows "read_interface L (new_reader 128 (over_wire (write_command L cmd args) @ rest)) =
    (Ok (VArray (VBytes (to_upper L cmd) # map (readback L) args)), new_reader 128 rest)"
  using assms array_decodes [of L 128 "VBytes (to_upper L cmd) # args"]
  by (intro reads_over_wire [OF emits_client_command]) auto

theorem command_roundtrip_witness:
  "read_interface plain_lib
      (new_reader 128 (over_wire (write_command plain_lib ''set'' [VString ''k'', VInt 7]) @ [])) =
    (Ok (VArray [VBytes ''SET'', VString ''k'', VInt64 7]), new_reader 128 [])"
proof -
  have "to_upper plain_lib ''set'' = ''SET''" by code_simp
  then show ?thesis
    using command_roundtrip [of plain_lib "[VString ''k'', VInt 7]" "''set''" "[]"]
    by (simp add: blob_ok_def)
qed

text \<open>
An error reply written by \<open>WriteError\<close> is read back as an error value whose text has the
prefix \<open>ERR \<close>.
\<close>

lemma error_roundtrip:
  assumes "LF \<notin> set (err_text L e)" and "length (err_text L e) \<le> 121"
  shows "read_interface L (new_reader 128 (over_wire (write_error L (Some e)) @ rest)) =
    (Ok (VError (''ERR '' @ err_text L e)), new_reader 128 rest)"
  using assms by (intro reads_over_wire [OF emits_client_error] error_decodes) auto

text \<open>
The empty string is the one string that \<open>WriteString\<close> writes and \<open>ReadInterface\<close> rejects:
its line \<open>+\<close> is shorter than the two bytes the reader asks for.  This is the reply of \<open>ECHO\<close>
without arguments.
\<close>

lemma empty_string_rejected:
  "read_interface L (new_reader 128 (over_wire (write_string []) @ rest)) =
    (Err ErrReadRequest, new_reader 128 rest)"
  by (simp add: over_wire_emits [OF emits_client_string] read_empty_string)

text \<open>
A simple string of more than 125 bytes cannot be read back: its line does not fit the reader's
buffer, and \<open>ReadInterface\<close> fails with \<open>ErrBufferFull\<close> after consuming the first 128 bytes.
\<close>

lemma long_string_rejected:
  assumes "LF \<notin> set s" and "126 \<le> length s"
  shows "read_interface L (new_reader 128 (over_wire (write_string s) @ rest)) =
    (Err BufferFull, new_reader 128 (drop 127 s @ (if length s = 126 then [LF] else [CR, LF]) @ rest))"
proof -
  let ?r = "new_reader 128 (over_wire (write_string s) @ rest)"
  have inp: "br_in ?r = CHR ''+'' # s @ CR # LF # rest"
    by (simp add: new_reader_def over_wire_emits [OF emits_client_string] enc_line_def)
  have sz: "br_size ?r = 128" by (simp add: new_reader_def)
  have "take 127 (s @ CR # LF # rest) = (if length s = 126 then s @ [CR] else take 127 s)"
    using assms(2) by auto
  then have "LF \<notin> set (take 128 (br_in ?r))"
    using assms(1) by (auto simp: inp dest: in_set_takeD split: if_splits)
  moreover have "128 \<le> length (br_in ?r)" using assms(2) by (simp add: inp)
  ultimately have "read_slice ?r = (Err BufferFull, ?r\<lparr>br_in := drop 128 (br_in ?r)\<rparr>)"
    using read_slice_too_long [of ?r, unfolded sz] by blast
  moreover have "drop 128 (br_in ?r) = drop 127 s @ (if length s = 126 then [LF] else [CR, LF]) @ rest"
    using assms(2) by (auto simp: inp)
  ultimately show ?thesis
    by (subst read_interface_unfold)
       (simp add: read_interface_body_def read_line_def rbind_def new_reader_def)
qed

end
