(* ===== verification/Registry.thy ===== *)
theory Registry
  imports GoLib
begin

text \<open>
  \<open>server/context.go\<close>, \<open>server/handler.go\<close> and \<open>server/event.go\<close>: the registry of commands that
  the server, the protocols and the backends share.  The type \<open>'h\<close> of handlers is a parameter: the
  registry stores them and never calls them.
\<close>

section \<open>Commands, events and the context\<close>

record command =
  cmd_name :: bytes
  cmd_description :: bytes
  cmd_usage :: bytes
  cmd_fire_forget :: bool

definition command :: "bytes \<Rightarrow> bytes \<Rightarrow> bytes \<Rightarrow> bool \<Rightarrow> command" where
  "command name description usage fire_forget =
     \<lparr>cmd_name = name, cmd_description = description, cmd_usage = usage, cmd_fire_forget = fire_forget\<rparr>"

record event =
  ev_level :: bytes
  ev_message :: bytes
  ev_err :: "gerr option"

text \<open>
  \<open>BroadcastContext\<close>.  \<open>ctx_events\<close> is the list of events sent on the channel so far.
\<close>

record 'h bcontext =
  ctx_commands :: "bytes \<rightharpoonup> 'h"
  ctx_help :: "bytes \<rightharpoonup> command"
  ctx_events :: "event list"
  ctx_client_size :: int

definition new_broadcast_context :: "'h bcontext" where
  "new_broadcast_context =
     \<lparr>ctx_commands = Map.empty, ctx_help = Map.empty, ctx_events = [], ctx_client_size = 0\<rparr>"

definition register :: "'f golib \<Rightarrow> bytes \<Rightarrow> 'h \<Rightarrow> 'h bcontext \<Rightarrow> 'h bcontext" where
  "register L cmd handler ctx =
     ctx\<lparr>ctx_commands := (ctx_commands ctx)(to_upper L cmd \<mapsto> handler)\<rparr>"

definition register_help :: "'f golib \<Rightarrow> command \<Rightarrow> 'h bcontext \<Rightarrow> 'h bcontext" where
  "register_help L cmd ctx = ctx\<lparr>ctx_help := (ctx_help ctx)(to_upper L (cmd_name cmd) \<mapsto> cmd)\<rparr>"

definition register_command :: "'f golib \<Rightarrow> command \<Rightarrow> 'h \<Rightarrow> 'h bcontext \<Rightarrow> 'h bcontext" where
  "register_command L cmd handler ctx =
     (let ctx1 = register L (cmd_name cmd) handler ctx
      in ctx1\<lparr>ctx_help := (ctx_help ctx1)(to_upper L (cmd_name cmd) \<mapsto> cmd)\<rparr>)"

text \<open>A sequence of \<open>RegisterCommand\<close> calls, as the backends make them.\<close>

definition register_commands :: "'f golib \<Rightarrow> (command \<times> 'h) list \<Rightarrow> 'h bcontext \<Rightarrow> 'h bcontext" where
  "register_commands L cmds ctx = foldl (\<lambda>ctx (c, h). register_command L c h ctx) ctx cmds"

definition emit_event :: "event \<Rightarrow> 'h bcontext \<Rightarrow> 'h bcontext" where
  "emit_event e ctx = ctx\<lparr>ctx_events := ctx_events ctx @ [e]\<rparr>"

definition event :: "bytes \<Rightarrow> bytes \<Rightarrow> gerr option \<Rightarrow> event" where
  "event level message err = \<lparr>ev_level = level, ev_message = message, ev_err = err\<rparr>"

text \<open>
  \<open>Help\<close> and \<open>Status\<close>.  What package \<open>runtime\<close> reports at the time of the call is a parameter; the
  memory statistics are an opaque value.
\<close>

definition ctx_help_map :: "'h bcontext \<Rightarrow> (bytes \<rightharpoonup> command)" where
  "ctx_help_map ctx = ctx_help ctx"

record 'f runtime =
  rt_pid :: int64
  rt_num_goroutine :: int64
  rt_num_cpu :: int64
  rt_num_cgo_call :: int64
  rt_mem_stats :: "'f gval"

record 'f server_status =
  st_num_goroutines :: int64
  st_num_cpu :: int64
  st_num_cgo_call :: int64
  st_memory :: "'f gval"
  st_num_clients :: int

definition ctx_status :: "'f runtime \<Rightarrow> 'h bcontext \<Rightarrow> 'f server_status" where
  "ctx_status rt ctx =
     \<lparr>st_num_goroutines = rt_num_goroutine rt, st_num_cpu = rt_num_cpu rt,
      st_num_cgo_call = rt_num_cgo_call rt, st_memory = rt_mem_stats rt,
      st_num_clients = ctx_client_size ctx\<rparr>"

section \<open>Lookups after registration\<close>

lemma register_command_simps [simp]:
  "ctx_commands (register_command L c h ctx) = (ctx_commands ctx)(to_upper L (cmd_name c) \<mapsto> h)"
  "ctx_help (register_command L c h ctx) = (ctx_help ctx)(to_upper L (cmd_name c) \<mapsto> c)"
  "ctx_events (register_command L c h ctx) = ctx_events ctx"
  "ctx_client_size (register_command L c h ctx) = ctx_client_size ctx"
  by (simp_all add: register_command_def register_def Let_def)

lemma register_commands_simps [simp]:
  "register_commands L [] ctx = ctx"
  "register_commands L ((c, h) # cs) ctx = register_commands L cs (register_command L c h ctx)"
  by (simp_all add: register_commands_def)

lemma register_commands_append:
  "register_commands L (cs @ ds) ctx = register_commands L ds (register_commands L cs ctx)"
  by (simp add: register_commands_def)

lemma register_commands_rest [simp]:
  "ctx_events (register_commands L cs ctx) = ctx_events ctx"
  "ctx_client_size (register_commands L cs ctx) = ctx_client_size ctx"
  by (induction cs arbitrary: ctx) (auto simp: register_commands_def)

text \<open>
  The commands map after any registrations: the last registration under a name (in any case)
  wins, other names keep what they had.
\<close>

definition command_map :: "'f golib \<Rightarrow> (command \<times> 'h) list \<Rightarrow> (bytes \<rightharpoonup> 'h)" where
  "command_map L cs = map_of (rev (map (\<lambda>(c, h). (to_upper L (cmd_name c), h)) cs))"

lemma register_commands_map:
  "ctx_commands (register_commands L cs ctx) = ctx_commands ctx ++ command_map L cs"
proof (induction cs arbitrary: ctx)
  case (Cons p cs)
  obtain c h where "p = (c, h)" by fastforce
  with Cons show ?case by (auto simp: command_map_def map_add_def fun_eq_iff split: option.splits)
qed (simp add: command_map_def)

lemma register_commands_dom:
  "dom (ctx_commands (register_commands L cs ctx)) =
     dom (ctx_commands ctx) \<union> (\<lambda>(c, h). to_upper L (cmd_name c)) ` set cs"
  "dom (ctx_help (register_commands L cs ctx)) =
     dom (ctx_help ctx) \<union> (\<lambda>(c, h). to_upper L (cmd_name c)) ` set cs"
  by (induction cs arbitrary: ctx) (auto simp: register_commands_def)

section \<open>Properties\<close>

text \<open>
After any sequence of registrations, the commands that can be executed are exactly the
commands that \<open>CMDS\<close> lists: the handler map and the help map have the same (upper-cased) names.
\<close>

lemma registry_agrees:
  "dom (ctx_commands (register_commands L cs new_broadcast_context)) =
     dom (ctx_help (register_commands L cs new_broadcast_context)) \<and>
   dom (ctx_help (register_commands L cs new_broadcast_context)) =
     (\<lambda>(c, h). to_upper L (cmd_name c)) ` set cs"
  by (simp add: register_commands_dom new_broadcast_context_def)

text \<open>
Command lookup ignores case: a command registered under any spelling is found under the
upper-case form of every other spelling with the same upper-case form, and registering it again
replaces the handler.
\<close>

lemma lookup_after_register:
  assumes "to_upper L name = to_upper L (cmd_name c)"
  shows "ctx_commands (register_command L c h ctx) (to_upper L name) = Some h \<and>
    ctx_commands (register_command L c h' (register_command L c h ctx)) (to_upper L name) = Some h'"
  using assms by simp

end
