(* ===== verification/Stats.thy ===== *)
theory Stats
  imports Memory Wire Registry
begin

text \<open>
  \<open>backends/stats/metrics.go\<close>: the command handlers of the stats backend, each a function on the
  store and the calling client's writer.  A handler returns \<open>Ok ()\<close> for a nil error; errors it
  returns are written to the client by the protocol's run loop.
\<close>

section \<open>Handlers\<close>

type_synonym 'f stats_state = "'f mem \<times> bufwriter"
type_synonym 'f stats_handler = "'f golib \<Rightarrow> 'f args \<Rightarrow> 'f stats_state \<Rightarrow> unit res \<times> 'f stats_state"

text \<open>\<open>d, _ := data.([][]byte)\<close>: any other dynamic type gives the nil slice.\<close>

fun bulk_of :: "'f args \<Rightarrow> bytes list" where
  "bulk_of (ABulk d) = d"
| "bulk_of (AIface _) = []"

text \<open>\<open>client.WriteError(errors.New(text)); client.Flush(); return nil\<close>\<close>

definition usage_error :: "'f golib \<Rightarrow> bytes \<Rightarrow> 'f stats_state \<Rightarrow> unit res \<times> 'f stats_state" where
  "usage_error L text st =
     (case st of (m, w) \<Rightarrow>
        (Ok (), m, snd (bw_flush (snd (write_error L (Some (ErrText text)) w)))))"

definition flush_int :: "int64 res \<Rightarrow> 'f stats_state \<Rightarrow> unit res \<times> 'f stats_state" where
  "flush_int i st =
     (case st of (m, w) \<Rightarrow>
        (case i of
           Err e \<Rightarrow> (Err e, m, w)
         | Panic p \<Rightarrow> (Panic p, m, w)
         | Ok n \<Rightarrow> (Ok (), m, snd (bw_flush (snd (write_int64 n w))))))"

definition flush_nil :: "'f stats_state \<Rightarrow> unit res \<times> 'f stats_state" where
  "flush_nil st = (case st of (m, w) \<Rightarrow> (Ok (), m, snd (bw_flush (snd (write_null w)))))"

definition stats_read_string :: "bytes \<Rightarrow> bytes res" where
  "stats_read_string d = Ok d"

definition stats_read_int64 :: "bytes \<Rightarrow> int64 res" where
  "stats_read_int64 d = parse_int d"

definition read_string_int64 :: "bytes list \<Rightarrow> (bytes \<times> int64) res" where
  "read_string_int64 d =
     bind_res (bind_res (at_index d 0) stats_read_string) (\<lambda>key.
     bind_res (bind_res (at_index d 1) stats_read_int64) (\<lambda>value. Ok (key, value)))"

subsection \<open>Values and counters\<close>

definition stats_set :: "'f stats_handler" where
  "stats_set L data st =
     (let d = bulk_of data; (m, w) = st in
      if length d < 2 then
        usage_error L ''SET takes at least 2 parameters (i.e. key to set and value to set to)'' st
      else case read_string_int64 d of
             Err e \<Rightarrow> (Err e, st) | Panic p \<Rightarrow> (Panic p, st)
           | Ok (key, value) \<Rightarrow> (let (i, m') = mem_set key value m in flush_int i (m', w)))"

definition stats_setnx :: "'f stats_handler" where
  "stats_setnx L data st =
     (let d = bulk_of data; (m, w) = st in
      if length d < 2 then
        usage_error L ''SETNX takes at least 2 parameters (i.e. key to set and value to set to, if not already set)'' st
      else case read_string_int64 d of
             Err e \<Rightarrow> (Err e, st) | Panic p \<Rightarrow> (Panic p, st)
           | Ok (key, value) \<Rightarrow> (let (i, m') = mem_setnx key value m in flush_int i (m', w)))"

definition stats_get :: "'f stats_handler" where
  "stats_get L data st =
     (let d = bulk_of data; (m, w) = st in
      if length d = 0 then usage_error L ''GET takes at least 1 parameter (i.e. key to get)'' st
      else case bind_res (at_index d 0) stats_read_string of
             Err e \<Rightarrow> (Err e, st) | Panic p \<Rightarrow> (Panic p, st)
           | Ok key \<Rightarrow>
               (let i = mem_get key m in
                if i = Err ErrNotFound then flush_nil st else flush_int i st))"

definition stats_exists :: "'f stats_handler" where
  "stats_exists L data st =
     (let d = bulk_of data; (m, w) = st in
      if length d = 0 then usage_error L ''EXISTS takes at least 1 parameter (i.e. key to find)'' st
      else case bind_res (at_index d 0) stats_read_string of
             Err e \<Rightarrow> (Err e, st) | Panic p \<Rightarrow> (Panic p, st)
           | Ok key \<Rightarrow> flush_int (mem_exists key m) st)"

fun del_loop :: "bytes list \<Rightarrow> int64 \<Rightarrow> 'f mem \<Rightarrow> int64 res \<times> 'f mem" where
  "del_loop [] i m = (Ok i, m)"
| "del_loop (k # ks) i m =
     (case stats_read_string k of
        Err e \<Rightarrow> (Err e, m) | Panic p \<Rightarrow> (Panic p, m)
      | Ok key \<Rightarrow>
          (case mem_del key m of
             (Ok i2, m') \<Rightarrow> del_loop ks (i + i2) m'
           | (Err e, m') \<Rightarrow> (Err e, m')
           | (Panic p, m') \<Rightarrow> (Panic p, m')))"

definition stats_del :: "'f stats_handler" where
  "stats_del L data st =
     (let d = bulk_of data; (m, w) = st in
      if length d = 0 then usage_error L ''DEL takes at least 1 parameter (i.e. key to delete)'' st
      else (let (i, m') = del_loop d 0 m in flush_int i (m', w)))"

definition stats_incr :: "'f stats_handler" where
  "stats_incr L data st =
     (let d = bulk_of data; (m, w) = st in
      if length d = 0 then usage_error L ''INCR takes at least 1 parameter (i.e. key to increment)'' st
      else case bind_res (at_index d 0) stats_read_string of
             Err e \<Rightarrow> (Err e, st) | Panic p \<Rightarrow> (Panic p, st)
           | Ok key \<Rightarrow>
               (case drop 1 d of
                  v # _ \<Rightarrow>
                    (case stats_read_int64 v of
                       Err e \<Rightarrow> (Err e, st) | Panic p \<Rightarrow> (Panic p, st)
                     | Ok value \<Rightarrow> (let (i, m') = mem_incr_by key value m in flush_int i (m', w)))
                | [] \<Rightarrow> (let (i, m') = mem_incr key m in flush_int i (m', w))))"

definition stats_decr :: "'f stats_handler" where
  "stats_decr L data st =
     (let d = bulk_of data; (m, w) = st in
      if length d = 0 then usage_error L ''DECR takes at least 1 parameter (i.e. key to increment)'' st
      else case bind_res (at_index d 0) stats_read_string of
             Err e \<Rightarrow> (Err e, st) | Panic p \<Rightarrow> (Panic p, st)
           | Ok key \<Rightarrow>
               (case drop 1 d of
                  v # _ \<Rightarrow>
                    (case stats_read_int64 v of
                       Err e \<Rightarrow> (Err e, st) | Panic p \<Rightarrow> (Panic p, st)
                     | Ok value \<Rightarrow> (let (i, m') = mem_decr_by key value m in flush_int i (m', w)))
                | [] \<Rightarrow> (let (i, m') = mem_decr key m in flush_int i (m', w))))"

text \<open>\<open>COUNT\<close> writes no reply; the error of the store is the handler's error.\<close>

definition nil_reply :: "int64 res \<times> 'f mem \<Rightarrow> bufwriter \<Rightarrow> unit res \<times> 'f stats_state" where
  "nil_reply r w = (case r of (Ok _, m) \<Rightarrow> (Ok (), m, w) | (Err e, m) \<Rightarrow> (Err e, m, w) | (Panic p, m) \<Rightarrow> (Panic p, m, w))"

definition stats_count :: "'f stats_handler" where
  "stats_count L data st =
     (let d = bulk_of data; (m, w) = st in
      if length d = 0 then usage_error L ''COUNTER takes at least 1 parameter (i.e. key to increment)'' st
      else case bind_res (at_index d 0) stats_read_string of
             Err e \<Rightarrow> (Err e, st) | Panic p \<Rightarrow> (Panic p, st)
           | Ok key \<Rightarrow>
               (case drop 1 d of
                  v # _ \<Rightarrow>
                    (case stats_read_int64 v of
                       Err e \<Rightarrow> (Err e, st) | Panic p \<Rightarrow> (Panic p, st)
                     | Ok value \<Rightarrow> nil_reply (mem_counter_by L key value m) w)
                | [] \<Rightarrow> nil_reply (mem_counter L key m) w))"

text \<open>The counters as the value that \<open>WriteJson\<close> marshals.\<close>

definition counter_value :: "'f counter \<Rightarrow> 'f gval" where
  "counter_value c =
     VMap [(''Value'', VInt64 (ctr_value c)),
           (''Rate'', VMap [(''RatePerSecond'', VFloat (ctr_rate c)),
                           (''AvgHistory'', VArray (map VFloat (ctr_history c)))])]"

definition counters_value :: "'f golib \<Rightarrow> (bytes \<rightharpoonup> 'f counter) \<Rightarrow> 'f gval" where
  "counters_value L cs = VMap (map (\<lambda>k. (k, counter_value (the (cs k)))) (gl_range L (dom cs)))"

definition stats_counters :: "'f stats_handler" where
  "stats_counters L data st =
     (case st of (m, w) \<Rightarrow>
        (Ok (), m, snd (bw_flush (snd (write_json L (counters_value L (mem_counters m)) w)))))"

text \<open>\<open>client.WriteLen('*', len(xs))\<close>, one \<open>WriteString\<close> per element, \<open>client.Flush()\<close>.\<close>

definition flush_strings :: "bytes list \<Rightarrow> 'f stats_state \<Rightarrow> unit res \<times> 'f stats_state" where
  "flush_strings xs st =
     (case st of (m, w) \<Rightarrow>
        (Ok (), m, snd (bw_flush (snd (seqw (write_len CHR ''*'' (go_len xs)) (each_w write_string xs) w)))))"

definition stats_keys :: "'f stats_handler" where
  "stats_keys L data st =
     (let d = bulk_of data; (m, w) = st in
      case (if length d > 0 then bind_res (at_index d 0) stats_read_string else Ok []) of
        Err e \<Rightarrow> (Err e, st) | Panic p \<Rightarrow> (Panic p, st)
      | Ok key \<Rightarrow>
          (case mem_keys L key m of
             Err e \<Rightarrow> (Ok (), m, snd (bw_flush (snd (write_error L (Some e) w))))
           | Panic p \<Rightarrow> (Panic p, st)
           | Ok results \<Rightarrow> flush_strings results st))"

subsection \<open>Sets\<close>

fun sadd_loop :: "bytes \<Rightarrow> bytes list \<Rightarrow> int64 \<Rightarrow> 'f mem \<Rightarrow> int64 res \<times> 'f mem" where
  "sadd_loop key [] result m = (Ok result, m)"
| "sadd_loop key (v # vs) result m =
     (case mem_sadd key v m of
        (Ok r, m') \<Rightarrow> sadd_loop key vs (result + r) m'
      | (Err e, m') \<Rightarrow> (Err e, m') | (Panic p, m') \<Rightarrow> (Panic p, m'))"

definition stats_sadd :: "'f stats_handler" where
  "stats_sadd L data st =
     (let d = bulk_of data; (m, w) = st in
      if length d < 2 then usage_error L ''SADD takes at least 2 parameters (SADD key member)'' st
      else case at_index d 0 of
             Err e \<Rightarrow> (Err e, st) | Panic p \<Rightarrow> (Panic p, st)
           | Ok key \<Rightarrow> (let (result, m') = sadd_loop key (drop 1 d) 0 m in flush_int result (m', w)))"

fun srem_loop :: "bytes \<Rightarrow> bytes list \<Rightarrow> int64 \<Rightarrow> 'f mem \<Rightarrow> int64 res \<times> 'f mem" where
  "srem_loop key [] result m = (Ok result, m)"
| "srem_loop key (v # vs) result m =
     (case mem_srem key v m of
        (Ok r, m') \<Rightarrow> if r = - 1 then (Ok r, m') else srem_loop key vs (result + r) m'
      | (Err e, m') \<Rightarrow> (Err e, m') | (Panic p, m') \<Rightarrow> (Panic p, m'))"

definition stats_srem :: "'f stats_handler" where
  "stats_srem L data st =
     (let d = bulk_of data; (m, w) = st in
      if length d < 2 then usage_error L ''SREM takes at least 2 parameters (SREM key member)'' st
      else case at_index d 0 of
             Err e \<Rightarrow> (Err e, st) | Panic p \<Rightarrow> (Panic p, st)
           | Ok key \<Rightarrow> (let (result, m') = srem_loop key (drop 1 d) 0 m in flush_int result (m', w)))"

text \<open>A loop that collects one integer per argument and stops at the first error.\<close>

fun collect_ints :: "(bytes \<Rightarrow> int64 res) \<Rightarrow> bytes list \<Rightarrow> int64 list res" where
  "collect_ints f [] = Ok []"
| "collect_ints f (v # vs) =
     (case f v of
        Err e \<Rightarrow> Err e | Panic p \<Rightarrow> Panic p
      | Ok r \<Rightarrow> map_res (\<lambda>rs. r # rs) (collect_ints f vs))"

text \<open>The reply of \<open>SCARD\<close> and \<open>SISMEMBER\<close>: one integer, or an array of them.\<close>

definition flush_ints :: "int64 list \<Rightarrow> 'f stats_state \<Rightarrow> unit res \<times> 'f stats_state" where
  "flush_ints results st =
     (case st of (m, w) \<Rightarrow>
        if length results > 1 then
          (Ok (), m, snd (bw_flush (snd (seqw (write_len CHR ''*'' (go_len results)) (each_w write_int64 results) w))))
        else
          (case at_index results 0 of
             Ok n \<Rightarrow> (Ok (), m, snd (bw_flush (snd (write_int64 n w))))
           | Err e \<Rightarrow> (Err e, st)
           | Panic p \<Rightarrow> (Panic p, st)))"

definition stats_scard :: "'f stats_handler" where
  "stats_scard L data st =
     (let d = bulk_of data; (m, w) = st in
      if length d < 1 then usage_error L ''SCARD takes at least 1 parameter (SCARD key)'' st
      else case collect_ints (\<lambda>v. mem_scard v m) d of
             Err e \<Rightarrow> (Err e, st) | Panic p \<Rightarrow> (Panic p, st)
           | Ok results \<Rightarrow> flush_ints results st)"

text \<open>The loop of \<open>SDIFF\<close> over the further keys, which ends early on an empty result.\<close>

fun sdiff_loop :: "bytes list \<Rightarrow> bytes set \<Rightarrow> 'f mem \<Rightarrow> bytes set res" where
  "sdiff_loop [] results m = Ok results"
| "sdiff_loop (v # vs) results m =
     (case mem_sdiff results v m of
        Err e \<Rightarrow> Err e | Panic p \<Rightarrow> Panic p
      | Ok results' \<Rightarrow> if card results' = 0 then Ok results' else sdiff_loop vs results' m)"

definition stats_sdiff :: "'f stats_handler" where
  "stats_sdiff L data st =
     (let d = bulk_of data; (m, w) = st in
      if length d < 2 then usage_error L ''SDIFF requires at least 2 parameters (SDIFF key [key ...])'' st
      else case bind_res (at_index d 0) (\<lambda>key. mem_smembers key m) of
             Err e \<Rightarrow> (Err e, st) | Panic p \<Rightarrow> (Panic p, st)
           | Ok None \<Rightarrow> flush_nil st
           | Ok (Some results) \<Rightarrow>
               (case sdiff_loop (drop 1 d) results m of
                  Err e \<Rightarrow> (Err e, st) | Panic p \<Rightarrow> (Panic p, st)
                | Ok results' \<Rightarrow> flush_strings (gl_range L results') st))"

definition stats_smembers :: "'f stats_handler" where
  "stats_smembers L data st =
     (let d = bulk_of data; (m, w) = st in
      if length d = 0 then usage_error L ''SMEMBERS takes 1 parameter (SMEMBERS key)'' st
      else case bind_res (at_index d 0) (\<lambda>key. mem_smembers key m) of
             Err e \<Rightarrow> (Err e, st) | Panic p \<Rightarrow> (Panic p, st)
           | Ok None \<Rightarrow> flush_nil st
           | Ok (Some members) \<Rightarrow> flush_strings (gl_range L members) st)"

definition stats_sismember :: "'f stats_handler" where
  "stats_sismember L data st =
     (let d = bulk_of data; (m, w) = st in
      if length d < 2 then usage_error L ''SISMEMBER takes 2 parameters (SISMEMBER key member)'' st
      else case bind_res (at_index d 0) (\<lambda>key. collect_ints (\<lambda>v. mem_sismember key v m) (drop 1 d)) of
             Err e \<Rightarrow> (Err e, st) | Panic p \<Rightarrow> (Panic p, st)
           | Ok results \<Rightarrow> flush_ints results st)"

definition stats_sinter :: "'f stats_handler" where
  "stats_sinter L data st =
     (let d = bulk_of data; (m, w) = st in
      if length d < 2 then usage_error L ''SINTER takes at least 2 parameters (SINTER key [key ...])'' st
      else case mem_sinter d m of
             Err e \<Rightarrow> (Err e, st) | Panic p \<Rightarrow> (Panic p, st)
           | Ok None \<Rightarrow> flush_nil st
           | Ok (Some results) \<Rightarrow> flush_strings (gl_range L results) st)"

definition stats_sunion :: "'f stats_handler" where
  "stats_sunion L data st =
     (let d = bulk_of data; (m, w) = st in
      if length d < 2 then usage_error L ''SUNION takes at least 2 parameters (SINTER key [key ...])'' st
      else case mem_sunion d m of
             Err e \<Rightarrow> (Err e, st) | Panic p \<Rightarrow> (Panic p, st)
           | Ok results \<Rightarrow> flush_strings (gl_range L results) st)"

lemmas [handler_defs] =
  stats_set_def stats_setnx_def stats_get_def stats_exists_def stats_del_def stats_incr_def
  stats_decr_def stats_count_def stats_counters_def stats_keys_def stats_sadd_def stats_srem_def
  stats_scard_def stats_sdiff_def stats_smembers_def stats_sismember_def stats_sinter_def
  stats_sunion_def


section \<open>Registration\<close>

text \<open>
  The handlers as data, so that the registry can hold them; \<open>stats_run\<close> is the method call.
\<close>

datatype stats_method =
    MCount | MCounters | MIncr | MDecr | MDel | MExists | MGet | MSet | MSetNx | MKeys
  | MSAdd | MSRem | MSCard | MSMembers | MSDiff | MSIsMember | MSInter | MSUnion

fun stats_run :: "stats_method \<Rightarrow> 'f stats_handler" where
  "stats_run MCount = stats_count"
| "stats_run MCounters = stats_counters"
| "stats_run MIncr = stats_incr"
| "stats_run MDecr = stats_decr"
| "stats_run MDel = stats_del"
| "stats_run MExists = stats_exists"
| "stats_run MGet = stats_get"
| "stats_run MSet = stats_set"
| "stats_run MSetNx = stats_setnx"
| "stats_run MKeys = stats_keys"
| "stats_run MSAdd = stats_sadd"
| "stats_run MSRem = stats_srem"
| "stats_run MSCard = stats_scard"
| "stats_run MSMembers = stats_smembers"
| "stats_run MSDiff = stats_sdiff"
| "stats_run MSIsMember = stats_sismember"
| "stats_run MSInter = stats_sinter"
| "stats_run MSUnion = stats_sunion"

text \<open>The registrations of \<open>RegisterBackend\<close>, in order.\<close>

definition stats_commands :: "(command \<times> stats_method) list" where
  "stats_commands =
    [(command ''COUNT'' ''Increments a key that resets itself to 0 on each flush routine.'' ''COUNT foo [124]'' True, MCount),
     (command ''COUNTERS'' ''Returns the list of active counters.'' '''' False, MCounters),
     (command ''INCR'' ''Increments a key by the specified value or by default 1.'' ''INCR key [1]'' False, MIncr),
     (command ''DECR'' ''Decrements a key by the specified value or by default 1.'' ''DECR key [1]'' False, MDecr),
     (command ''DEL'' ''Deletes a key from the values or counters list or both.'' ''DEL key'' False, MDel),
     (command ''EXISTS'' ''Determines if the given key exists from the values.'' ''EXISTS key'' False, MExists),
     (command ''GET'' ''Gets the specified key from the values.'' ''GET key'' False, MGet),
     (command ''SET'' ''Sets the specified key to the specified value in values.'' ''SET key 1234'' False, MSet),
     (command ''SETNX'' ''Sets the specified key to the given value only if the key is not already set.'' ''SETNX key 1234'' False, MSetNx),
     (command ''KEYS'' ''Returns the list of keys available or by pattern'' ''KEYS [pattern]'' False, MKeys),
     (command ''SADD'' ''Adds one or more members to a set'' ''SADD key member [member ...]'' False, MSAdd),
     (command ''SREM'' ''Removes one or more members from a set'' ''SREM key member [member ...]'' False, MSRem),
     (command ''SCARD'' ''Gets the number of members from a set'' ''SCARD key [key ...]'' False, MSCard),
     (command ''SMEMBERS'' ''Gets all the members in a set'' ''SMEMBERS key'' False, MSMembers),
     (command ''SDIFF'' ''Subtracts multiple sets'' ''SDIFF key [key ...]'' False, MSDiff),
     (command ''SISMEMBER'' ''Returns if member is a member of the set'' ''SISMEMBER key member [member ...]'' False, MSIsMember),
     (command ''SINTER'' ''Returns the members of the set resulting from the intersection of all the given sets'' ''SINTER key [key ...]'' False, MSInter),
     (command ''SUNION'' ''Returns the members of the set resulting from the union of all the given sets'' ''SINTER key [key ...]'' False, MSUnion)]"

section \<open>What a handler writes\<close>

text \<open>
  \<open>replied w b w'\<close>: the writer went from \<open>w\<close> to \<open>w'\<close> by sending exactly the bytes \<open>b\<close>, and
  everything has been handed to the connection.
\<close>

definition replied :: "bufwriter \<Rightarrow> bytes \<Rightarrow> bufwriter \<Rightarrow> bool" where
  "replied w b w' \<longleftrightarrow> bw_ok w' \<and> bw_buf w' = [] \<and> bw_sent w' = bw_stream w @ b"

lemma replied_flush: "emits f b \<Longrightarrow> bw_ok w \<Longrightarrow> replied w b (snd (bw_flush (snd (f w))))"
  using emitsD [of f b w] bw_flush_ok [of "snd (f w)"] by (simp add: replied_def)

lemma replied_ok: "replied w b w' \<Longrightarrow> bw_ok w'"
  by (simp add: replied_def)

definition enc_int :: "int64 \<Rightarrow> bytes" where
  "enc_int n = enc_line CHR '':'' (append_int n)"

lemma int_decodes: "decodes 128 (read_interface L) (enc_int n) (VInt64 n)"
  unfolding enc_int_def using length_append_int [of n]
  by (intro decodes_interface_line) (simp_all add: read_interface_line_def)

definition enc_nil :: bytes where
  "enc_nil = enc_line CHR ''$'' ''-1''"

definition enc_strings :: "bytes list \<Rightarrow> bytes" where
  "enc_strings xs =
     enc_line CHR ''*'' (append_int (go_len xs)) @ concat (map (enc_line CHR ''+'') xs)"

lemma flush_int_replied:
  "bw_ok w \<Longrightarrow> \<exists>w'. flush_int (Ok n) (m, w) = (Ok (), m, w') \<and> replied w (enc_int n) w'"
  by (simp add: flush_int_def enc_int_def replied_flush emits_client_int64)

lemma flush_nil_replied:
  "bw_ok w \<Longrightarrow> \<exists>w'. flush_nil (m, w) = (Ok (), m, w') \<and> replied w enc_nil w'"
  by (simp add: flush_nil_def enc_nil_def replied_flush emits_client_null)

lemma flush_strings_replied:
  "bw_ok w \<Longrightarrow> \<exists>w'. flush_strings xs (m, w) = (Ok (), m, w') \<and> replied w (enc_strings xs) w'"
  unfolding flush_strings_def enc_strings_def prod.case
  by (auto intro!: replied_flush emits_seqw emits_write_len emits_each_w emits_client_string)

lemma usage_error_replied:
  "bw_ok w \<Longrightarrow> \<exists>w'. usage_error L t (m, w) = (Ok (), m, w') \<and> replied w (enc_error L (ErrText t)) w'"
  by (simp add: usage_error_def replied_flush emits_client_error)

lemma json_replied:
  assumes "bw_ok w"
  shows "replied w (case gl_json L v of Inl _ \<Rightarrow> [] | Inr b \<Rightarrow> enc_json b)
    (snd (bw_flush (snd (write_json L v w))))"
proof (cases "gl_json L v")
  case (Inl e)
  then show ?thesis using replied_flush [of "\<lambda>w. (None, w)" "[]" w] assms
    by (simp add: emits_def write_json_def)
next
  case (Inr b)
  then show ?thesis using replied_flush [OF emits_client_json assms] by simp
qed

section \<open>What a handler does to the store\<close>

text \<open>The store after a list of operations.\<close>

definition mem_execs :: "'f golib \<Rightarrow> mem_op list \<Rightarrow> 'f mem \<Rightarrow> 'f mem" where
  "mem_execs L ops m = foldl (\<lambda>m op. mem_exec L op m) m ops"

lemma mem_execs_simps [simp]:
  "mem_execs L [] m = m" "mem_execs L (op # ops) m = mem_execs L ops (mem_exec L op m)"
  by (simp_all add: mem_execs_def)

lemma mem_execs_ok: "mem_ok m \<Longrightarrow> mem_ok (mem_execs L ops m)"
  by (induction ops arbitrary: m) (auto intro: mem_exec_ok)

lemma flush_int_store [simp]: "fst (snd (flush_int i (m, w))) = m"
  by (simp add: flush_int_def split: res.splits)

lemma reply_store [simp]:
  "fst (snd (flush_nil (m, w))) = m" "fst (snd (flush_strings xs (m, w))) = m"
  "fst (snd (flush_ints ns (m, w))) = m" "fst (snd (usage_error L t (m, w))) = m"
  "fst (snd (nil_reply r w)) = snd r"
  by (auto simp: flush_nil_def flush_strings_def flush_ints_def usage_error_def nil_reply_def
      split: prod.splits res.splits)

text \<open>The operations that \<open>DEL\<close>, \<open>SADD\<close> and \<open>SREM\<close> perform one after the other.\<close>

lemma del_loop_store: "snd (del_loop ks i m) = mem_execs L (map Del ks) m"
proof (induction ks arbitrary: i m)
  case (Cons k ks)
  have "\<exists>n m'. mem_del k m = (Ok n, m')" by (auto simp: mem_del_def split: option.splits)
  then show ?case using Cons by (auto simp: stats_read_string_def)
qed simp

lemma sadd_loop_store: "snd (sadd_loop k vs i m) = mem_execs L (map (SAdd k) vs) m"
proof (induction vs arbitrary: i m)
  case (Cons v vs)
  have "\<exists>n m'. mem_sadd k v m = (Ok n, m')" by (auto simp: mem_sadd_def split: option.splits)
  then show ?case using Cons by auto
qed simp

lemma srem_loop_store: "\<exists>us. snd (srem_loop k vs i m) = mem_execs L (map (SRem k) us) m"
proof (induction vs arbitrary: i m)
  case (Cons v vs)
  have "\<exists>n m'. mem_srem k v m = (Ok n, m')" by (auto simp: mem_srem_def split: option.splits)
  then obtain n m' where r: "mem_srem k v m = (Ok n, m')" by blast
  from Cons.IH obtain us where "snd (srem_loop k vs (i + n) m') = mem_execs L (map (SRem k) us) m'"
    by blast
  then have "snd (srem_loop k (v # vs) i m) =
      mem_execs L (map (SRem k) (if n = - 1 then [v] else v # us)) m"
    using r by simp
  then show ?case by blast
qed (auto intro: exI [of _ "[]"])


text \<open>
  \<open>handled L m w out\<close>: a handler that started with store \<open>m\<close> and writer \<open>w\<close> did not panic, changed
  the store only by operations of \<open>Metrics\<close>, and either wrote and flushed something and returned
  nil, or wrote nothing.
\<close>

definition handled :: "'f golib \<Rightarrow> 'f mem \<Rightarrow> bufwriter \<Rightarrow> unit res \<times> 'f stats_state \<Rightarrow> bool" where
  "handled L m w out \<longleftrightarrow>
     (case out of (res, m', w') \<Rightarrow>
        (\<exists>ops. m' = mem_execs L ops m) \<and>
        (case res of
           Ok _ \<Rightarrow> w' = w \<or> (\<exists>b. replied w b w')
         | Err _ \<Rightarrow> w' = w
         | Panic _ \<Rightarrow> False))"

lemma store_now: "\<exists>ops. m = mem_execs L ops m"
  by (rule exI [of _ "[]"]) simp

lemma handled_err: "handled L m w (Err e, m, w)"
  using store_now by (simp add: handled_def)

lemma handled_flush:
  assumes "bw_ok w" and "emits f b" and "\<exists>ops. m' = mem_execs L ops m"
  shows "handled L m w (Ok (), m', snd (bw_flush (snd (f w))))"
  using assms replied_flush [OF assms(2,1)] by (auto simp: handled_def)

lemma handled_usage: "bw_ok w \<Longrightarrow> handled L m w (usage_error L t (m, w))"
  unfolding usage_error_def prod.case
  by (rule handled_flush [OF _ emits_client_error store_now])

lemma handled_nil: "bw_ok w \<Longrightarrow> handled L m w (flush_nil (m, w))"
  unfolding flush_nil_def prod.case by (rule handled_flush [OF _ emits_client_null store_now])

lemma handled_strings: "bw_ok w \<Longrightarrow> handled L m w (flush_strings xs (m, w))"
  unfolding flush_strings_def prod.case
  by (erule handled_flush [OF _ emits_seqw [OF emits_write_len emits_each_w] store_now])
     (rule emits_client_string)

lemma handled_ints:
  assumes ok: "bw_ok w" and "ns \<noteq> []"
  shows "handled L m w (flush_ints ns (m, w))"
proof -
  have many: "emits (seqw (write_len CHR ''*'' (go_len ns)) (each_w write_int64 ns))
      (enc_line CHR ''*'' (append_int (go_len ns)) @ concat (map enc_int ns))"
    by (intro emits_seqw emits_write_len emits_each_w) (simp add: enc_int_def emits_client_int64)
  show ?thesis unfolding flush_ints_def prod.case
    using handled_flush [OF ok many store_now] handled_flush [OF ok emits_client_int64 store_now] assms(2)
    by (cases "length ns > 1") auto
qed

text \<open>An integer reply after the store changed to \<open>m'\<close>.\<close>

lemma handled_int:
  assumes "bw_ok w" and "\<exists>ops. m' = mem_execs L ops m" and "\<exists>n. i = Ok n"
  shows "handled L m w (flush_int i (m', w))"
  using assms handled_flush [OF assms(1) emits_client_int64 assms(2)] by (auto simp: flush_int_def)

lemma handled_json:
  assumes "bw_ok w"
  shows "handled L m w (Ok (), m, snd (bw_flush (snd (write_json L v w))))"
proof (cases "gl_json L v")
  case (Inl e)
  have "replied w [] (snd (bw_flush w))"
    using replied_flush [of "\<lambda>w. (None, w)" "[]" w] assms by (simp add: emits_def)
  with Inl show ?thesis using store_now [of m L] by (auto simp: handled_def write_json_def)
next
  case (Inr b)
  show ?thesis by (rule handled_flush [OF assms emits_client_json [OF Inr] store_now])
qed

text \<open>The results of the store's methods: none of them panics on the arguments it is given.\<close>

lemma parse_int_cases: "(\<exists>n. parse_int s = Ok n) \<or> (\<exists>e. parse_int s = Err e)"
  by (simp add: parse_int_def Let_def split: sum.split)

lemma fst_ok_intros:
  "\<exists>n. fst (mem_set k v m) = Ok n" "\<exists>n. fst (mem_setnx k v m) = Ok n"
  "\<exists>n. fst (mem_incr_by k v m) = Ok n" "\<exists>n. fst (mem_decr_by k v m) = Ok n"
  "\<exists>n. fst (mem_counter_by L k v m) = Ok n" "\<exists>n. fst (mem_del k m) = Ok n"
  "\<exists>n. fst (mem_sadd k x m) = Ok n" "\<exists>n. fst (mem_srem k x m) = Ok n"
  "\<exists>n. mem_exists k m = Ok n" "\<exists>n. mem_scard k m = Ok n" "\<exists>n. mem_sismember k x m = Ok n"
  by (auto simp: mem_defs Let_def split: option.split)

lemma loops_ok:
  "\<exists>n. fst (del_loop ks i m) = Ok n" "\<exists>n. fst (sadd_loop k vs i m) = Ok n"
  "\<exists>n. fst (srem_loop k vs i m) = Ok n"
proof -
  show "\<exists>n. fst (del_loop ks i m) = Ok n"
  proof (induction ks arbitrary: i m)
    case (Cons k ks)
    with fst_ok_intros(6) [of k m] show ?case
      by (cases "mem_del k m") (auto simp: stats_read_string_def)
  qed simp
  show "\<exists>n. fst (sadd_loop k vs i m) = Ok n"
  proof (induction vs arbitrary: i m)
    case (Cons v vs)
    with fst_ok_intros(7) [of k v m] show ?case by (cases "mem_sadd k v m") auto
  qed simp
  show "\<exists>n. fst (srem_loop k vs i m) = Ok n"
  proof (induction vs arbitrary: i m)
    case (Cons v vs)
    with fst_ok_intros(8) [of k v m] show ?case by (cases "mem_srem k v m") auto
  qed simp
qed

lemma collect_ints_ok: "(\<And>v. \<exists>n. f v = Ok n) \<Longrightarrow> \<exists>ns. collect_ints f vs = Ok ns \<and> length ns = length vs"
proof (induction vs)
  case (Cons v vs)
  from Cons.prems [of v] obtain n where "f v = Ok n" by blast
  moreover from Cons obtain ns where "collect_ints f vs = Ok ns" "length ns = length vs" by blast
  ultimately show ?case by simp
qed simp


lemma sdiff_loop_ok: "\<exists>s. sdiff_loop vs results m = Ok s"
  by (induction vs results m rule: sdiff_loop.induct) (auto simp: mem_sdiff_def split: option.split)

lemma mem_keys_ok: "\<exists>xs. mem_keys L p m = Ok xs"
  by (simp add: mem_keys_def Let_def)

lemma handled_op_int:
  assumes "bw_ok w" and "\<exists>n. fst r = Ok n" and "snd r = mem_execs L ops m"
  shows "handled L m w (case r of (i, m') \<Rightarrow> flush_int i (m', w))"
  using handled_int [OF assms(1), of "snd r" L m "fst r"] assms(2,3) by (cases r) auto

lemma handled_op_nil:
  assumes "\<exists>n. fst r = Ok n" and "snd r = mem_execs L ops m"
  shows "handled L m w (nil_reply r w)"
  using assms by (cases r) (auto simp: handled_def nil_reply_def)

lemma handled_parse:
  assumes "\<And>n. handled L m w (f n)"
  shows "handled L m w (case parse_int s of
      Err e \<Rightarrow> (Err e, m, w) | Panic p \<Rightarrow> (Panic p, m, w) | Ok n \<Rightarrow> f n)"
  using parse_int_cases [of s] assms handled_err by (auto split: res.splits)

lemma handled_read_pair:
  assumes "\<not> length d < 2" and "\<And>k n. handled L m w (f k n)"
  shows "handled L m w (case read_string_int64 d of
      Err e \<Rightarrow> (Err e, m, w) | Panic p \<Rightarrow> (Panic p, m, w) | Ok (k, n) \<Rightarrow> f k n)"
  using parse_int_cases [of "d ! 1"] assms handled_err
  by (auto simp: read_string_int64_def stats_read_string_def stats_read_int64_def split: res.splits)


lemmas handled_intros =
  handled_usage handled_nil handled_strings handled_ints handled_json handled_err handled_parse
  handled_read_pair

lemmas op_results = fst_ok_intros loops_ok

lemma handled_values:
  assumes "bw_ok w"
  shows "handled L m w (stats_set L data (m, w))" "handled L m w (stats_setnx L data (m, w))"
    "handled L m w (stats_get L data (m, w))" "handled L m w (stats_exists L data (m, w))"
proof -
  note op = handled_op_int [OF assms]
  have "\<And>k n. handled L m w (case mem_set k n m of (i, m') \<Rightarrow> flush_int i (m', w))"
    by (rule op [of _ _ "[SetTo k n]" for k n]) (simp_all add: op_results)
  then show "handled L m w (stats_set L data (m, w))"
    using assms by (auto simp: stats_set_def Let_def intro: handled_usage handled_read_pair)
  have "\<And>k n. handled L m w (case mem_setnx k n m of (i, m') \<Rightarrow> flush_int i (m', w))"
    by (rule op [of _ _ "[SetNx k n]" for k n]) (simp_all add: op_results)
  then show "handled L m w (stats_setnx L data (m, w))"
    using assms by (auto simp: stats_setnx_def Let_def intro: handled_usage handled_read_pair)
  show "handled L m w (stats_get L data (m, w))"
    using assms handled_int [OF assms store_now]
    by (auto simp: stats_get_def stats_read_string_def Let_def mem_get_def
        intro: handled_usage handled_nil split: option.splits)
  show "handled L m w (stats_exists L data (m, w))"
    using assms by (auto simp: stats_exists_def stats_read_string_def Let_def
        intro: handled_usage handled_int store_now op_results)
qed

lemma handled_counts:
  assumes "bw_ok w"
  shows "handled L m w (stats_del L data (m, w))" "handled L m w (stats_incr L data (m, w))"
    "handled L m w (stats_decr L data (m, w))" "handled L m w (stats_count L data (m, w))"
proof -
  note op = handled_op_int [OF assms]
  have "handled L m w (case del_loop d 0 m of (i, m') \<Rightarrow> flush_int i (m', w))" for d
    by (rule op [of _ _ "map Del d"]) (simp_all add: op_results del_loop_store)
  then show "handled L m w (stats_del L data (m, w))"
    using assms by (auto simp: stats_del_def Let_def intro: handled_usage)
  have "handled L m w (case mem_incr_by k n m of (i, m') \<Rightarrow> flush_int i (m', w))" for k n
    by (rule op [of _ _ "[IncrBy k n]"]) (simp_all add: op_results)
  then show "handled L m w (stats_incr L data (m, w))"
    using assms by (auto simp: stats_incr_def stats_read_string_def stats_read_int64_def mem_incr_def
        Let_def intro: handled_usage handled_parse split: list.split)
  have "handled L m w (case mem_decr_by k n m of (i, m') \<Rightarrow> flush_int i (m', w))" for k n
    by (rule op [of _ _ "[DecrBy k n]"]) (simp_all add: op_results)
  then show "handled L m w (stats_decr L data (m, w))"
    using assms by (auto simp: stats_decr_def stats_read_string_def stats_read_int64_def mem_decr_def
        Let_def intro: handled_usage handled_parse split: list.split)
  have "handled L m w (nil_reply (mem_counter_by L k n m) w)" for k n
    by (rule handled_op_nil [of _ _ "[CounterBy k n]"]) (simp_all add: op_results)
  then show "handled L m w (stats_count L data (m, w))"
    using assms by (auto simp: stats_count_def stats_read_string_def stats_read_int64_def mem_counter_def
        Let_def intro: handled_usage handled_parse split: list.split)
qed

lemma handled_sets:
  assumes "bw_ok w"
  shows "handled L m w (stats_sadd L data (m, w))" "handled L m w (stats_srem L data (m, w))"
    "handled L m w (stats_scard L data (m, w))" "handled L m w (stats_sismember L data (m, w))"
proof -
  note op = handled_op_int [OF assms]
  have "handled L m w (case sadd_loop k vs 0 m of (i, m') \<Rightarrow> flush_int i (m', w))" for k vs
    by (rule op [of _ _ "map (SAdd k) vs"]) (simp_all add: op_results sadd_loop_store)
  then show "handled L m w (stats_sadd L data (m, w))"
    using assms by (auto simp: stats_sadd_def Let_def intro: handled_usage)
  have "handled L m w (case srem_loop k vs 0 m of (i, m') \<Rightarrow> flush_int i (m', w))" for k vs
    using srem_loop_store [of k vs 0 m L] op [OF loops_ok(3)] by blast
  then show "handled L m w (stats_srem L data (m, w))"
    using assms by (auto simp: stats_srem_def Let_def intro: handled_usage)
  obtain ns where "collect_ints (\<lambda>v. mem_scard v m) (bulk_of data) = Ok ns" "length ns = length (bulk_of data)"
    using collect_ints_ok [of "\<lambda>v. mem_scard v m" "bulk_of data"] fst_ok_intros(10) by metis
  then show "handled L m w (stats_scard L data (m, w))"
    using assms by (auto simp: stats_scard_def Let_def Suc_le_eq intro!: handled_usage handled_ints)
  obtain ms where "collect_ints (\<lambda>v. mem_sismember (bulk_of data ! 0) v m) (drop 1 (bulk_of data)) = Ok ms"
    "length ms = length (drop 1 (bulk_of data))"
    using collect_ints_ok [of "\<lambda>v. mem_sismember (bulk_of data ! 0) v m" "drop 1 (bulk_of data)"]
      fst_ok_intros(11) by metis
  then show "handled L m w (stats_sismember L data (m, w))"
    using assms by (auto simp: stats_sismember_def Let_def intro!: handled_usage handled_ints)
qed

lemma handled_queries:
  assumes "bw_ok w"
  shows "handled L m w (stats_counters L data (m, w))" "handled L m w (stats_keys L data (m, w))"
    "handled L m w (stats_smembers L data (m, w))" "handled L m w (stats_sdiff L data (m, w))"
    "handled L m w (stats_sinter L data (m, w))" "handled L m w (stats_sunion L data (m, w))"
proof -
  show "handled L m w (stats_counters L data (m, w))"
    using assms by (simp add: stats_counters_def handled_json)
  have "handled L m w (case mem_keys L p m of
      Err e \<Rightarrow> (Ok (), m, snd (bw_flush (snd (write_error L (Some e) w))))
    | Panic q \<Rightarrow> (Panic q, m, w) | Ok xs \<Rightarrow> flush_strings xs (m, w))" for p
    using mem_keys_ok [of L p m] handled_strings [OF assms] by auto
  then show "handled L m w (stats_keys L data (m, w))"
    by (simp add: stats_keys_def stats_read_string_def Let_def)
  show "handled L m w (stats_smembers L data (m, w))"
    using assms by (auto simp: stats_smembers_def mem_smembers_def Let_def
        intro: handled_usage handled_nil handled_strings split: option.split)
  have sd: "handled L m w (case sdiff_loop vs s m of
      Err e \<Rightarrow> (Err e, m, w) | Panic p \<Rightarrow> (Panic p, m, w)
    | Ok s' \<Rightarrow> flush_strings (gl_range L s') (m, w))" for vs s
    using sdiff_loop_ok [of vs s m] assms by (auto intro: handled_strings)
  show "handled L m w (stats_sdiff L data (m, w))"
    using assms sd by (auto simp: stats_sdiff_def mem_smembers_def Let_def
        intro: handled_usage handled_nil split: option.split)
  have "length (bulk_of data) \<ge> 2 \<Longrightarrow> bulk_of data \<noteq> []" by auto
  then show "handled L m w (stats_sinter L data (m, w))"
    using assms by (auto simp: stats_sinter_def mem_sinter_eq Let_def
        intro: handled_usage handled_nil handled_strings)
  show "handled L m w (stats_sunion L data (m, w))"
    using assms by (auto simp: stats_sunion_def mem_sunion_def Let_def
        intro: handled_usage handled_strings)
qed

lemma stats_run_handled: "bw_ok w \<Longrightarrow> handled L m w (stats_run h L data (m, w))"
  by (cases h) (simp_all add: handled_values handled_counts handled_sets handled_queries)


text \<open>
  Neither what a handler returns nor what it does to the store depends on the client's writer, so
  this also holds for a client whose connection has failed.
\<close>

lemma reply_blind:
  "fst (flush_int i (m, w)) = fst (flush_int i (m, v))" "fst (flush_nil (m, w)) = fst (flush_nil (m, v))"
  "fst (flush_strings xs (m, w)) = fst (flush_strings xs (m, v))"
  "fst (flush_ints ns (m, w)) = fst (flush_ints ns (m, v))"
  "fst (usage_error L t (m, w)) = fst (usage_error L t (m, v))"
  "fst (nil_reply r w) = fst (nil_reply r v)"
  by (auto simp: flush_int_def flush_nil_def flush_strings_def flush_ints_def usage_error_def
      nil_reply_def split: res.split prod.split)

definition ignores_writer :: "('f stats_state \<Rightarrow> unit res \<times> 'f stats_state) \<Rightarrow> bool" where
  "ignores_writer f \<longleftrightarrow>
     (\<forall>m v w. fst (f (m, w)) = fst (f (m, v)) \<and> fst (snd (f (m, w))) = fst (snd (f (m, v))))"

lemma stats_run_blind: "ignores_writer (stats_run h L data)"
  unfolding ignores_writer_def
  by (cases h)
     (simp_all add: handler_defs Let_def reply_blind split: prod.split res.split list.split option.split)

lemma stats_run_any:
  "\<exists>ops. fst (snd (stats_run h L data (m, w))) = mem_execs L ops m"
  "fst (stats_run h L data (m, w)) \<noteq> Panic p"
proof -
  note b = stats_run_blind [of h L data, unfolded ignores_writer_def, rule_format, of m w "new_writer 128"]
  obtain r m' w' where out: "stats_run h L data (m, new_writer 128) = (r, m', w')" by (metis prod_cases3)
  with stats_run_handled [of "new_writer 128" L m h data]
  have "\<exists>ops. m' = mem_execs L ops m" "r \<noteq> Panic p" by (auto simp: handled_def)
  with b out show "\<exists>ops. fst (snd (stats_run h L data (m, w))) = mem_execs L ops m"
    "fst (stats_run h L data (m, w)) \<noteq> Panic p" by simp_all
qed

section \<open>Effects of single commands\<close>

lemma stats_set_ok:
  assumes "bw_ok w" and "parse_int v = Ok n"
  shows "\<exists>w'. stats_set L (ABulk (k # v # rest)) (m, w) = (Ok (), snd (mem_set k n m), w') \<and>
    replied w (enc_int 1) w'"
  using assms flush_int_replied [OF assms(1), of 1]
  by (simp add: stats_set_def read_string_int64_def stats_read_string_def stats_read_int64_def
      mem_set_def)

lemma stats_get_ok:
  assumes "bw_ok w"
  shows "\<exists>w'. stats_get L (ABulk (k # rest)) (m, w) = (Ok (), m, w') \<and>
    replied w (case mem_values m k of Some n \<Rightarrow> enc_int n | None \<Rightarrow> enc_nil) w'"
  using flush_int_replied [OF assms, of _ m] flush_nil_replied [OF assms, of m]
  by (auto simp: stats_get_def stats_read_string_def mem_get_def split: option.split)

lemma replied_trans:
  "replied w a w1 \<Longrightarrow> replied w1 b w2 \<Longrightarrow> replied w (a @ b) w2"
  by (simp add: replied_def bw_stream_def)

text \<open>The members of a set, the empty set for a missing key.\<close>

definition members_of :: "'f mem \<Rightarrow> bytes \<Rightarrow> bytes set" where
  "members_of m k = (case mem_sets m k of Some s \<Rightarrow> s | None \<Rightarrow> {})"

lemma members_sadd_other [simp]:
  "members_of (snd (mem_sadd k x m)) j = (if j = k then insert x (members_of m k) else members_of m j)"
  by (simp add: members_of_def mems.members_sadd)

lemma sadd_fst: "fst (mem_sadd k x m) = Ok (if x \<in> members_of m k then 0 else 1)"
  by (simp add: members_of_def mems.sadd_reply)

lemma mem_ok_members: "mem_ok m \<Longrightarrow> finite (members_of m k)"
  by (auto simp: mem_ok_def members_of_def split: option.split)

lemma mem_sdiff_eq: "mem_sdiff s k m = Ok (s - members_of m k)"
  by (auto simp: mem_sdiff_def members_of_def split: option.split)

lemma sdiff_loop_eq:
  "finite s \<Longrightarrow> sdiff_loop vs s m = Ok (s - (\<Union>v \<in> set vs. members_of m v))"
proof (induction vs arbitrary: s)
  case (Cons v vs)
  have "(s - members_of m v) - (\<Union>u \<in> set vs. members_of m u) =
      s - (\<Union>u \<in> set (v # vs). members_of m u)" by auto
  with Cons show ?case by (auto simp: mem_sdiff_eq)
qed simp


section \<open>Properties\<close>

text \<open>
C37. Over the \<open>interface\<close> protocol, whose handlers receive a \<open>[]interface{}\<close>, the type assertion to
\<open>[][]byte\<close> gives the empty slice: every command that requires an argument answers its usage error
and leaves the store alone, whatever the arguments are.
\<close>

theorem interface_args_ignored:
  assumes "bw_ok w" and "h \<noteq> MCounters" and "h \<noteq> MKeys"
  shows "\<exists>t w'. stats_run h L (AIface vs) (m, w) = (Ok (), m, w') \<and>
    bw_sent w' = bw_stream w @ enc_error L (ErrText t)"
proof -
  have "\<exists>t. stats_run h L (AIface vs) (m, w) = usage_error L t (m, w)"
    using assms(2,3) by (cases h) (auto simp: handler_defs)
  with usage_error_replied [OF assms(1), of L _ m] show ?thesis
    by (auto simp: replied_def) metis
qed

theorem interface_args_ignored_witness:
  "\<exists>t w'. stats_run MSet plain_lib (AIface [VString ''k'', VInt64 1]) (new_memory_backend 0, new_writer 128) =
      (Ok (), new_memory_backend 0, w') \<and> bw_sent w' = enc_error plain_lib (ErrText t)"
  using interface_args_ignored [of "new_writer 128" MSet plain_lib "[VString ''k'', VInt64 1]" "new_memory_backend 0"]
  by simp

text \<open>
An argument that is not a 64-bit decimal number makes \<open>SET\<close>, \<open>SETNX\<close>, \<open>INCR\<close>, \<open>DECR\<close> and
\<open>COUNT\<close> return the error of \<open>strconv\<close>, before the store or the connection is touched.
\<close>

theorem bad_number_changes_nothing:
  assumes "parse_int v = Err e" and "h \<in> {MSet, MSetNx, MIncr, MDecr, MCount}"
  shows "stats_run h L (ABulk (k # v # rest)) st = (Err e, st)"
proof -
  obtain m w where st: "st = (m, w)" by fastforce
  consider "h = MSet" | "h = MSetNx" | "h = MIncr" | "h = MDecr" | "h = MCount" using assms(2) by blast
  then show ?thesis using assms(1)
    by cases (simp_all add: st handler_defs read_string_int64_def stats_read_string_def
        stats_read_int64_def)
qed

theorem bad_number_changes_nothing_witness:
  "stats_run MIncr plain_lib (ABulk (''k'' # ''1x'' # [])) (new_memory_backend 0, new_writer 128) =
     (Err (ErrNum ''1x'' NumSyntax), new_memory_backend 0, new_writer 128)"
proof -
  have "parse_int ''1x'' = Err (ErrNum ''1x'' NumSyntax)"
    by (simp add: parse_int_def parse_uint_def is_digit_def digit_val_def)
  moreover have "MIncr \<in> {MSet, MSetNx, MIncr, MDecr, MCount}" by blast
  ultimately show ?thesis by (rule bad_number_changes_nothing)
qed

text \<open>
\<open>SDIFF k k1 ... kn\<close> lists the members of \<open>k\<close> that are in none of the other sets; ending the
loop early on an empty intermediate result does not change the answer.
\<close>

lemma sdiff_reply:
  assumes "bw_ok w" and "mem_ok m" and "mem_sets m k = Some s" and "ks \<noteq> []"
  shows "\<exists>w'. stats_sdiff L (ABulk (k # ks)) (m, w) = (Ok (), m, w') \<and>
    bw_sent w' = bw_stream w @ enc_strings (gl_range L (s - (\<Union>j \<in> set ks. members_of m j)))"
proof -
  have "finite s" using mem_ok_members [OF assms(2), of k] assms(3) by (simp add: members_of_def)
  from sdiff_loop_eq [OF this, of ks m] have "stats_sdiff L (ABulk (k # ks)) (m, w) =
      flush_strings (gl_range L (s - (\<Union>j \<in> set ks. members_of m j))) (m, w)"
    using assms(3,4) by (cases ks) (simp_all add: stats_sdiff_def mem_smembers_def Let_def del: sdiff_loop.simps UN_insert UN_simps set_simps)
  then show ?thesis
    using flush_strings_replied [OF assms(1), of _ m] by (auto simp: replied_def)
qed

text \<open>
With two or more keys in the store, the reply of \<open>KEYS\<close> without a pattern cannot be read by
\<open>ReadInterface\<close>: after the first key it holds the line of an empty string.
\<close>

lemma keys_reply_unreadable:
  assumes "bw_ok w" and "mem_ok m" and "range_ok L" and "float_ok L"
    and "2 \<le> card (dom (mem_values m))" and "card (dom (mem_values m)) * 16 \<le> 2 ^ 48"
    and "\<forall>k \<in> dom (mem_values m). wire_ok L 128 (VString k)"
  shows "\<exists>w' reply r. stats_keys L (ABulk []) (m, w) = (Ok (), m, w') \<and>
    bw_sent w' = bw_stream w @ reply \<and> read_interface L (new_reader 128 reply) = (Err ErrReadRequest, r)"
proof -
  let ?D = "dom (mem_values m)"
  obtain j where n: "card ?D = Suc (Suc j)"
    using assms(5) by (metis Suc_le_D add_2_eq_Suc le_Suc_ex)
  have fin: "finite ?D" using assms(2) by (simp add: mem_ok_def)
  let ?k = "last (gl_range L ?D)" and ?reply = "enc_strings (last (gl_range L ?D) # replicate (Suc j) [])"
  from range_okD [OF assms(3) fin] n have ne: "gl_range L ?D \<noteq> []" by auto
  then have "?k \<in> ?D" using range_okD(2) [OF assms(3) fin] last_in_set by blast
  then have k: "decodes 128 (read_interface L) (enc_line CHR ''+'' ?k) (VString ?k)"
    using assms(4,7) value_decodes [of L 128 "VString ?k"] by simp
  have "mem_keys L [] m = Ok (?k # replicate (Suc j) [])"
    using n ne by (simp add: mem_keys_def Let_def foldl_update_head)
  then obtain w' where "stats_keys L (ABulk []) (m, w) = (Ok (), m, w')" "replied w ?reply w'"
    using flush_strings_replied [OF assms(1), of "?k # replicate (Suc j) []" m]
    by (auto simp: stats_keys_def)
  moreover have "\<exists>r. read_interface L (new_reader 128 ?reply) = (Err ErrReadRequest, r)"
    using read_array_fails [OF k read_empty_string [of L "concat (replicate j (enc_line CHR ''+'' []))"],
        of "Suc (Suc j)" j "?k # replicate (Suc j) []"] n assms(6)
    by (auto simp: enc_strings_def)
  ultimately show ?thesis by (auto simp: replied_def)
qed

end
