(* ===== verification/PubSub.thy ===== *)
theory PubSub
  imports Stats
begin

text \<open>
  \<open>backends/pubsub/pubsub_backend.go\<close>: topics and their subscribers.  A topic keeps the addresses of
  its subscribers and, separately, a \<open>size\<close> that decides whether \<open>publish\<close> looks at them.  A
  published message is sent by one goroutine per subscriber; the handler's result here is the list
  of these sends, which the server performs later and in any order.
\<close>

section \<open>Topics\<close>

record topic =
  tp_size :: int
  tp_clients :: "address set"

type_synonym topics = "bytes \<rightharpoonup> topic"

definition subscribe_one :: "address \<Rightarrow> topics \<Rightarrow> bytes \<Rightarrow> topics" where
  "subscribe_one addr topics key =
     (case topics key of
        Some topic \<Rightarrow>
          if addr \<notin> tp_clients topic then
            topics(key \<mapsto> topic\<lparr>tp_clients := insert addr (tp_clients topic), tp_size := tp_size topic + 1\<rparr>)
          else topics
      | None \<Rightarrow> topics(key \<mapsto> \<lparr>tp_size = 1, tp_clients = {addr}\<rparr>))"

definition ps_subscribe :: "'f args \<Rightarrow> address \<Rightarrow> topics \<Rightarrow> topics" where
  "ps_subscribe data addr topics =
     (let d = bulk_of data in if length d < 1 then topics else foldl (subscribe_one addr) topics d)"

definition unsubscribe_one :: "address \<Rightarrow> topics \<Rightarrow> bytes \<Rightarrow> topics" where
  "unsubscribe_one addr topics key =
     (case topics key of
        Some topic \<Rightarrow>
          if addr \<in> tp_clients topic then
            topics(key \<mapsto> topic\<lparr>tp_clients := tp_clients topic - {addr}, tp_size := tp_size topic - 1\<rparr>)
          else topics
      | None \<Rightarrow> topics)"

definition ps_unsubscribe :: "'f args \<Rightarrow> address \<Rightarrow> topics \<Rightarrow> topics" where
  "ps_unsubscribe data addr topics =
     (let d = bulk_of data in if length d < 1 then topics else foldl (unsubscribe_one addr) topics d)"

text \<open>
  The loop of \<open>publish\<close> over the subscribers: the clients that get the message, and the addresses
  that are no longer connected.  \<open>get_client\<close> is \<open>app.GetClient\<close>.
\<close>

fun publish_loop :: "(address \<rightharpoonup> 'c) \<Rightarrow> address list \<Rightarrow> 'c list \<times> address list" where
  "publish_loop get_client [] = ([], [])"
| "publish_loop get_client (c # cs) =
     (let (receivers, deletions) = publish_loop get_client cs in
      case get_client c of
        Some client \<Rightarrow> (client # receivers, deletions)
      | None \<Rightarrow> (receivers, c # deletions))"

definition ps_publish :: "'f golib \<Rightarrow> 'f args \<Rightarrow> (address \<rightharpoonup> 'c) \<Rightarrow> topics \<Rightarrow>
    topics \<times> ('c \<times> bytes list) list" where
  "ps_publish L data get_client topics =
     (let d = bulk_of data in
      if length d < 2 then (topics, [])
      else
        let key = d ! 0 in
        case topics key of
          None \<Rightarrow> (topics, [])
        | Some topic \<Rightarrow>
            if tp_size topic > 0 then
              (let (receivers, deletions) = publish_loop get_client (gl_range L (tp_clients topic))
               in (topics(key \<mapsto> topic\<lparr>tp_clients := tp_clients topic - set deletions\<rparr>),
                   map (\<lambda>c. (c, d)) receivers))
            else (topics, []))"

datatype pubsub_method = PPublish | PSubscribe | PUnsubscribe

text \<open>The registrations of \<open>RegisterBackend\<close>, in order.\<close>

definition pubsub_commands :: "(command \<times> pubsub_method) list" where
  "pubsub_commands =
    [(command ''PUBLISH'' ''Publishes to a specified topic given the data/arguments'' ''PUBLISH topic message'' True, PPublish),
     (command ''SUBSCRIBE'' ''Subscribes to a specified topic'' ''SUBSCRIBE topic [topic ...]'' True, PSubscribe),
     (command ''UNSUBSCRIBE'' ''Unsubscribes from a specified topic'' ''UNSUBSCRIBE topic [topic ...]'' True, PUnsubscribe)]"

section \<open>Subscriptions as a relation\<close>

text \<open>What the backend promises: a set of pairs of a topic and a subscriber.\<close>

definition subs :: "topics \<Rightarrow> (bytes \<times> address) set" where
  "subs topics = {(k, a). \<exists>t. topics k = Some t \<and> a \<in> tp_clients t}"

lemma subs_empty [simp]: "subs Map.empty = {}"
  by (simp add: subs_def)

lemma subs_subscribe_one: "subs (subscribe_one a topics k) = insert (k, a) (subs topics)"
  by (auto simp: subs_def subscribe_one_def split: option.splits if_splits)

lemma subs_unsubscribe_one: "subs (unsubscribe_one a topics k) = subs topics - {(k, a)}"
  by (auto simp: subs_def unsubscribe_one_def split: option.splits if_splits)

lemma subs_subscribes: "subs (foldl (subscribe_one a) topics d) = subs topics \<union> set d \<times> {a}"
  by (induction d arbitrary: topics) (auto simp: subs_subscribe_one)

lemma subs_unsubscribes: "subs (foldl (unsubscribe_one a) topics d) = subs topics - set d \<times> {a}"
  by (induction d arbitrary: topics) (auto simp: subs_unsubscribe_one)

text \<open>The contract of a subscription registry, and what a client may conclude from it.\<close>

locale subscriptions =
  fixes rel :: "'s \<Rightarrow> ('k \<times> 'a) set"
    and keys :: "'d \<Rightarrow> 'k set"
    and sub :: "'d \<Rightarrow> 'a \<Rightarrow> 's \<Rightarrow> 's"
    and unsub :: "'d \<Rightarrow> 'a \<Rightarrow> 's \<Rightarrow> 's"
  assumes rel_sub: "rel (sub d a s) = rel s \<union> keys d \<times> {a}"
    and rel_unsub: "rel (unsub d a s) = rel s - keys d \<times> {a}"
begin

lemma sub_unsub: "rel (unsub d a (sub d a s)) = rel s - keys d \<times> {a}"
  by (auto simp: rel_sub rel_unsub)

lemma sub_twice: "rel (sub d a (sub d a s)) = rel (sub d a s)"
  by (auto simp: rel_sub)

lemma others_unchanged:
  "b \<noteq> a \<Longrightarrow> (k, b) \<in> rel (sub d a s) \<longleftrightarrow> (k, b) \<in> rel s"
  "b \<noteq> a \<Longrightarrow> (k, b) \<in> rel (unsub d a s) \<longleftrightarrow> (k, b) \<in> rel s"
  by (auto simp: rel_sub rel_unsub)

end

lemma subs_ps_subscribe: "subs (ps_subscribe data a topics) = subs topics \<union> set (bulk_of data) \<times> {a}"
  by (cases "bulk_of data") (auto simp: ps_subscribe_def Let_def subs_subscribes subs_subscribe_one)

lemma subs_ps_unsubscribe: "subs (ps_unsubscribe data a topics) = subs topics - set (bulk_of data) \<times> {a}"
  by (cases "bulk_of data") (auto simp: ps_unsubscribe_def Let_def subs_unsubscribes subs_unsubscribe_one)

interpretation registry: subscriptions subs "\<lambda>d. set (bulk_of d)" ps_subscribe ps_unsubscribe
  by unfold_locales (simp_all add: subs_ps_subscribe subs_ps_unsubscribe)

section \<open>The size of a topic\<close>

text \<open>
  \<open>sizes_exact\<close> is what \<open>subscribe\<close> and \<open>unsubscribe\<close> keep; \<open>sizes_bound\<close> is the weaker invariant
  that \<open>publish\<close> keeps too, and which is enough for it never to skip a subscriber.
\<close>

definition sizes_exact :: "topics \<Rightarrow> bool" where
  "sizes_exact topics \<longleftrightarrow>
     (\<forall>k t. topics k = Some t \<longrightarrow> finite (tp_clients t) \<and> tp_size t = int (card (tp_clients t)))"

definition sizes_bound :: "topics \<Rightarrow> bool" where
  "sizes_bound topics \<longleftrightarrow>
     (\<forall>k t. topics k = Some t \<longrightarrow> finite (tp_clients t) \<and> int (card (tp_clients t)) \<le> tp_size t)"

lemma sizes_empty [simp]: "sizes_exact Map.empty" "sizes_bound Map.empty"
  by (simp_all add: sizes_exact_def sizes_bound_def)

lemma sizes_exact_bound: "sizes_exact topics \<Longrightarrow> sizes_bound topics"
  by (auto simp: sizes_exact_def sizes_bound_def)

lemma int_card_remove: "finite A \<Longrightarrow> a \<in> A \<Longrightarrow> int (card (A - {a})) = int (card A) - 1"
  using card.remove [of A a] by simp

lemma sizes_exact_one:
  assumes "sizes_exact topics"
  shows "sizes_exact (subscribe_one a topics k)" "sizes_exact (unsubscribe_one a topics k)"
  using assms
  by (auto simp: sizes_exact_def subscribe_one_def unsubscribe_one_def int_card_remove
      simp del: card_Diff_insert split: option.split)

lemma sizes_bound_one:
  assumes "sizes_bound topics"
  shows "sizes_bound (subscribe_one a topics k)" "sizes_bound (unsubscribe_one a topics k)"
  using assms
  by (auto simp: sizes_bound_def subscribe_one_def unsubscribe_one_def int_card_remove
      simp del: card_Diff_insert split: option.split) force

lemma sizes_exact_ops:
  assumes "sizes_exact topics"
  shows "sizes_exact (ps_subscribe data a topics)" "sizes_exact (ps_unsubscribe data a topics)"
  unfolding ps_subscribe_def ps_unsubscribe_def Let_def
  using assms foldl_invariant [of sizes_exact topics _ "subscribe_one a"]
    foldl_invariant [of sizes_exact topics _ "unsubscribe_one a"] sizes_exact_one
  by auto

lemma sizes_bound_ops:
  assumes "sizes_bound topics"
  shows "sizes_bound (ps_subscribe data a topics)" "sizes_bound (ps_unsubscribe data a topics)"
  unfolding ps_subscribe_def ps_unsubscribe_def Let_def
  using assms foldl_invariant [of sizes_bound topics _ "subscribe_one a"]
    foldl_invariant [of sizes_bound topics _ "unsubscribe_one a"] sizes_bound_one
  by auto

lemma publish_loop_eq:
  "publish_loop get cs = (map (\<lambda>c. the (get c)) (filter (\<lambda>c. get c \<noteq> None) cs), filter (\<lambda>c. get c = None) cs)"
  by (induction cs) (auto split: option.split)

lemma sizes_bound_publish:
  "sizes_bound topics \<Longrightarrow> sizes_bound (fst (ps_publish L data get topics))"
proof -
  assume b: "sizes_bound topics"
  have "card (A - B) \<le> card A" if "finite A" for A B :: "address set"
    using that by (simp add: card_mono)
  then have "int (card (A - B)) \<le> n" if "finite A" "int (card A) \<le> n" for A B :: "address set" and n
    using that by (meson of_nat_le_iff order_trans)
  with b show ?thesis
    by (auto simp: ps_publish_def sizes_bound_def Let_def split: option.split prod.split)
qed

text \<open>A topic with a subscriber has a positive size, so \<open>publish\<close> does look at it.\<close>

lemma sizes_bound_positive:
  "sizes_bound topics \<Longrightarrow> topics k = Some t \<Longrightarrow> a \<in> tp_clients t \<Longrightarrow> 0 < tp_size t"
  by (metis card_gt_0_iff empty_iff of_nat_0_less_iff order_less_le_trans sizes_bound_def)

lemma publish_found:
  assumes "range_ok L" and "sizes_bound topics" and "topics k = Some t" and "rest \<noteq> []" and "tp_clients t \<noteq> {}"
  shows "ps_publish L (ABulk (k # rest)) get topics =
    (topics(k \<mapsto> t\<lparr>tp_clients := {a \<in> tp_clients t. get a \<noteq> None}\<rparr>),
     map (\<lambda>a. (the (get a), k # rest)) (filter (\<lambda>a. get a \<noteq> None) (gl_range L (tp_clients t))))"
proof -
  have fin: "finite (tp_clients t)" using assms(2,3) by (auto simp: sizes_bound_def)
  have "0 < tp_size t" using sizes_bound_positive [OF assms(2,3)] assms(5) by blast
  moreover have "tp_clients t - {a \<in> tp_clients t. get a = None} = {a \<in> tp_clients t. get a \<noteq> None}" by auto
  moreover have "\<not> length (k # rest) < 2" using assms(4) by (cases rest) auto
  ultimately show ?thesis
    using assms(3) range_okD(2) [OF assms(1) fin]
    by (simp add: ps_publish_def publish_loop_eq comp_def)
qed


section \<open>Properties\<close>

text \<open>
C27. \<open>subscribe\<close> and \<open>unsubscribe\<close> implement the subscription relation: subscribing adds exactly the
pairs of the caller with the named topics, unsubscribing removes exactly them, subscribing twice
is subscribing once, and the subscriptions of other clients never change.
\<close>

theorem pubsub_refines_relation:
  "subs (ps_subscribe data a topics) = subs topics \<union> set (bulk_of data) \<times> {a} \<and>
   subs (ps_unsubscribe data a topics) = subs topics - set (bulk_of data) \<times> {a} \<and>
   subs (ps_unsubscribe data a (ps_subscribe data a topics)) = subs topics - set (bulk_of data) \<times> {a} \<and>
   subs (ps_subscribe data a (ps_subscribe data a topics)) = subs (ps_subscribe data a topics)"
  by (intro conjI registry.rel_sub registry.rel_unsub registry.sub_unsub registry.sub_twice)

text \<open>
C11. A message published on a topic goes to every connected subscriber of it and to nobody else,
once each, with the topic as its first part; the subscribers that are no longer connected are
dropped from this topic, all other subscriptions stay.
\<close>

theorem publish_delivers:
  assumes "range_ok L" and "sizes_bound topics" and "rest \<noteq> []"
    and "ps_publish L (ABulk (k # rest)) get topics = (topics', sent)"
  shows "set sent = {(c, k # rest) | c. \<exists>a. (k, a) \<in> subs topics \<and> get a = Some c} \<and>
    length sent = card {a. (k, a) \<in> subs topics \<and> get a \<noteq> None} \<and>
    subs topics' = subs topics - {(k, a) | a. get a = None}"
proof (cases "\<exists>t. topics k = Some t \<and> tp_clients t \<noteq> {}")
  case True
  then obtain t where t: "topics k = Some t" "tp_clients t \<noteq> {}" by blast
  let ?as = "filter (\<lambda>a. get a \<noteq> None) (gl_range L (tp_clients t))"
  have fin: "finite (tp_clients t)" using assms(2) t by (auto simp: sizes_bound_def)
  note rng = range_okD [OF assms(1) fin]
  from publish_found [OF assms(1,2) t(1) assms(3) t(2), of get] assms(4)
  have sent: "sent = map (\<lambda>a. (the (get a), k # rest)) ?as"
    and top: "topics' = topics(k \<mapsto> t\<lparr>tp_clients := {a \<in> tp_clients t. get a \<noteq> None}\<rparr>)" by auto
  have as: "set ?as = {a. (k, a) \<in> subs topics \<and> get a \<noteq> None}" "distinct ?as"
    using rng t by (auto simp: subs_def)
  then have "length sent = card {a. (k, a) \<in> subs topics \<and> get a \<noteq> None}"
    by (simp only: sent length_map distinct_card [symmetric])
  moreover have "set sent = {(c, k # rest) | c. \<exists>a. (k, a) \<in> subs topics \<and> get a = Some c}"
    unfolding sent set_map as(1) by force
  ultimately show ?thesis using t top by (auto simp: subs_def split: if_splits)
next
  case False
  then have none: "(k, a) \<notin> subs topics" for a by (auto simp: subs_def)
  have "sent = [] \<and> subs topics' = subs topics"
  proof (cases "topics k")
    case (Some t)
    with False have e: "tp_clients t = {}" by auto
    have "gl_range L {} = []" using range_okD(2) [OF assms(1), of "{}"] by simp
    then show ?thesis using assms(4) Some e
      by (auto simp: ps_publish_def subs_def Let_def split: if_splits)
  qed (use assms(4) in \<open>auto simp: ps_publish_def Let_def split: if_splits\<close>)
  with none show ?thesis by auto
qed

theorem publish_delivers_witness:
  "snd (ps_publish plain_lib (ABulk [''news'', ''hi'']) [''a'' \<mapsto> (7 :: nat)]
      (ps_subscribe (ABulk [''news''] :: int64 args) ''a'' Map.empty)) = [(7, [''news'', ''hi''])]"
proof -
  let ?T = "ps_subscribe (ABulk [''news''] :: int64 args) ''a'' Map.empty"
  let ?r = "ps_publish plain_lib (ABulk (''news'' # [''hi''])) [''a'' \<mapsto> (7 :: nat)] ?T"
  have s: "subs ?T = {(''news'', ''a'')}" by (simp add: registry.rel_sub)
  have "sizes_bound ?T" by (intro sizes_bound_ops sizes_empty)
  from publish_delivers [OF plain_lib_range_ok this, of "[''hi'']" "''news''" "[''a'' \<mapsto> 7]" "fst ?r" "snd ?r"]
  have "set (snd ?r) = {(7, [''news'', ''hi''])}" "length (snd ?r) = card {''a''}"
    unfolding s by (auto split: if_splits)
  then show ?thesis by (cases "snd ?r") auto
qed

text \<open>
As long as nothing is published, the size of every topic is the number of its subscribers.  A
\<open>publish\<close> that meets a disconnected subscriber removes it without adjusting the size, which then
stays too large.
\<close>

lemma publish_size_drift:
  assumes "range_ok L" and "sizes_exact topics" and "topics k = Some t" and "a \<in> tp_clients t"
    and "get a = None" and "rest \<noteq> []"
  shows "sizes_exact (ps_subscribe data b topics) \<and> sizes_exact (ps_unsubscribe data b topics) \<and>
    (\<exists>t'. fst (ps_publish L (ABulk (k # rest)) get topics) k = Some t' \<and>
       int (card (tp_clients t')) < tp_size t')"
proof -
  have "tp_clients t \<noteq> {}" using assms(4) by blast
  note pub = publish_found [OF assms(1) sizes_exact_bound [OF assms(2)] assms(3,6) this, of get]
  have fin: "finite (tp_clients t)" and sz: "tp_size t = int (card (tp_clients t))"
    using assms(2,3) by (auto simp: sizes_exact_def)
  have "a \<notin> {x \<in> tp_clients t. get x \<noteq> None}" using assms(5) by simp
  then have "{x \<in> tp_clients t. get x \<noteq> None} \<subset> tp_clients t" using assms(4) by blast
  from psubset_card_mono [OF fin this] show ?thesis
    using sz by (simp add: pub sizes_exact_ops assms(2))
qed

end
