(* ===== verification/BDefault.thy ===== *)
theory BDefault
  imports Stats
begin

text \<open>
  \<open>backends/bdefault/backend.go\<close>: \<open>PING\<close>, \<open>ECHO\<close>, \<open>INFO\<close> and \<open>CMDS\<close>.  They only write to the calling
  client, so each is a function on its writer (and on the server's context for the last two).  The
  line that \<open>echo\<close> prints on the server's own terminal is left out.
\<close>

section \<open>Handlers\<close>

definition bd_pong :: bytes where
  "bd_pong = ''PONG''"

definition bd_ping :: "bufwriter \<Rightarrow> unit res \<times> bufwriter" where
  "bd_ping w = (Ok (), snd (bw_flush (snd (write_string bd_pong w))))"

text \<open>The structs as the values that \<open>WriteJson\<close> marshals.\<close>

definition status_value :: "'f server_status \<Rightarrow> 'f gval" where
  "status_value s =
     VMap [(''NumGoroutines'', VInt (st_num_goroutines s)), (''NumCpu'', VInt (st_num_cpu s)),
           (''NumCgoCall'', VInt64 (st_num_cgo_call s)), (''Memory'', st_memory s),
           (''NumClients'', VInt (word_of_int (st_num_clients s)))]"

definition command_value :: "command \<Rightarrow> 'f gval" where
  "command_value c =
     VMap [(''Name'', VString (cmd_name c)), (''Description'', VString (cmd_description c)),
           (''Usage'', VString (cmd_usage c)), (''FireForget'', VBool (cmd_fire_forget c))]"

definition help_value :: "'f golib \<Rightarrow> (bytes \<rightharpoonup> command) \<Rightarrow> 'f gval" where
  "help_value L help = VMap (map (\<lambda>k. (k, command_value (the (help k)))) (gl_range L (dom help)))"

definition bd_info :: "'f golib \<Rightarrow> 'f runtime \<Rightarrow> 'h bcontext \<Rightarrow> bufwriter \<Rightarrow> unit res \<times> bufwriter" where
  "bd_info L rt ctx w =
     (let status = ctx_status rt ctx
      in (Ok (), snd (bw_flush (snd (write_json L (status_value status) w)))))"

definition bd_help :: "'f golib \<Rightarrow> 'h bcontext \<Rightarrow> bufwriter \<Rightarrow> unit res \<times> bufwriter" where
  "bd_help L ctx w =
     (let help = ctx_help_map ctx
      in (Ok (), snd (bw_flush (snd (write_json L (help_value L help) w)))))"

text \<open>What \<open>echo\<close> writes before it flushes, on each of its branches.\<close>

fun echo_write :: "'f golib \<Rightarrow> 'f args \<Rightarrow> bufwriter \<Rightarrow> gerr option \<times> bufwriter" where
  "echo_write L (AIface d) =
     (if length d = 0 then write_string []
      else if length d = 1 then write_interface L (d ! 0)
      else write_array L d)"
| "echo_write L (ABulk b) =
     (if length b = 0 then write_string []
      else if length b = 1 then write_string (b ! 0)
      else write_string (join '' '' b))"

definition bd_echo :: "'f golib \<Rightarrow> 'f args \<Rightarrow> bufwriter \<Rightarrow> unit res \<times> bufwriter" where
  "bd_echo L data w = (Ok (), snd (bw_flush (snd (echo_write L data w))))"

datatype bdefault_method = BPing | BEcho | BInfo | BHelp

fun bdefault_run :: "bdefault_method \<Rightarrow> 'f golib \<Rightarrow> 'f runtime \<Rightarrow> 'h bcontext \<Rightarrow> 'f args \<Rightarrow> bufwriter \<Rightarrow>
    unit res \<times> bufwriter" where
  "bdefault_run BPing L rt ctx data w = bd_ping w"
| "bdefault_run BEcho L rt ctx data w = bd_echo L data w"
| "bdefault_run BInfo L rt ctx data w = bd_info L rt ctx w"
| "bdefault_run BHelp L rt ctx data w = bd_help L ctx w"

definition quote_char :: char where
  "quote_char = CHR 0x22"

text \<open>The registrations of \<open>RegisterBackend\<close>, in order.\<close>

definition bdefault_commands :: "(command \<times> bdefault_method) list" where
  "bdefault_commands =
    [(command ''PING'' ''Pings the server for a response'' '''' False, BPing),
     (command ''ECHO'' ''Echos back a message sent'' (''ECHO '' @ quote_char # ''hello world'' @ [quote_char]) False, BEcho),
     (command ''INFO'' ''Current server status and information'' '''' False, BInfo),
     (command ''CMDS'' ''List of available commands supported by the server'' '''' False, BHelp)]"

section \<open>What they write\<close>

definition enc_echo :: "'f golib \<Rightarrow> 'f args \<Rightarrow> bytes" where
  "enc_echo L data =
     (case data of
        AIface [] \<Rightarrow> enc_line CHR ''+'' []
      | AIface [v] \<Rightarrow> enc_value L v
      | AIface vs \<Rightarrow> enc_array L vs
      | ABulk b \<Rightarrow> enc_line CHR ''+'' (join '' '' b))"

lemma emits_echo: "emits (echo_write L data) (enc_echo L data)"
proof (cases data)
  case (AIface d)
  consider "d = []" | v where "d = [v]" | v u vs where "d = v # u # vs" by (metis list.exhaust)
  then show ?thesis using AIface
    by cases (simp_all add: enc_echo_def emits_client_string emits_client_interface emits_client_array)
next
  case (ABulk b)
  consider "b = []" | v where "b = [v]" | v u vs where "b = v # u # vs" by (metis list.exhaust)
  then show ?thesis using ABulk by cases (simp_all add: enc_echo_def emits_client_string)
qed

text \<open>Every handler of the default backend answers with a flushed reply and returns nil.\<close>

lemma bdefault_run_replied:
  assumes "bw_ok w"
  shows "\<exists>b w'. bdefault_run h L rt ctx data w = (Ok (), w') \<and> replied w b w'"
proof (cases h)
  case BPing
  then show ?thesis using replied_flush [OF emits_client_string assms] by (auto simp: bd_ping_def)
next
  case BEcho
  then show ?thesis using replied_flush [OF emits_echo assms] by (auto simp: bd_echo_def)
next
  case BInfo
  then show ?thesis using json_replied [OF assms] by (auto simp: bd_info_def Let_def)
next
  case BHelp
  then show ?thesis using json_replied [OF assms] by (auto simp: bd_help_def Let_def)
qed

section \<open>Properties\<close>

text \<open>
\<open>ECHO\<close> gives back what it was sent.  Over the interface protocol one argument comes back as it
reads back, several come back as an array of them; over the redis and line protocols the arguments
come back as one string, joined by single blanks.
\<close>

lemma echo_roundtrip:
  assumes "float_ok L" and "bw_ok w" and "vs \<noteq> []" and "\<forall>v \<in> set vs. wire_ok L 128 v"
    and "length vs * 16 \<le> 2 ^ 48" and "wire_ok L 128 (VString (join '' '' bs))"
  shows "\<exists>w1 reply1 w2 reply2.
    bd_echo L (AIface vs) w = (Ok (), w1) \<and> bw_sent w1 = bw_stream w @ reply1 \<and>
    fst (read_interface L (new_reader 128 reply1)) =
      Ok (if length vs = 1 then readback L (vs ! 0) else VArray (map (readback L) vs)) \<and>
    bd_echo L (ABulk bs) w = (Ok (), w2) \<and> bw_sent w2 = bw_stream w @ reply2 \<and>
    fst (read_interface L (new_reader 128 reply2)) = Ok (VString (join '' '' bs))"
proof -
  have read: "decodes 128 (read_interface L) b v \<Longrightarrow> fst (read_interface L (new_reader 128 b)) = Ok v" for b v
    using decodes_new_reader [of "read_interface L" b v "[]"] by simp
  have "decodes 128 (read_interface L) (enc_echo L (AIface vs))
      (if length vs = 1 then readback L (vs ! 0) else VArray (map (readback L) vs))"
  proof -
    consider v where "vs = [v]" | v u us where "vs = v # u # us" using assms(3) by (metis list.exhaust)
    then show ?thesis using assms(1,4,5) value_decodes [of L 128] array_decodes [of L 128 vs]
      by cases (auto simp: enc_echo_def)
  qed
  moreover have "decodes 128 (read_interface L) (enc_echo L (ABulk bs)) (VString (join '' '' bs))"
    using value_decodes [OF assms(1) _ assms(6)] by (simp add: enc_echo_def)
  ultimately show ?thesis
    using replied_flush [OF emits_echo assms(2), of L "AIface vs"]
      replied_flush [OF emits_echo assms(2), of L "ABulk bs"] read
    by (fastforce simp: bd_echo_def replied_def)
qed

end
