(* ===== verification/World.thy ===== *)
theory World
  imports PubSub BDefault
begin

text \<open>
  The state of a running server: the \<open>BroadcastServer\<close> of \<open>server/server.go\<close>, the backends it has
  loaded, and the network clients it has accepted.  Clients are shared objects (the server's map,
  the run loops and the goroutines of \<open>publish\<close> all hold pointers to them), so they live in a store
  and are named by their location there.
\<close>

section \<open>State\<close>

datatype backend = DefaultBackend | StatsBackend | PubSubBackend

text \<open>The method values that the backends register as handlers.\<close>

datatype handler_method = DefaultM bdefault_method | StatsM stats_method | PubSubM pubsub_method

datatype protocol = PInterface | PRedis | PLine

type_synonym loc = nat

record 'f server =
  app_port :: int64
  app_addr :: address
  app_bit :: bytes
  app_pid :: int64
  app_name :: bytes
  app_version :: bytes
  app_header :: bytes
  app_protocol :: protocol
  app_ctx :: "handler_method bcontext"
  app_clients :: "address \<rightharpoonup> loc"
  app_backends :: "backend list"
  app_closed :: bool
  app_listening :: bool                         \<comment> \<open>the listener is open\<close>
  app_quit :: bool                              \<comment> \<open>the channel \<open>Quit\<close> has been closed\<close>
  heap :: "loc \<rightharpoonup> netclient"                      \<comment> \<open>the client objects\<close>
  stats_mem :: "'f mem"                         \<comment> \<open>\<open>StatsBackend.mem\<close>\<close>
  stats_ticking :: bool                         \<comment> \<open>the goroutine of \<open>StatsBackend.Load\<close> runs\<close>
  pubsub_topics :: topics                       \<comment> \<open>\<open>PubSubBackend.topics\<close>\<close>
  pending :: "(loc \<times> bytes list) list"          \<comment> \<open>goroutines of \<open>publish\<close> that have not run yet\<close>
  runtime_info :: "'f runtime"                  \<comment> \<open>what packages \<open>runtime\<close> and \<open>os\<close> would report\<close>

definition put_writer :: "loc \<Rightarrow> bufwriter \<Rightarrow> 'f server \<Rightarrow> 'f server" where
  "put_writer c w s =
     s\<lparr>heap := (heap s)(c := map_option (\<lambda>n. n\<lparr>nc_writer := w\<rparr>) (heap s c))\<rparr>"

text \<open>Calls of write methods on a client, ignoring the error they return.\<close>

definition client_write :: "loc \<Rightarrow> (bufwriter \<Rightarrow> gerr option \<times> bufwriter) \<Rightarrow> 'f server \<Rightarrow> 'f server" where
  "client_write c f s =
     (case heap s c of None \<Rightarrow> s | Some n \<Rightarrow> put_writer c (snd (f (nc_writer n))) s)"

text \<open>A call of a read method on a client.\<close>

definition client_read :: "loc \<Rightarrow> 'a rd \<Rightarrow> 'f server \<Rightarrow> 'a res \<times> 'f server" where
  "client_read c m s =
     (case heap s c of
        None \<Rightarrow> (Err EOF, s)
      | Some n \<Rightarrow>
          (case m (nc_reader n) of
             (x, r) \<Rightarrow> (x, s\<lparr>heap := (heap s)(c \<mapsto> n\<lparr>nc_reader := r\<rparr>)\<rparr>)))"

definition app_event :: "bytes \<Rightarrow> bytes \<Rightarrow> gerr option \<Rightarrow> 'f server \<Rightarrow> 'f server" where
  "app_event level message err s = s\<lparr>app_ctx := emit_event (event level message err) (app_ctx s)\<rparr>"

section \<open>Calling a handler\<close>

text \<open>
  \<open>handler(data, client)\<close> for the client at location \<open>c\<close>.
\<close>

fun run_method :: "'f golib \<Rightarrow> handler_method \<Rightarrow> 'f args \<Rightarrow> loc \<Rightarrow> 'f server \<Rightarrow> unit res \<times> 'f server" where
  "run_method L (DefaultM h) data c s =
     (case heap s c of
        None \<Rightarrow> (Ok (), s)
      | Some n \<Rightarrow>
          (case bdefault_run h L (runtime_info s) (app_ctx s) data (nc_writer n) of
             (r, w) \<Rightarrow> (r, put_writer c w s)))"
| "run_method L (StatsM h) data c s =
     (case heap s c of
        None \<Rightarrow> (Ok (), s)
      | Some n \<Rightarrow>
          (case stats_run h L data (stats_mem s, nc_writer n) of
             (r, m, w) \<Rightarrow> (r, put_writer c w (s\<lparr>stats_mem := m\<rparr>))))"
| "run_method L (PubSubM PPublish) data c s =
     (case ps_publish L data (app_clients s) (pubsub_topics s) of
        (topics, sends) \<Rightarrow> (Ok (), s\<lparr>pubsub_topics := topics, pending := pending s @ sends\<rparr>))"
| "run_method L (PubSubM PSubscribe) data c s =
     (case heap s c of
        None \<Rightarrow> (Ok (), s)
      | Some n \<Rightarrow> (Ok (), s\<lparr>pubsub_topics := ps_subscribe data (nc_address n) (pubsub_topics s)\<rparr>))"
| "run_method L (PubSubM PUnsubscribe) data c s =
     (case heap s c of
        None \<Rightarrow> (Ok (), s)
      | Some n \<Rightarrow> (Ok (), s\<lparr>pubsub_topics := ps_unsubscribe data (nc_address n) (pubsub_topics s)\<rparr>))"

text \<open>
  The goroutine of \<open>publish\<close> for one receiver: \<open>sClient.WriteBulk(d); sClient.Flush()\<close>, run without another
  goroutine writing to the same client in between, although the writer has no lock.
\<close>

definition deliver :: "loc \<Rightarrow> bytes list \<Rightarrow> 'f server \<Rightarrow> 'f server" where
  "deliver c d s = client_write c (seqw (write_bulk d) bw_flush) s"

section \<open>The unread input of a client\<close>

definition set_input :: "loc \<Rightarrow> bytes \<Rightarrow> 'f server \<Rightarrow> 'f server" where
  "set_input c b s =
     s\<lparr>heap := (heap s)(c := map_option (\<lambda>n. n\<lparr>nc_reader := (nc_reader n)\<lparr>br_in := b\<rparr>\<rparr>) (heap s c))\<rparr>"

definition input_left :: "loc \<Rightarrow> 'f server \<Rightarrow> nat" where
  "input_left c s = (case heap s c of None \<Rightarrow> 0 | Some n \<Rightarrow> length (br_in (nc_reader n)))"

text \<open>
  \<open>input_blind f c\<close>: \<open>f\<close> neither looks at the unread input of \<open>c\<close> nor changes it.  Everything but a
  read is like that.
\<close>

definition input_blind :: "('f server \<Rightarrow> 'a \<times> 'f server) \<Rightarrow> loc \<Rightarrow> bool" where
  "input_blind f c \<longleftrightarrow> (\<forall>b s. f (set_input c b s) = apsnd (set_input c b) (f s))"

lemma set_input_heap:
  "heap (set_input c b s) d =
     (if d = c then map_option (\<lambda>n. n\<lparr>nc_reader := (nc_reader n)\<lparr>br_in := b\<rparr>\<rparr>) (heap s c) else heap s d)"
  by (simp add: set_input_def)

lemma set_input_twice [simp]: "set_input c a (set_input c b s) = set_input c a s"
  by (cases "heap s c") (simp_all add: set_input_def comp_def)

lemma set_input_other [simp]:
  "app_ctx (set_input c b s) = app_ctx s" "app_clients (set_input c b s) = app_clients s"
  "stats_mem (set_input c b s) = stats_mem s" "pubsub_topics (set_input c b s) = pubsub_topics s"
  "pending (set_input c b s) = pending s" "runtime_info (set_input c b s) = runtime_info s"
  "app_protocol (set_input c b s) = app_protocol s"
  by (simp_all add: set_input_def)

lemma set_input_commute [simp]:
  "(set_input c b s)\<lparr>stats_mem := m\<rparr> = set_input c b (s\<lparr>stats_mem := m\<rparr>)"
  "(set_input c b s)\<lparr>pubsub_topics := t\<rparr> = set_input c b (s\<lparr>pubsub_topics := t\<rparr>)"
  "(set_input c b s)\<lparr>pending := p\<rparr> = set_input c b (s\<lparr>pending := p\<rparr>)"
  "(set_input c b s)\<lparr>app_ctx := x\<rparr> = set_input c b (s\<lparr>app_ctx := x\<rparr>)"
  by (simp_all add: set_input_def)

lemma reader_writer_commute: "n\<lparr>nc_reader := r, nc_writer := w\<rparr> = n\<lparr>nc_writer := w, nc_reader := r\<rparr>"
  by (cases n) simp

lemma set_input_put_writer: "put_writer d w (set_input c b s) = set_input c b (put_writer d w s)"
  by (cases "heap s c"; cases "heap s d") (auto simp: set_input_def put_writer_def reader_writer_commute fun_upd_twist)

lemma set_input_client_write: "client_write d f (set_input c b s) = set_input c b (client_write d f s)"
  by (cases "heap s d") (auto simp: client_write_def set_input_heap set_input_put_writer)

lemma set_input_event: "app_event l m e (set_input c b s) = set_input c b (app_event l m e s)"
  by (simp add: app_event_def)

lemma run_method_blind: "input_blind (run_method L h data d) c"
  unfolding input_blind_def
proof (intro allI)
  fix b s
  show "run_method L h data d (set_input c b s) = apsnd (set_input c b) (run_method L h data d s)"
  proof (cases h)
    case (PubSubM p)
    then show ?thesis
      by (cases p; cases "heap s d") (auto simp: set_input_heap nc_address_def split: prod.split)
  qed (cases "heap s d"; auto simp: set_input_heap set_input_put_writer split: prod.split)+
qed

section \<open>What a handler leaves alone\<close>

text \<open>
  \<open>only_writers s s'\<close>: the client objects differ at most in their writers.  \<open>same_app s s'\<close>: the
  server's own fields and its context are the same.
\<close>

definition only_writers :: "'f server \<Rightarrow> 'f server \<Rightarrow> bool" where
  "only_writers s s' \<longleftrightarrow> (\<forall>c. \<exists>w. heap s' c = map_option (\<lambda>n. n\<lparr>nc_writer := w\<rparr>) (heap s c))"

definition same_app :: "'f server \<Rightarrow> 'f server \<Rightarrow> bool" where
  "same_app s s' \<longleftrightarrow>
     app_clients s' = app_clients s \<and> app_closed s' = app_closed s \<and> app_listening s' = app_listening s \<and>
     app_quit s' = app_quit s \<and> app_backends s' = app_backends s \<and> app_addr s' = app_addr s \<and>
     app_protocol s' = app_protocol s \<and> stats_ticking s' = stats_ticking s \<and>
     ctx_commands (app_ctx s') = ctx_commands (app_ctx s) \<and> ctx_help (app_ctx s') = ctx_help (app_ctx s) \<and>
     ctx_client_size (app_ctx s') = ctx_client_size (app_ctx s)"

lemma same_writer [simp]: "map_option (\<lambda>n. n\<lparr>nc_writer := nc_writer n\<rparr>) x = x"
  by (cases x) auto

lemma only_writers_heap: "heap s' = heap s \<Longrightarrow> only_writers s s'"
  unfolding only_writers_def
proof
  fix c assume "heap s' = heap s"
  then have "heap s' c = map_option (\<lambda>n. n\<lparr>nc_writer := nc_writer (the (heap s c))\<rparr>) (heap s c)"
    by (cases "heap s c") auto
  then show "\<exists>w. heap s' c = map_option (\<lambda>n. n\<lparr>nc_writer := w\<rparr>) (heap s c)" by blast
qed

lemma only_writers_refl [simp]: "only_writers s s"
  by (rule only_writers_heap) simp

lemma only_writers_trans:
  assumes "only_writers s t" and "only_writers t u"
  shows "only_writers s u"
  unfolding only_writers_def
proof
  fix c
  from assms obtain v w where "heap t c = map_option (\<lambda>n. n\<lparr>nc_writer := v\<rparr>) (heap s c)"
    and "heap u c = map_option (\<lambda>n. n\<lparr>nc_writer := w\<rparr>) (heap t c)"
    unfolding only_writers_def by meson
  then have "heap u c = map_option (\<lambda>n. n\<lparr>nc_writer := w\<rparr>) (heap s c)"
    by (cases "heap s c") auto
  then show "\<exists>w. heap u c = map_option (\<lambda>n. n\<lparr>nc_writer := w\<rparr>) (heap s c)" by blast
qed

lemma only_writers_put: "only_writers s (put_writer c w s)"
proof -
  have "\<exists>v. heap s d = map_option (\<lambda>n. n\<lparr>nc_writer := v\<rparr>) (heap s d)" for d
    using only_writers_refl [of s] unfolding only_writers_def by blast
  then show ?thesis by (auto simp: only_writers_def put_writer_def)
qed

lemma only_writers_update [simp]:
  "only_writers s (t\<lparr>stats_mem := m\<rparr>) = only_writers s t"
  "only_writers s (t\<lparr>pubsub_topics := p\<rparr>) = only_writers s t"
  "only_writers s (t\<lparr>pending := q\<rparr>) = only_writers s t"
  "only_writers s (t\<lparr>app_ctx := x\<rparr>) = only_writers s t"
  "only_writers (s\<lparr>stats_mem := m\<rparr>) t = only_writers s t"
  by (simp_all add: only_writers_def)

lemma only_writers_write: "only_writers s (client_write c f s)"
  by (simp add: client_write_def only_writers_put split: option.split)

lemma only_writers_event: "only_writers s (app_event l m e s)"
  by (simp add: app_event_def)

lemma same_app_refl [simp]: "same_app s s"
  by (simp add: same_app_def)

lemma same_app_trans: "same_app s t \<Longrightarrow> same_app t u \<Longrightarrow> same_app s u"
  by (simp add: same_app_def)

lemma same_app_put [simp]: "same_app s (put_writer c w t) = same_app s t"
  by (simp add: same_app_def put_writer_def)

lemma same_app_update [simp]:
  "same_app s (t\<lparr>stats_mem := m\<rparr>) = same_app s t" "same_app s (t\<lparr>pubsub_topics := p\<rparr>) = same_app s t"
  "same_app s (t\<lparr>pending := q\<rparr>) = same_app s t"
  by (simp_all add: same_app_def)

lemma same_app_write [simp]: "same_app s (client_write c f t) = same_app s t"
  by (simp add: client_write_def split: option.split)

lemma same_app_event [simp]: "same_app s (app_event l m e t) = same_app s t"
  by (simp add: same_app_def app_event_def emit_event_def)

lemma run_method_frame:
  "only_writers s (snd (run_method L h data c s))" "same_app s (snd (run_method L h data c s))"
proof -
  have put: "only_writers s (put_writer c w (s\<lparr>stats_mem := m\<rparr>))" for w m
    using only_writers_put [of "s\<lparr>stats_mem := m\<rparr>" c w] by simp
  show "only_writers s (snd (run_method L h data c s))"
  proof (cases h)
    case (PubSubM p)
    then show ?thesis by (cases p) (auto split: option.split prod.split)
  qed (auto intro: only_writers_put put split: option.split prod.split)
  show "same_app s (snd (run_method L h data c s))"
  proof (cases h)
    case (PubSubM p)
    then show ?thesis by (cases p) (auto split: option.split prod.split)
  qed (auto split: option.split prod.split)
qed


section \<open>Handlers keep the backends well formed and do not panic\<close>

definition backends_ok :: "'f server \<Rightarrow> bool" where
  "backends_ok s \<longleftrightarrow> mem_ok (stats_mem s) \<and> sizes_bound (pubsub_topics s)"

lemma backends_ok_update [simp]:
  "backends_ok (put_writer c w s) = backends_ok s" "backends_ok (s\<lparr>pending := p\<rparr>) = backends_ok s"
  "backends_ok (s\<lparr>app_ctx := x\<rparr>) = backends_ok s" "backends_ok (s\<lparr>heap := h\<rparr>) = backends_ok s"
  "backends_ok (app_event l m e s) = backends_ok s"
  by (simp_all add: backends_ok_def put_writer_def app_event_def)

lemma backends_ok_write [simp]: "backends_ok (client_write c f s) = backends_ok s"
  by (simp add: client_write_def split: option.split)

lemma run_method_backends_ok:
  assumes "backends_ok s"
  shows "backends_ok (snd (run_method L h data c s))"
proof (cases h)
  case (StatsM m)
  show ?thesis
  proof (cases "heap s c")
    case (Some n)
    obtain r t w where t: "stats_run m L data (stats_mem s, nc_writer n) = (r, t, w)"
      by (metis prod_cases3)
    with stats_run_any(1) [of m L data "stats_mem s" "nc_writer n"] assms have "mem_ok t"
      by (auto simp: backends_ok_def mem_execs_ok)
    with t Some StatsM assms show ?thesis by (simp add: backends_ok_def put_writer_def)
  qed (use assms StatsM in simp)
next
  case (PubSubM p)
  show ?thesis
  proof (cases p)
    case PPublish
    obtain t q where "ps_publish L data (app_clients s) (pubsub_topics s) = (t, q)" by fastforce
    moreover from this have "sizes_bound t"
      using sizes_bound_publish [of "pubsub_topics s" L data "app_clients s"] assms
      by (simp add: backends_ok_def)
    ultimately show ?thesis using assms PubSubM PPublish by (simp add: backends_ok_def)
  qed (use assms PubSubM in \<open>auto simp: backends_ok_def sizes_bound_ops split: option.split\<close>)
qed (use assms in \<open>auto split: option.split prod.split\<close>)

lemma run_method_no_panic: "fst (run_method L h data c s) \<noteq> Panic p"
proof (cases h)
  case (DefaultM m)
  then show ?thesis
    by (cases m) (simp_all add: bd_ping_def bd_echo_def bd_info_def bd_help_def Let_def split: option.split)
next
  case (StatsM m)
  then show ?thesis using stats_run_any(2) [of m L data]
    by (auto split: option.split prod.split) (metis fst_conv)
next
  case (PubSubM m)
  then show ?thesis by (cases m) (simp_all split: option.split prod.split)
qed

end
