(* ===== verification/Protocols.thy ===== *)
theory Protocols
  imports World
begin

text \<open>
  The three protocols: \<open>server/protocol.go\<close> (\<open>interface\<close>), \<open>protocols/redis\<close> and \<open>protocols/line\<close>.
  First what their clients send for a command and how the server reads it, then \<open>handleData\<close>, then
  \<open>RunClient\<close>.  The loops of \<open>RunClient\<close> run on the client's input; a locale states what one
  iteration promises and proves that the loop ends and that a pipelined session is the execution
  of its commands one after the other.
\<close>

section \<open>Sending a command\<close>

definition redis_write_command :: "'f golib \<Rightarrow> bytes \<Rightarrow> 'f gval list \<Rightarrow> bufwriter \<Rightarrow> gerr option \<times> bufwriter"
where
  "redis_write_command L cmd args w =
     (let (err, w1) = write_len CHR ''*'' (go_len args + 1) w;
          w2 = snd (write_bytes (to_upper L cmd) w1);
          w3 = snd (each_w (\<lambda>v. write_bytes (fprint L v)) args w2)
      in (err, snd (bw_flush w3)))"

text \<open>The text of a command line: the name and the printed arguments, separated by blanks.\<close>

definition line_command_text :: "'f golib \<Rightarrow> bytes \<Rightarrow> 'f gval list \<Rightarrow> bytes" where
  "line_command_text L cmd args = foldl (\<lambda>buffer v. buffer @ '' '' @ fprint L v) (to_upper L cmd) args"

definition line_write_command :: "'f golib \<Rightarrow> bytes \<Rightarrow> 'f gval list \<Rightarrow> bufwriter \<Rightarrow> gerr option \<times> bufwriter"
where
  "line_write_command L cmd args w =
     (None, snd (seqw (bw_write (line_command_text L cmd args)) (seqw (bw_write [CR, LF]) bw_flush) w))"

section \<open>Reading a command\<close>

text \<open>\<open>readBulk\<close> of the line protocol.\<close>

definition line_read_bulk :: "bytes list rd" where
  "line_read_bulk = rbind read_line_invariant (\<lambda>line.
     if length line < 2 then rerr ErrLineReadRequest else rret (split_on CHR '' '' line))"

section \<open>Dispatch\<close>

definition slice_panic :: string where
  "slice_panic = ''runtime error: slice bounds out of range''"

definition assert_string_panic :: string where
  "assert_string_panic = ''interface conversion: interface is not string''"

text \<open>The name of the command in a request of the interface protocol.\<close>

definition default_command_name :: "'f golib \<Rightarrow> 'f gval list \<Rightarrow> bytes res" where
  "default_command_name L data =
     (case data of
        [] \<Rightarrow> Ok []
      | v # _ \<Rightarrow>
          (case v of
             VBytes b \<Rightarrow> Ok (to_upper L b)
           | VString s \<Rightarrow> Ok (to_upper L s)
           | _ \<Rightarrow> Panic assert_string_panic))"

text \<open>
  \<open>handleData\<close> of the interface protocol.  A request that is not an array is dropped.
\<close>

definition default_handle_data :: "'f golib \<Rightarrow> 'f gval \<Rightarrow> loc \<Rightarrow> 'f server \<Rightarrow> unit res \<times> 'f server" where
  "default_handle_data L data c s =
     (case data of
        VArray d \<Rightarrow>
          (case default_command_name L d of
             Err e \<Rightarrow> (Err e, s)
           | Panic p \<Rightarrow> (Panic p, s)
           | Ok cmd \<Rightarrow>
               if cmd = ''QUIT'' then (Err ErrQuit, s)
               else
                 (case ctx_commands (app_ctx s) cmd of
                    None \<Rightarrow> (Err ErrCmdNotFound, s)
                  | Some handler \<Rightarrow>
                      if d = [] then (Panic slice_panic, s)
                      else run_method L handler (AIface (tl d)) c s))
      | _ \<Rightarrow> (Ok (), s))"

text \<open>
  The redis and line protocols run the handler in a goroutine of its own,
  \<open>go func() { reqErr <- handler(data[1:], client) }(); err = <-reqErr\<close>.  There a panic is not
  recovered, and neither is the send on \<open>reqErr\<close> when the client has been closed in the meantime:
  both end the whole process.
\<close>

datatype handled_data = Returned "unit res" | Died string

definition send_closed_panic :: string where
  "send_closed_panic = ''send on closed channel''"

definition call_in_goroutine :: "'f golib \<Rightarrow> handler_method \<Rightarrow> 'f args \<Rightarrow> loc \<Rightarrow> 'f server \<Rightarrow> handled_data \<times> 'f server"
where
  "call_in_goroutine L handler data c s =
     (case run_method L handler data c s of
        (Panic p, s') \<Rightarrow> (Died p, s')
      | (r, s') \<Rightarrow>
          (case heap s' c of
             Some n \<Rightarrow> if nc_reqerr_closed n then (Died send_closed_panic, s') else (Returned r, s')
           | None \<Rightarrow> (Returned r, s')))"

definition redis_handle_data :: "'f golib \<Rightarrow> bytes list \<Rightarrow> loc \<Rightarrow> 'f server \<Rightarrow> handled_data \<times> 'f server" where
  "redis_handle_data L data c s =
     (case data of
        [] \<Rightarrow> (Returned (Panic index_panic), s)
      | name # args \<Rightarrow>
          (let cmd = to_upper L name in
           if cmd = ''QUIT'' then (Returned (Err ErrQuit), s)
           else
             (case ctx_commands (app_ctx s) cmd of
                None \<Rightarrow> (Returned (Err ErrCmdNotFound), s)
              | Some handler \<Rightarrow> call_in_goroutine L handler (ABulk args) c s)))"

definition line_handle_data :: "'f golib \<Rightarrow> bytes list \<Rightarrow> loc \<Rightarrow> 'f server \<Rightarrow> handled_data \<times> 'f server" where
  "line_handle_data L data c s =
     (case data of
        [] \<Rightarrow> (Returned (Panic index_panic), s)
      | name # args \<Rightarrow>
          (let cmd = to_upper L name in
           if cmd = ''QUIT'' then (Returned (Err ErrQuit), s)
           else
             (case ctx_commands (app_ctx s) cmd of
                None \<Rightarrow> (Returned (Err ErrCmdNotFound), s)
              | Some handler \<Rightarrow> call_in_goroutine L handler (ABulk args) c s)))"

section \<open>One iteration of RunClient\<close>

text \<open>
  How an iteration of the \<open>for\<close> loop ends: the loop goes on, the function returns, it panics (and
  the deferred function recovers), or the process dies.
\<close>

datatype outcome = Again | Return | Panicked string | Crashed string

text \<open>The branch \<open>err != nil\<close> after a read.\<close>

definition read_failed :: "gerr \<Rightarrow> 'f server \<Rightarrow> outcome \<times> 'f server" where
  "read_failed e s =
     (Return, if e \<noteq> EOF then app_event ''error'' ''read error'' (Some e) s else s)"

text \<open>The branch \<open>err != nil\<close> after \<open>handleData\<close>; \<open>quit\<close> is the reply to \<open>QUIT\<close>.\<close>

definition after_handle :: "'f golib \<Rightarrow> loc \<Rightarrow> ('f server \<Rightarrow> 'f server) \<Rightarrow> handled_data \<times> 'f server \<Rightarrow>
    outcome \<times> 'f server" where
  "after_handle L c quit h =
     (case h of
        (Died p, s) \<Rightarrow> (Crashed p, s)
      | (Returned (Panic p), s) \<Rightarrow> (Panicked p, s)
      | (Returned (Ok _), s) \<Rightarrow> (Again, s)
      | (Returned (Err e), s) \<Rightarrow>
          if e = ErrQuit then (Return, quit s)
          else
            (Again,
             client_write c (seqw (write_error L (Some e)) bw_flush)
               (app_event ''error'' ''accept error'' (Some e) s)))"

definition quit_ok :: "loc \<Rightarrow> 'f server \<Rightarrow> 'f server" where
  "quit_ok c s = client_write c (seqw (write_string ''OK'') bw_flush) s"

text \<open>What the three loops do with a request they have read.\<close>

definition default_act :: "'f golib \<Rightarrow> loc \<Rightarrow> 'f gval \<Rightarrow> 'f server \<Rightarrow> outcome \<times> 'f server" where
  "default_act L c data s = after_handle L c (quit_ok c) (apfst Returned (default_handle_data L data c s))"

definition redis_act :: "'f golib \<Rightarrow> loc \<Rightarrow> bytes list \<Rightarrow> 'f server \<Rightarrow> outcome \<times> 'f server" where
  "redis_act L c data s = after_handle L c (quit_ok c) (redis_handle_data L data c s)"

definition line_act :: "'f golib \<Rightarrow> loc \<Rightarrow> bytes list \<Rightarrow> 'f server \<Rightarrow> outcome \<times> 'f server" where
  "line_act L c data s = after_handle L c (\<lambda>s. s) (line_handle_data L data c s)"

text \<open>One iteration: read, then act or fail.\<close>

definition loop_iter :: "loc \<Rightarrow> 'a rd \<Rightarrow> ('a \<Rightarrow> 'f server \<Rightarrow> outcome \<times> 'f server) \<Rightarrow> 'f server \<Rightarrow>
    outcome \<times> 'f server" where
  "loop_iter c recv act s =
     (case client_read c recv s of
        (Ok data, s') \<Rightarrow> act data s'
      | (Err e, s') \<Rightarrow> read_failed e s'
      | (Panic p, s') \<Rightarrow> (Panicked p, s'))"

text \<open>The three loops differ in how they read a command and in how they answer it.\<close>

definition redis_iter :: "'f golib \<Rightarrow> loc \<Rightarrow> 'f server \<Rightarrow> outcome \<times> 'f server" where
  [simp]: "redis_iter L c = loop_iter c read_bulk_payload (redis_act L c)"

definition line_iter :: "'f golib \<Rightarrow> loc \<Rightarrow> 'f server \<Rightarrow> outcome \<times> 'f server" where
  [simp]: "line_iter L c = loop_iter c line_read_bulk (line_act L c)"

fun client_iter :: "protocol \<Rightarrow> 'f golib \<Rightarrow> loc \<Rightarrow> 'f server \<Rightarrow> outcome \<times> 'f server" where
  "client_iter PInterface L c = loop_iter c (read_interface L) (default_act L c)"
| "client_iter PRedis L c = redis_iter L c"
| "client_iter PLine L c = line_iter L c"

section \<open>The loop and its deferred function\<close>

fun run_loop :: "('s \<Rightarrow> outcome \<times> 's) \<Rightarrow> nat \<Rightarrow> 's \<Rightarrow> outcome \<times> 's" where
  "run_loop iter 0 s = (Again, s)"
| "run_loop iter (Suc n) s =
     (case iter s of (Again, s') \<Rightarrow> run_loop iter n s' | out \<Rightarrow> out)"

text \<open>\<open>client.Close()\<close> on the client at a location; a panic there is the result.\<close>

definition close_client :: "loc \<Rightarrow> 'f server \<Rightarrow> string option \<times> 'f server" where
  "close_client c s =
     (case heap s c of
        None \<Rightarrow> (None, s)
      | Some n \<Rightarrow>
          (case nc_close n of
             (r, n') \<Rightarrow>
               (case r of Panic p \<Rightarrow> Some p | _ \<Rightarrow> None, s\<lparr>heap := (heap s)(c \<mapsto> n')\<rparr>)))"

text \<open>
  The deferred function: a recovered panic is reported as an event, then the client is closed.  The
  first component is the panic that ends the process, if there is one: a panic of the deferred
  function itself is not recovered.
\<close>

definition run_deferred :: "loc \<Rightarrow> outcome \<times> 'f server \<Rightarrow> string option \<times> 'f server" where
  "run_deferred c out =
     (case out of
        (Crashed p, s) \<Rightarrow> (Some p, s)
      | (Panicked p, s) \<Rightarrow> close_client c (app_event ''fatal'' ''client run panic'' (Some (ErrText p)) s)
      | (_, s) \<Rightarrow> close_client c s)"

text \<open>
  \<open>RunClient\<close> of the three protocols.  Every iteration that goes on has consumed input, so one more
  iteration than there are bytes is enough.
\<close>

definition run_client :: "protocol \<Rightarrow> 'f golib \<Rightarrow> loc \<Rightarrow> 'f server \<Rightarrow> string option \<times> 'f server" where
  "run_client p L c s = run_deferred c (run_loop (client_iter p L c) (Suc (input_left c s)) s)"

section \<open>A loop that consumes its input ends\<close>

locale request_loop =
  fixes iter :: "'s \<Rightarrow> outcome \<times> 's"
    and left :: "'s \<Rightarrow> nat"
  assumes iter_consumes: "iter s = (Again, s') \<Longrightarrow> left s' < left s"
begin

lemma loop_ends: "left s < n \<Longrightarrow> fst (run_loop iter n s) \<noteq> Again"
proof (induction n arbitrary: s)
  case (Suc n)
  obtain out s' where it: "iter s = (out, s')" by fastforce
  show ?case
  proof (cases "out = Again")
    case True
    with it iter_consumes Suc.prems have "left s' < n" by fastforce
    with Suc.IH it True show ?thesis by simp
  qed (use it in \<open>cases out; simp\<close>)
qed simp

lemma loop_enough: "left s < n \<Longrightarrow> left s < k \<Longrightarrow> run_loop iter n s = run_loop iter k s"
proof (induction n arbitrary: k s)
  case (Suc n)
  then obtain j where k: "k = Suc j" by (cases k) auto
  obtain out s' where it: "iter s = (out, s')" by fastforce
  show ?case
  proof (cases "out = Again")
    case True
    with it iter_consumes have "left s' < left s" by blast
    with Suc.prems k have "left s' < n" "left s' < j" by auto
    then have "run_loop iter n s' = run_loop iter j s'" by (rule Suc.IH)
    with k it True show ?thesis by simp
  qed (use it k in \<open>cases out; simp\<close>)
qed simp

text \<open>The \<open>for\<close> loop satisfies the equation of an unbounded loop.\<close>

lemma loop_unfold:
  "run_loop iter (Suc (left s)) s =
     (case iter s of (Again, s') \<Rightarrow> run_loop iter (Suc (left s')) s' | out \<Rightarrow> out)"
proof -
  obtain out s' where it: "iter s = (out, s')" by fastforce
  show ?thesis
  proof (cases "out = Again")
    case True
    with it iter_consumes have "left s' < left s" by blast
    with it True show ?thesis using loop_enough [of s' "left s" "Suc (left s')"] by simp
  qed (use it in \<open>cases out; simp\<close>)
qed

end


section \<open>Acting on a request does not touch the input\<close>

lemma call_in_goroutine_blind:
  "call_in_goroutine L h data d (set_input c b s) = apsnd (set_input c b) (call_in_goroutine L h data d s)"
proof -
  obtain r s' where "run_method L h data d s = (r, s')" by fastforce
  moreover from this have "run_method L h data d (set_input c b s) = (r, set_input c b s')"
    using run_method_blind [of L h data d c] by (simp add: input_blind_def)
  ultimately show ?thesis
    by (cases r; cases "heap s' d") (auto simp: call_in_goroutine_def set_input_heap)
qed

lemma default_handle_blind:
  "default_handle_data L v d (set_input c b s) = apsnd (set_input c b) (default_handle_data L v d s)"
  using run_method_blind [of L _ _ d c] unfolding input_blind_def
  by (simp add: default_handle_data_def split: gval.split res.split option.split)

lemma bulk_handle_blind:
  "redis_handle_data L v d (set_input c b s) = apsnd (set_input c b) (redis_handle_data L v d s)"
  "line_handle_data L v d (set_input c b s) = apsnd (set_input c b) (line_handle_data L v d s)"
  by (simp_all add: redis_handle_data_def line_handle_data_def call_in_goroutine_blind Let_def
      split: list.split option.split)

lemma after_handle_blind:
  assumes "\<And>s. quit (set_input c b s) = set_input c b (quit s)"
  shows "after_handle L d quit (apsnd (set_input c b) h) = apsnd (set_input c b) (after_handle L d quit h)"
  by (cases h) (simp add: after_handle_def assms set_input_client_write set_input_event
      split: handled_data.split res.split)

lemma acts_blind:
  "input_blind (default_act L d v) c" "input_blind (redis_act L d x) c" "input_blind (line_act L d x) c"
proof -
  have q: "quit_ok d (set_input c b s) = set_input c b (quit_ok d s)" for b :: bytes and s :: "'a server"
    by (simp add: quit_ok_def set_input_client_write)
  have sw: "apfst Returned (apsnd f p) = apsnd f (apfst Returned p)" for f :: "'a server \<Rightarrow> 'a server" and p
    by (cases p) simp
  show "input_blind (default_act L d v) c"
    unfolding input_blind_def default_act_def default_handle_blind sw
    by (intro allI after_handle_blind q)
  show "input_blind (redis_act L d x) c" "input_blind (line_act L d x) c"
    by (simp_all add: input_blind_def redis_act_def line_act_def bulk_handle_blind after_handle_blind q)
qed

text \<open>Nor does it touch anything of the clients but their writers, or the server itself.\<close>

definition framed :: "'f server \<Rightarrow> 'f server \<Rightarrow> bool" where
  "framed s s' \<longleftrightarrow> only_writers s s' \<and> same_app s s'"

lemma framed_refl [simp]: "framed s s"
  by (simp add: framed_def)

lemma framed_trans: "framed s t \<Longrightarrow> framed t u \<Longrightarrow> framed s u"
  using only_writers_trans same_app_trans by (auto simp: framed_def)

lemma framed_basic:
  "framed s (client_write c f s)" "framed s (app_event l m e s)" "framed s (snd (run_method L h data c s))"
  by (simp_all add: framed_def only_writers_write only_writers_event run_method_frame)

lemma handle_framed:
  "framed s (snd (default_handle_data L v c s))" "framed s (snd (redis_handle_data L x c s))"
  "framed s (snd (line_handle_data L x c s))"
proof -
  have "framed s (snd (call_in_goroutine L h data c s))" for h data
    using framed_basic(3) [of s L h data c]
    by (auto simp: call_in_goroutine_def split: prod.split res.split option.split)
  then show "framed s (snd (redis_handle_data L x c s))" "framed s (snd (line_handle_data L x c s))"
    by (auto simp: redis_handle_data_def line_handle_data_def Let_def split: list.split option.split)
  show "framed s (snd (default_handle_data L v c s))"
    by (auto simp: default_handle_data_def framed_basic split: gval.split res.split option.split)
qed

lemma after_handle_framed:
  assumes "framed s (snd h)" and "\<And>t. framed t (quit t)"
  shows "framed s (snd (after_handle L c quit h))"
proof -
  obtain r t where h: "h = (r, t)" by fastforce
  have "framed t (client_write c f (app_event l m e t))" for f l m e
    by (rule framed_trans [OF framed_basic(2) framed_basic(1)])
  then show ?thesis
    using assms h by (auto simp: after_handle_def intro: framed_trans split: handled_data.split res.split)
qed

lemma acts_framed:
  "framed s (snd (default_act L c v s))" "framed s (snd (redis_act L c x s))"
  "framed s (snd (line_act L c x s))"
proof -
  have q: "framed t (quit_ok c t)" for t :: "'a server" by (simp add: quit_ok_def framed_basic)
  have "framed s (snd (apfst Returned (default_handle_data L v c s)))"
    by (simp add: handle_framed)
  then show "framed s (snd (default_act L c v s))"
    unfolding default_act_def by (rule after_handle_framed) (rule q)
  show "framed s (snd (redis_act L c x s))"
    unfolding redis_act_def by (rule after_handle_framed [OF handle_framed(2) q])
  show "framed s (snd (line_act L c x s))"
    unfolding line_act_def by (rule after_handle_framed [OF handle_framed(3) framed_refl])
qed

section \<open>Sessions\<close>

text \<open>A client whose connection delivers its input and then ends, read through 128 bytes.\<close>

definition connected :: "loc \<Rightarrow> 'f server \<Rightarrow> bool" where
  "connected c s \<longleftrightarrow>
     (\<exists>n. heap s c = Some n \<and> br_size (nc_reader n) = 128 \<and> br_end (nc_reader n) = EOF)"

lemma connected_framed: "connected c s \<Longrightarrow> framed s s' \<Longrightarrow> connected c s'"
proof -
  assume c: "connected c s" and "framed s s'"
  then obtain w where "heap s' c = map_option (\<lambda>n. n\<lparr>nc_writer := w\<rparr>) (heap s c)"
    unfolding framed_def only_writers_def by blast
  with c show ?thesis by (auto simp: connected_def)
qed

lemma client_read_decodes:
  assumes "decodes 128 recv b v" and "connected c s"
  shows "client_read c recv (set_input c (b @ rest) s) = (Ok v, set_input c rest s)"
proof -
  from assms(2) obtain n where n: "heap s c = Some n" "br_size (nc_reader n) = 128"
    by (auto simp: connected_def)
  from decodesD [OF assms(1), of "(nc_reader n)\<lparr>br_in := b @ rest\<rparr>" rest] n
  have "recv ((nc_reader n)\<lparr>br_in := b @ rest\<rparr>) = (Ok v, (nc_reader n)\<lparr>br_in := rest\<rparr>)" by simp
  with n show ?thesis by (simp add: client_read_def set_input_def)
qed

lemma client_read_input:
  assumes "client_read c recv s = (Ok v, s')" and "progress recv"
  shows "input_left c s' < input_left c s"
  using assms by (auto simp: client_read_def input_left_def progress_def split: option.splits prod.splits)

lemma set_input_same: "\<exists>b. s = set_input c b s \<and> length b = input_left c s"
proof (cases "heap s c")
  case None
  then have "set_input c [] s = s" by (auto simp: set_input_def fun_upd_idem)
  with None show ?thesis by (auto simp: input_left_def intro: exI [of _ "[]"])
next
  case (Some n)
  then have "set_input c (br_in (nc_reader n)) s = s" by (simp add: set_input_def fun_upd_idem)
  with Some show ?thesis by (auto simp: input_left_def intro!: exI [of _ "br_in (nc_reader n)"])
qed

lemma input_left_set: "input_left c (set_input c b s) \<le> length b"
  by (simp add: input_left_def set_input_heap split: option.split)

lemma blind_input_left:
  assumes "input_blind f c" and "f s = (x, s')"
  shows "input_left c s' \<le> input_left c s"
proof -
  obtain b where b: "s = set_input c b s" "length b = input_left c s" using set_input_same by blast
  have "f s = apsnd (set_input c b) (f s)"
    using assms(1) b(1) unfolding input_blind_def by metis
  with assms(2) have "s' = set_input c b s'" by simp
  then show ?thesis using input_left_set [of c b s'] b(2) by simp
qed

text \<open>
  The effect of a list of requests, one after the other, until one of them ends the session.
\<close>

fun serve :: "('d \<Rightarrow> 's \<Rightarrow> outcome \<times> 's) \<Rightarrow> 'd list \<Rightarrow> 's \<Rightarrow> outcome \<times> 's" where
  "serve act [] s = (Again, s)"
| "serve act (d # ds) s = (case act d s of (Again, s') \<Rightarrow> serve act ds s' | out \<Rightarrow> out)"

text \<open>
  A protocol: how requests are read and acted upon.  The run loop over it consumes its input, and
  over a pipelined sequence of requests it does what serving them in order does.
\<close>

locale protocol_loop =
  fixes c :: loc
    and recv :: "'d rd"
    and act :: "'d \<Rightarrow> 'f server \<Rightarrow> outcome \<times> 'f server"
  assumes recv_progress: "progress recv"
    and recv_end: "br_in r = [] \<Longrightarrow> 0 < br_size r \<Longrightarrow> recv r = (Err (br_end r), r)"
    and act_blind: "input_blind (act d) c"
    and act_framed: "framed s (snd (act d s))"
begin

lemma iter_consumes_input:
  assumes "loop_iter c recv act s = (Again, s')"
  shows "input_left c s' < input_left c s"
proof -
  obtain v t where t: "client_read c recv s = (Ok v, t)" "act v t = (Again, s')"
    using assms by (auto simp: loop_iter_def read_failed_def split: prod.splits res.splits)
  from blind_input_left [OF act_blind t(2)] client_read_input [OF t(1) recv_progress]
  show ?thesis by simp
qed

lemma iter_at_end:
  assumes "connected c s"
  shows "loop_iter c recv act (set_input c [] s) = (Return, set_input c [] s)"
proof -
  from assms obtain n where n: "heap s c = Some n" "br_size (nc_reader n) = 128" "br_end (nc_reader n) = EOF"
    by (auto simp: connected_def)
  with recv_end [of "(nc_reader n)\<lparr>br_in := []\<rparr>"]
  have "client_read c recv (set_input c [] s) = (Err EOF, set_input c [] s)"
    by (simp add: client_read_def set_input_def)
  then show ?thesis by (simp add: loop_iter_def read_failed_def)
qed

lemma iter_request:
  assumes "decodes 128 recv b d" and "connected c s"
  shows "loop_iter c recv act (set_input c (b @ rest) s) = apsnd (set_input c rest) (act d s)"
  using client_read_decodes [OF assms, of rest] act_blind [of d]
  by (simp add: loop_iter_def input_blind_def)

end

sublocale protocol_loop \<subseteq> request_loop "loop_iter c recv act" "input_left c"
  by unfold_locales (rule iter_consumes_input)


context protocol_loop
begin

lemma pipelined:
  assumes "\<forall>q \<in> set qs. decodes 128 recv (enc q) (view q)" and "connected c s"
  shows "apsnd (set_input c [])
      (run_loop (loop_iter c recv act) (Suc (input_left c (set_input c (concat (map enc qs)) s)))
        (set_input c (concat (map enc qs)) s)) =
    (case serve act (map view qs) s of
       (Again, s') \<Rightarrow> (Return, set_input c [] s') | (out, s') \<Rightarrow> (out, set_input c [] s'))"
  using assms
proof (induction qs arbitrary: s)
  case Nil
  then show ?case by (subst loop_unfold) (simp add: iter_at_end)
next
  case (Cons q qs)
  let ?rest = "concat (map enc qs)"
  obtain out t where t: "act (view q) s = (out, t)" by fastforce
  from Cons.prems(1) have "decodes 128 recv (enc q) (view q)" by simp
  from iter_request [OF this Cons.prems(2), of ?rest] t
  have it: "loop_iter c recv act (set_input c (enc q @ ?rest) s) = (out, set_input c ?rest t)" by simp
  show ?case
  proof (cases "out = Again")
    case True
    have "connected c t" using connected_framed [OF Cons.prems(2) act_framed, of "view q"] t by simp
    with Cons.IH [of t] Cons.prems(1) t it True show ?thesis
      by (subst loop_unfold) simp
  next
    case False
    with it t show ?thesis by (subst loop_unfold) (cases out; simp)
  qed
qed

end

lemma recv_ends:
  assumes "br_in r = []" and "0 < br_size r"
  shows "read_line r = (Err (br_end r), r)" "read_interface L r = (Err (br_end r), r)"
    "read_bulk_payload r = (Err (br_end r), r)" "line_read_bulk r = (Err (br_end r), r)"
proof -
  have rs: "read_slice r = (Err (br_end r), r)"
    using assms by (cases r) (simp add: read_slice_def)
  then show rl: "read_line r = (Err (br_end r), r)" by (simp add: read_line_def rbind_def)
  then show "read_interface L r = (Err (br_end r), r)"
    by (subst read_interface_unfold) (simp add: read_interface_body_def rbind_def)
  show "read_bulk_payload r = (Err (br_end r), r)" using rl by (simp add: read_bulk_payload_def rbind_def)
  show "line_read_bulk r = (Err (br_end r), r)"
    using rs by (simp add: line_read_bulk_def read_line_invariant_def rbind_def)
qed

lemma progress_line_read_bulk: "progress line_read_bulk"
  unfolding line_read_bulk_def by (intro progress_rbind progress_read_line_invariant steady_intros)

interpretation iproto: protocol_loop c "read_interface L" "default_act L c" for c L
  by unfold_locales (simp_all add: progress_read_interface recv_ends acts_blind acts_framed)

interpretation rproto: protocol_loop c read_bulk_payload "redis_act L c" for c L
  by unfold_locales (simp_all add: progress_read_bulk_payload recv_ends acts_blind acts_framed)

interpretation lproto: protocol_loop c line_read_bulk "line_act L c" for c L
  by unfold_locales (simp_all add: progress_line_read_bulk recv_ends acts_blind acts_framed)

section \<open>Commands over the wire\<close>

text \<open>
  A command as a client calls it, and the bytes a fresh client sends for a list of commands.
\<close>

type_synonym 'f command_call = "bytes \<times> 'f gval list"

definition client_sends :: "('q \<Rightarrow> bufwriter \<Rightarrow> gerr option \<times> bufwriter) \<Rightarrow> 'q list \<Rightarrow> bytes" where
  "client_sends send qs = bw_sent (snd (bw_flush (foldl (\<lambda>w q. snd (send q w)) (new_writer 128) qs)))"

lemma client_sends_emits:
  assumes "\<And>q. emits (send q) (enc q)"
  shows "client_sends send qs = concat (map enc qs)"
proof -
  have "bw_ok (foldl (\<lambda>w q. snd (send q w)) w qs) \<and>
      bw_stream (foldl (\<lambda>w q. snd (send q w)) w qs) = bw_stream w @ concat (map enc qs)" if "bw_ok w" for w
    using that emitsD [OF assms] by (induction qs arbitrary: w) simp_all
  from this [of "new_writer 128"] show ?thesis by (simp add: client_sends_def bw_flush_ok(5))
qed

text \<open>What the server reads for a command, in each protocol.\<close>

definition default_request :: "'f golib \<Rightarrow> 'f command_call \<Rightarrow> 'f gval" where
  "default_request L q = VArray (VBytes (to_upper L (fst q)) # map (readback L) (snd q))"

definition bulk_request :: "'f golib \<Rightarrow> 'f command_call \<Rightarrow> bytes list" where
  "bulk_request L q = to_upper L (fst q) # map (fprint L) (snd q)"

text \<open>Which commands the protocols can carry.\<close>

definition default_ok :: "'f golib \<Rightarrow> 'f command_call \<Rightarrow> bool" where
  "default_ok L q \<longleftrightarrow>
     blob_ok (to_upper L (fst q)) \<and> (\<forall>v \<in> set (snd q). wire_ok L 128 v) \<and> Suc (length (snd q)) * 16 \<le> 2 ^ 48"

definition redis_ok :: "'f golib \<Rightarrow> 'f command_call \<Rightarrow> bool" where
  "redis_ok L q \<longleftrightarrow> (\<forall>d \<in> set (bulk_request L q). blob_ok d) \<and> Suc (length (snd q)) * 24 \<le> 2 ^ 48"

definition line_ok :: "'f golib \<Rightarrow> 'f command_call \<Rightarrow> bool" where
  "line_ok L q \<longleftrightarrow>
     (\<forall>d \<in> set (bulk_request L q). CHR '' '' \<notin> set d \<and> LF \<notin> set d) \<and>
     (let n = length (join '' '' (bulk_request L q)) in 2 \<le> n \<and> n + 2 \<le> 128)"

lemma go_len_Suc: "go_len (x # map f args) = go_len args + 1"
  by (simp add: go_len_def add.commute)

lemma emits_redis_command:
  "emits (redis_write_command L cmd args) (enc_bulk (bulk_request L (cmd, args)))"
proof -
  have "emits (each_w (\<lambda>v. write_bytes (fprint L v)) args) (concat (map (\<lambda>v. enc_blob (fprint L v)) args))"
    by (intro emits_each_w emits_client_bytes)
  note e = emits_seqw [OF emits_client_bytes [of "to_upper L cmd"] emits_seqw [OF this emits_flush]]
  have "emits (redis_write_command L cmd args)
      (enc_line CHR ''*'' (append_int (go_len args + 1)) @
       enc_blob (to_upper L cmd) @ concat (map (\<lambda>v. enc_blob (fprint L v)) args) @ [])"
  proof (rule emitsI)
    fix w assume ok: "bw_ok w"
    obtain err w1 where w1: "write_len CHR ''*'' (go_len args + 1) w = (err, w1)" by fastforce
    with emitsD [OF emits_write_len ok, of "CHR ''*''" "go_len args + 1"]
    have h: "err = None" "bw_ok w1" "bw_stream w1 = bw_stream w @ enc_line CHR ''*'' (append_int (go_len args + 1))"
      by simp_all
    note f = emitsD [OF e h(2), unfolded seqw_def]
    show "fst (redis_write_command L cmd args w) = None" "bw_ok (snd (redis_write_command L cmd args w))"
      "bw_stream (snd (redis_write_command L cmd args w)) = bw_stream w @
        enc_line CHR ''*'' (append_int (go_len args + 1)) @
        enc_blob (to_upper L cmd) @ concat (map (\<lambda>v. enc_blob (fprint L v)) args) @ []"
      using h f w1 by (simp_all add: redis_write_command_def)
  qed
  then show ?thesis
    by (simp add: enc_bulk_def bulk_request_def comp_def go_len_Suc)
qed


lemma line_command_text_eq: "line_command_text L cmd args = join '' '' (bulk_request L (cmd, args))"
proof -
  have "foldl (\<lambda>buffer v. buffer @ '' '' @ fprint L v) b args = join '' '' (b # map (fprint L) args)" for b
  proof (induction args arbitrary: b)
    case (Cons v vs)
    have "join '' '' ((b @ '' '' @ fprint L v) # map (fprint L) vs) = join '' '' (b # map (fprint L) (v # vs))"
      by (cases vs) simp_all
    with Cons.IH [of "b @ '' '' @ fprint L v"] show ?case by simp
  qed simp
  then show ?thesis by (simp add: line_command_text_def bulk_request_def)
qed

definition enc_command_line :: "'f golib \<Rightarrow> 'f command_call \<Rightarrow> bytes" where
  "enc_command_line L q = join '' '' (bulk_request L q) @ [CR, LF]"

lemma emits_line_command: "emits (line_write_command L cmd args) (enc_command_line L (cmd, args))"
  using emits_seqw [OF emits_write emits_seqw [OF emits_write emits_flush],
      of "line_command_text L cmd args" "[CR, LF]"]
  by (simp add: line_write_command_def emits_def line_command_text_eq enc_command_line_def)

lemma join_no_LF: "\<forall>d \<in> set ds. LF \<notin> set d \<Longrightarrow> LF \<notin> set (join '' '' ds)"
  by (induction "'' ''" ds rule: join.induct) auto

lemma decodes_line_invariant:
  assumes "LF \<notin> set l" and "length l + 2 \<le> sz"
  shows "decodes sz read_line_invariant (l @ [CR, LF]) l"
  using assms by (auto simp: decodes_def read_line_invariant_def rbind_def rret_def read_slice_crlf)

lemma decodes_command_line:
  assumes "line_ok L q"
  shows "decodes 128 line_read_bulk (enc_command_line L q) (bulk_request L q)"
proof -
  let ?l = "join '' '' (bulk_request L q)"
  from assms have len: "2 \<le> length ?l" "length ?l + 2 \<le> 128" and lf: "LF \<notin> set ?l"
    by (auto simp: line_ok_def Let_def intro!: join_no_LF)
  have "split_on CHR '' '' ?l = bulk_request L q"
    using assms by (intro split_on_join) (auto simp: line_ok_def bulk_request_def)
  with len show ?thesis
    unfolding line_read_bulk_def enc_command_line_def
    by (intro decodes_rbind_last [OF decodes_line_invariant [OF lf]]) auto
qed

lemma decodes_redis_command:
  assumes "redis_ok L q"
  shows "decodes 128 read_bulk_payload (enc_bulk (bulk_request L q)) (bulk_request L q)"
  using assms by (intro decodes_bulk) (auto simp: redis_ok_def bulk_request_def)

lemma decodes_default_command:
  assumes "float_ok L" and "default_ok L q"
  shows "decodes 128 (read_interface L) (enc_array L (VBytes (to_upper L (fst q)) # snd q)) (default_request L q)"
  using assms array_decodes [of L 128 "VBytes (to_upper L (fst q)) # snd q"]
  by (simp add: default_ok_def default_request_def)

text \<open>
  A protocol together with a client's \<open>WriteCommand\<close>: the commands that satisfy \<open>ok\<close> arrive as the
  requests \<open>view\<close>.
\<close>

locale command_codec = protocol_loop c recv act
  for c :: loc and recv :: "'d rd" and act :: "'d \<Rightarrow> 'f server \<Rightarrow> outcome \<times> 'f server" +
  fixes send :: "'q \<Rightarrow> bufwriter \<Rightarrow> gerr option \<times> bufwriter"
    and enc :: "'q \<Rightarrow> bytes"
    and view :: "'q \<Rightarrow> 'd"
    and ok :: "'q \<Rightarrow> bool"
  assumes send_emits: "emits (send q) (enc q)"
    and recv_decodes: "ok q \<Longrightarrow> decodes 128 recv (enc q) (view q)"
begin

lemma session:
  assumes "connected c s" and "\<forall>q \<in> set qs. ok q"
  shows "apsnd (set_input c [])
      (run_loop (loop_iter c recv act) (Suc (input_left c (set_input c (client_sends send qs) s)))
        (set_input c (client_sends send qs) s)) =
    (case serve act (map view qs) s of
       (Again, s') \<Rightarrow> (Return, set_input c [] s') | (out, s') \<Rightarrow> (out, set_input c [] s'))"
  using pipelined [of qs enc view s] assms recv_decodes client_sends_emits [of send enc qs] send_emits
  by simp

end

interpretation rcmd: command_codec c read_bulk_payload "redis_act L c"
  "\<lambda>q. redis_write_command L (fst q) (snd q)" "\<lambda>q. enc_bulk (bulk_request L q)" "bulk_request L" "redis_ok L"
  for c L
  by unfold_locales (use emits_redis_command [of L] decodes_redis_command [of L] in auto)

interpretation lcmd: command_codec c line_read_bulk "line_act L c"
  "\<lambda>q. line_write_command L (fst q) (snd q)" "enc_command_line L" "bulk_request L" "line_ok L"
  for c L
  by unfold_locales (use emits_line_command [of L] decodes_command_line [of L] in auto)

interpretation icmd: command_codec c "read_interface L" "default_act L c"
  "\<lambda>q. write_command L (fst q) (snd q)" "\<lambda>q. enc_array L (VBytes (to_upper L (fst q)) # snd q)"
  "default_request L" "\<lambda>q. float_ok L \<and> default_ok L q"
  for c L
  by unfold_locales (use emits_client_command [of L] decodes_default_command [of L] in auto)


section \<open>One iteration from the outside\<close>

text \<open>
  \<open>conn_state\<close> is everything of a client but its reader and writer.  An iteration of a run loop
  changes no client's state, keeps the backends well formed, and does not end the process as long as
  the client has not been closed under it.
\<close>

definition conn_state :: "netclient \<Rightarrow> address \<times> bool \<times> bool \<times> bool \<times> bool \<times> bool" where
  "conn_state n =
     (nc_addr n, nc_closed n, nc_conn n, nc_conn_open n, nc_quit_closed n, nc_reqerr_closed n)"

definition calm :: "'f server \<Rightarrow> 'f server \<Rightarrow> bool" where
  "calm s s' \<longleftrightarrow>
     (\<forall>c. map_option conn_state (heap s' c) = map_option conn_state (heap s c)) \<and> same_app s s'"

lemma calm_refl [simp]: "calm s s"
  by (simp add: calm_def)

lemma calm_trans: "calm s t \<Longrightarrow> calm t u \<Longrightarrow> calm s u"
  using same_app_trans by (auto simp: calm_def)

lemma framed_calm: "framed s s' \<Longrightarrow> calm s s'"
proof -
  assume f: "framed s s'"
  have "map_option conn_state (heap s' c) = map_option conn_state (heap s c)" for c
  proof -
    from f obtain w where "heap s' c = map_option (\<lambda>n. n\<lparr>nc_writer := w\<rparr>) (heap s c)"
      unfolding framed_def only_writers_def by blast
    then show ?thesis by (cases "heap s c") (simp_all add: conn_state_def)
  qed
  with f show ?thesis by (simp add: calm_def framed_def)
qed

lemma client_read_calm: "client_read c m s = (x, s') \<Longrightarrow> calm s s'"
  by (auto simp: client_read_def calm_def conn_state_def same_app_def split: option.splits prod.splits)

lemma calm_heap:
  assumes "calm s s'" and "heap s c = Some n"
  obtains n' where "heap s' c = Some n'" and "conn_state n' = conn_state n"
proof -
  from assms have "map_option conn_state (heap s' c) = Some (conn_state n)" by (simp add: calm_def)
  then show ?thesis using that by (cases "heap s' c") auto
qed

lemma calm_sym: "calm s s' \<Longrightarrow> calm s' s"
  by (simp add: calm_def same_app_def)

lemma conn_state_live: "conn_state n' = conn_state n \<Longrightarrow> nc_live n' = nc_live n"
  by (simp add: conn_state_def nc_live_def)

definition live_at :: "loc \<Rightarrow> 'f server \<Rightarrow> bool" where
  "live_at c s \<longleftrightarrow> (\<exists>n. heap s c = Some n \<and> nc_live n)"

lemma calm_live: "calm s s' \<Longrightarrow> live_at c s' = live_at c s"
  using calm_heap calm_sym conn_state_live unfolding live_at_def by metis

lemma loop_iter_calm:
  assumes "\<And>d s. framed s (snd (act d s))"
  shows "calm s (snd (loop_iter c recv act s))"
proof -
  obtain x t where x: "client_read c recv s = (x, t)" by fastforce
  then have "calm s t" by (rule client_read_calm)
  moreover have "calm t (snd (act d t))" for d using assms framed_calm by blast
  moreover have "calm t (snd (read_failed e t))" for e
    by (simp add: read_failed_def framed_calm framed_basic)
  ultimately show ?thesis using x
    by (cases x) (auto simp: loop_iter_def intro: calm_trans)
qed

lemma client_iter_calm: "calm s (snd (client_iter p L c s))"
  by (cases p) (simp_all add: loop_iter_calm acts_framed)

lemma handle_backends_ok:
  assumes "backends_ok s"
  shows "backends_ok (snd (default_handle_data L v c s))" "backends_ok (snd (redis_handle_data L x c s))"
    "backends_ok (snd (line_handle_data L x c s))"
proof -
  have "backends_ok (snd (call_in_goroutine L h data c s))" for h data
    using run_method_backends_ok [OF assms, of L h data c]
    by (auto simp: call_in_goroutine_def split: prod.split res.split option.split)
  then show "backends_ok (snd (redis_handle_data L x c s))" "backends_ok (snd (line_handle_data L x c s))"
    using assms
    by (auto simp: redis_handle_data_def line_handle_data_def Let_def split: list.split option.split)
  show "backends_ok (snd (default_handle_data L v c s))"
    using assms by (auto simp: default_handle_data_def run_method_backends_ok split: gval.split res.split option.split)
qed

lemma after_handle_backends_ok:
  "backends_ok (snd h) \<Longrightarrow> (\<And>t. backends_ok (quit t) = backends_ok t) \<Longrightarrow>
   backends_ok (snd (after_handle L c quit h))"
  by (cases h) (simp add: after_handle_def split: handled_data.split res.split)

lemma acts_backends_ok:
  assumes "backends_ok s"
  shows "backends_ok (snd (default_act L c v s))" "backends_ok (snd (redis_act L c x s))"
    "backends_ok (snd (line_act L c x s))"
  unfolding default_act_def redis_act_def line_act_def
  using handle_backends_ok [OF assms] by (auto intro!: after_handle_backends_ok simp: quit_ok_def)

lemma client_read_backends_ok: "client_read c m s = (x, s') \<Longrightarrow> backends_ok s' = backends_ok s"
  by (auto simp: client_read_def split: option.splits prod.splits)

lemma loop_iter_backends_ok:
  assumes "backends_ok s" and "\<And>d s. backends_ok s \<Longrightarrow> backends_ok (snd (act d s))"
  shows "backends_ok (snd (loop_iter c recv act s))"
  using client_read_backends_ok [of c recv s] assms
  by (auto simp: loop_iter_def read_failed_def split: prod.split res.split)

lemma client_iter_backends_ok: "backends_ok s \<Longrightarrow> backends_ok (snd (client_iter p L c s))"
  by (cases p) (simp_all add: loop_iter_backends_ok acts_backends_ok)

text \<open>The process does not die in an iteration for a live client.\<close>

lemma call_no_death:
  assumes "live_at c s"
  shows "fst (call_in_goroutine L h data c s) \<noteq> Died p"
proof -
  obtain r t where r: "run_method L h data c s = (r, t)" by fastforce
  with run_method_no_panic [of L h data c s] have np: "\<forall>q. r \<noteq> Panic q" by auto
  have "calm s t" using framed_calm [OF framed_basic(3), of s L h data c] r by simp
  with assms have "live_at c t" by (simp add: calm_live)
  with r np show ?thesis
    by (cases r) (auto simp: call_in_goroutine_def live_at_def nc_live_def)
qed

lemma acts_no_crash:
  assumes "live_at c s"
  shows "fst (default_act L c v s) \<noteq> Crashed p" "fst (redis_act L c x s) \<noteq> Crashed p"
    "fst (line_act L c x s) \<noteq> Crashed p"
proof -
  have crash: "fst (after_handle L c q h) = Crashed p \<Longrightarrow> fst h = Died p" for q and h :: "handled_data \<times> 'a server"
    by (cases h) (auto simp: after_handle_def split: handled_data.splits res.splits if_splits)
  have bulk: "fst (redis_handle_data L x c s) \<noteq> Died p" "fst (line_handle_data L x c s) \<noteq> Died p"
    using call_no_death [OF assms]
    by (simp_all add: redis_handle_data_def line_handle_data_def Let_def split: list.split option.split)
  then show "fst (redis_act L c x s) \<noteq> Crashed p" "fst (line_act L c x s) \<noteq> Crashed p"
    using crash unfolding redis_act_def line_act_def by blast+
  show "fst (default_act L c v s) \<noteq> Crashed p"
    using crash [of "quit_ok c" "apfst Returned (default_handle_data L v c s)"]
    unfolding default_act_def by auto
qed

lemma loop_iter_no_crash:
  assumes "live_at c s" and "\<And>d s. live_at c s \<Longrightarrow> fst (act d s) \<noteq> Crashed q"
  shows "fst (loop_iter c recv act s) \<noteq> Crashed q"
proof -
  obtain x t where x: "client_read c recv s = (x, t)" by fastforce
  then have "live_at c t" using calm_live client_read_calm assms(1) by blast
  with x assms(2) show ?thesis by (cases x) (auto simp: loop_iter_def read_failed_def)
qed

lemma client_iter_no_crash: "live_at c s \<Longrightarrow> fst (client_iter p L c s) \<noteq> Crashed q"
  by (cases p) (simp_all add: loop_iter_no_crash acts_no_crash)


section \<open>Properties\<close>

text \<open>
C25. \<open>RunClient\<close> ends, in every protocol and on every input: once the client has closed its side, one
iteration more than there are unread bytes is always enough, and further fuel changes nothing.
\<close>

theorem run_client_ends:
  "fst (run_loop (client_iter p L c) (Suc (input_left c s)) s) \<noteq> Again \<and>
   run_loop (client_iter p L c) (input_left c s + Suc k) s = run_loop (client_iter p L c) (Suc (input_left c s)) s"
proof (cases p)
  case PInterface
  show ?thesis unfolding PInterface client_iter.simps
    by (intro conjI iproto.loop_ends iproto.loop_enough) simp_all
next
  case PRedis
  show ?thesis unfolding PRedis client_iter.simps redis_iter_def
    by (intro conjI rproto.loop_ends rproto.loop_enough) simp_all
next
  case PLine
  show ?thesis unfolding PLine client_iter.simps line_iter_def
    by (intro conjI lproto.loop_ends lproto.loop_enough) simp_all
qed

text \<open>
C9. A pipelined redis session: for any commands a redis client can send, the run loop does to the
server exactly what executing the commands one after the other does, up to the first that ends the
session; if none does, the loop returns at the end of the input.
\<close>

theorem redis_session:
  assumes "connected c s" and "\<forall>q \<in> set qs. redis_ok L q"
    and "s' = set_input c (client_sends (\<lambda>q. redis_write_command L (fst q) (snd q)) qs) s"
  shows "apsnd (set_input c []) (run_loop (client_iter PRedis L c) (Suc (input_left c s')) s') =
    (case serve (redis_act L c) (map (bulk_request L) qs) s of
       (Again, t) \<Rightarrow> (Return, set_input c [] t) | (out, t) \<Rightarrow> (out, set_input c [] t))"
  unfolding assms(3) client_iter.simps redis_iter_def by (rule rcmd.session [OF assms(1,2)])

text \<open>
C28. The same for the line protocol, for commands whose words have no blanks and no line feeds (\<open>WriteCommand\<close> does
not quote them) and whose line has 2 to 126 bytes, so that it fits the reader's buffer.
\<close>

theorem line_session:
  assumes "connected c s" and "\<forall>q \<in> set qs. line_ok L q"
    and "s' = set_input c (client_sends (\<lambda>q. line_write_command L (fst q) (snd q)) qs) s"
  shows "apsnd (set_input c []) (run_loop (client_iter PLine L c) (Suc (input_left c s')) s') =
    (case serve (line_act L c) (map (bulk_request L) qs) s of
       (Again, t) \<Rightarrow> (Return, set_input c [] t) | (out, t) \<Rightarrow> (out, set_input c [] t))"
  unfolding assms(3) client_iter.simps line_iter_def by (rule lcmd.session [OF assms(1,2)])

text \<open>
C29. The same for the interface protocol, for commands whose arguments are within the limits of the round trip of
values: a string argument has 1 to 125 bytes and no line feed, a byte is not a line feed.
\<close>

theorem interface_session:
  assumes "float_ok L" and "connected c s" and "\<forall>q \<in> set qs. default_ok L q"
    and "s' = set_input c (client_sends (\<lambda>q. write_command L (fst q) (snd q)) qs) s"
  shows "apsnd (set_input c []) (run_loop (client_iter PInterface L c) (Suc (input_left c s')) s') =
    (case serve (default_act L c) (map (default_request L) qs) s of
       (Again, t) \<Rightarrow> (Return, set_input c [] t) | (out, t) \<Rightarrow> (out, set_input c [] t))"
  unfolding assms(4) client_iter.simps using assms(1,3) by (intro icmd.session [OF assms(2)]) simp

text \<open>
\<open>QUIT\<close>, in any case, ends the session at once: the commands behind it are not executed.  The
redis and interface protocols answer \<open>OK\<close>; the line protocol says nothing.
\<close>

lemma quit_ends_session:
  assumes "to_upper L name = ''QUIT''"
  shows "serve (redis_act L c) ((name # args) # ds) s = (Return, quit_ok c s) \<and>
    serve (line_act L c) ((name # args) # ds) s = (Return, s) \<and>
    serve (default_act L c) (VArray (VBytes name # vs) # es) s = (Return, quit_ok c s)"
  using assms
  by (simp add: redis_act_def line_act_def default_act_def redis_handle_data_def line_handle_data_def
      default_handle_data_def default_command_name_def after_handle_def)

text \<open>
A request for a command that is not registered is answered with the error and reported as an
event; the session goes on and nothing else changes.
\<close>

lemma unknown_command_reply:
  assumes "to_upper L name \<noteq> ''QUIT''" and "ctx_commands (app_ctx s) (to_upper L name) = None"
    and "t = client_write c (seqw (write_error L (Some ErrCmdNotFound)) bw_flush)
           (app_event ''error'' ''accept error'' (Some ErrCmdNotFound) s)"
  shows "redis_act L c (name # args) s = (Again, t) \<and> line_act L c (name # args) s = (Again, t) \<and>
    default_act L c (VArray (VBytes name # vs)) s = (Again, t)"
  using assms
  by (simp add: redis_act_def line_act_def default_act_def redis_handle_data_def line_handle_data_def
      default_handle_data_def default_command_name_def after_handle_def)

text \<open>
Malformed requests.  An empty array makes the redis protocol panic on \<open>data[0]\<close> (recovered, the
client is dropped), while the interface protocol treats it as the command with the empty name; an
interface request whose first element is neither bytes nor a string panics; a request that is not an
array at all is ignored without any reply.
\<close>

lemma malformed_requests:
  assumes "ctx_commands (app_ctx s) [] = None"
  shows "redis_act L c [] s = (Panicked index_panic, s) \<and>
    fst (default_act L c (VArray []) s) = Again \<and>
    default_act L c (VArray (VInt64 n # vs)) s = (Panicked assert_string_panic, s) \<and>
    default_act L c (VString x) s = (Again, s)"
  using assms
  by (simp add: redis_act_def default_act_def redis_handle_data_def default_handle_data_def
      default_command_name_def after_handle_def)

end
