(* ===== verification/Server.thy ===== *)
theory Server
  imports Protocols
begin

text \<open>
  \<open>server/server.go\<close> and the start-up of \<open>cmd/broadcast-server/main.go\<close>: creating a server, loading
  backends, accepting connections, closing.  The goroutines of the process (one run loop and one
  exit watcher per connection, the senders of \<open>publish\<close>, the ticker of the stats backend, the signal
  handler that calls \<open>Close\<close>) become a step relation; its invariants are proved by rule induction.
\<close>

section \<open>Creating a server\<close>

definition broadcast_version :: bytes where
  "broadcast_version = ''0.1.0''"

definition broadcast_bit :: bytes where
  "broadcast_bit = ''64 bit''"

definition logo_header :: bytes where
  "logo_header =
     [LF, LF] @ ''  _                             %s %s %s'' @ [LF] @
     ''   /_)__  _   _/_  _   __/_     '' @ [LF] @
     ''   /_)//_//_|/_//_ /_|_'' @ [CHR 0x5C] @ '' /      Port: %d'' @ [LF] @
     ''                                PID: %d'' @ [LF, LF]"

text \<open>
  \<open>ListenProtocol\<close>.  \<open>bind\<close> is the outcome of \<open>net.ResolveTCPAddr\<close> and \<open>net.ListenTCP\<close> on an address.
\<close>

definition listen_protocol :: "(address \<Rightarrow> gerr option) \<Rightarrow> 'f runtime \<Rightarrow> int64 \<Rightarrow> bytes \<Rightarrow> protocol \<Rightarrow>
    'f server res" where
  "listen_protocol bind rt port host p =
     (let addr = host @ '':'' @ append_int port in
      case bind addr of
        Some e \<Rightarrow> Err e
      | None \<Rightarrow>
          Ok \<lparr>app_port = port, app_addr = addr, app_bit = broadcast_bit, app_pid = rt_pid rt,
              app_name = ''Broadcast'', app_version = broadcast_version, app_header = logo_header,
              app_protocol = p, app_ctx = new_broadcast_context, app_clients = Map.empty,
              app_backends = [], app_closed = False, app_listening = True, app_quit = False,
              heap = Map.empty, stats_mem = new_memory_backend 0, stats_ticking = False,
              pubsub_topics = Map.empty, pending = [], runtime_info = rt\<rparr>)"

definition listen :: "(address \<Rightarrow> gerr option) \<Rightarrow> 'f runtime \<Rightarrow> int64 \<Rightarrow> bytes \<Rightarrow> 'f server res" where
  "listen bind rt port host = listen_protocol bind rt port host PInterface"

definition app_register_command :: "'f golib \<Rightarrow> command \<Rightarrow> handler_method \<Rightarrow> 'f server \<Rightarrow> 'f server" where
  "app_register_command L cmd h s = s\<lparr>app_ctx := register_command L cmd h (app_ctx s)\<rparr>"

text \<open>The other methods that only pass on to the context.\<close>

definition app_register :: "'f golib \<Rightarrow> bytes \<Rightarrow> handler_method \<Rightarrow> 'f server \<Rightarrow> 'f server" where
  "app_register L cmd h s = s\<lparr>app_ctx := register L cmd h (app_ctx s)\<rparr>"

definition app_register_help :: "'f golib \<Rightarrow> command \<Rightarrow> 'f server \<Rightarrow> 'f server" where
  "app_register_help L cmd s = s\<lparr>app_ctx := register_help L cmd (app_ctx s)\<rparr>"

definition app_help :: "'f server \<Rightarrow> (bytes \<rightharpoonup> command)" where
  "app_help s = ctx_help (app_ctx s)"

definition app_status :: "'f server \<Rightarrow> 'f server_status" where
  "app_status s = ctx_status (runtime_info s) (app_ctx s)"

text \<open>The \<open>RegisterBackend\<close> functions of the three backends.\<close>

definition register_default :: "'f golib \<Rightarrow> 'f server \<Rightarrow> 'f server" where
  "register_default L s =
     foldl (\<lambda>s (cmd, h). app_register_command L cmd (DefaultM h) s) s bdefault_commands"

definition register_stats :: "'f golib \<Rightarrow> int \<Rightarrow> 'f server \<Rightarrow> 'f server" where
  "register_stats L now s =
     foldl (\<lambda>s (cmd, h). app_register_command L cmd (StatsM h) s)
       (s\<lparr>stats_mem := new_memory_backend now\<rparr>) stats_commands"

definition register_pubsub :: "'f golib \<Rightarrow> 'f server \<Rightarrow> 'f server" where
  "register_pubsub L s =
     (foldl (\<lambda>s (cmd, h). app_register_command L cmd (PubSubM h) s) s pubsub_commands)
       \<lparr>pubsub_topics := Map.empty\<rparr>"

text \<open>\<open>Load\<close> and \<open>Unload\<close> of a backend: only the stats backend does something, it starts and stops
  the goroutine that flushes the counters.\<close>

fun backend_load :: "backend \<Rightarrow> 'f server \<Rightarrow> 'f server" where
  "backend_load DefaultBackend s = s"
| "backend_load StatsBackend s = s\<lparr>stats_ticking := True\<rparr>"
| "backend_load PubSubBackend s = s"

fun backend_unload :: "backend \<Rightarrow> 'f server \<Rightarrow> 'f server" where
  "backend_unload DefaultBackend s = s"
| "backend_unload StatsBackend s = s\<lparr>stats_ticking := False\<rparr>"
| "backend_unload PubSubBackend s = s"

definition load_backend :: "backend \<Rightarrow> 'f server \<Rightarrow> 'f server" where
  "load_backend b s = backend_load b (s\<lparr>app_backends := app_backends s @ [b]\<rparr>)"

definition get_client :: "address \<Rightarrow> 'f server \<Rightarrow> loc option" where
  "get_client addr s = app_clients s addr"

section \<open>Start-up\<close>

text \<open>The command-line configuration of the server program.\<close>

record config =
  cfg_port :: int64
  cfg_host :: bytes
  cfg_bprotocol :: bytes
  cfg_default :: bool
  cfg_stats :: bool
  cfg_pubsub :: bool

definition default_config :: config where
  "default_config =
     \<lparr>cfg_port = 7331, cfg_host = ''127.0.0.1'', cfg_bprotocol = ''redis'',
      cfg_default = True, cfg_stats = False, cfg_pubsub = False\<rparr>"

definition main_protocol :: "bytes \<Rightarrow> protocol res" where
  "main_protocol bprotocol =
     (if bprotocol = [] then Ok PInterface
      else if bprotocol = ''redis'' then Ok PRedis
      else if bprotocol = ''line'' then Ok PLine
      else Err (ErrText (''Invalid protocol '' @ bprotocol @ '' specified'')))"

text \<open>\<open>main\<close> up to the loading of the backends; \<open>now\<close> is the time of start-up.\<close>

definition boot :: "(address \<Rightarrow> gerr option) \<Rightarrow> 'f runtime \<Rightarrow> 'f golib \<Rightarrow> int \<Rightarrow> config \<Rightarrow> 'f server res" where
  "boot bind rt L now cfg =
     (case main_protocol (cfg_bprotocol cfg) of
        Err e \<Rightarrow> Err e
      | Panic p \<Rightarrow> Panic p
      | Ok p \<Rightarrow>
          (case listen_protocol bind rt (cfg_port cfg) (cfg_host cfg) p of
             Err e \<Rightarrow> Err e
           | Panic q \<Rightarrow> Panic q
           | Ok s \<Rightarrow>
               (let s1 = (if cfg_default cfg then load_backend DefaultBackend (register_default L s) else s);
                    s2 = (if cfg_stats cfg then load_backend StatsBackend (register_stats L now s1) else s1);
                    s3 = (if cfg_pubsub cfg then load_backend PubSubBackend (register_pubsub L s2) else s2)
                in Ok s3)))"

section \<open>Connections\<close>

text \<open>\<open>Name()\<close> of a protocol.\<close>

definition default_name :: bytes where
  [simp]: "default_name = ''interface''"

definition redis_name :: bytes where
  [simp]: "redis_name = ''redis''"

definition line_name :: bytes where
  [simp]: "line_name = ''line''"

fun protocol_name :: "protocol \<Rightarrow> bytes" where
  "protocol_name PInterface = default_name"
| "protocol_name PRedis = redis_name"
| "protocol_name PLine = line_name"

text \<open>\<open>HandleConnection\<close> of the three protocols: all of them make a client with 128-byte buffers.\<close>

definition default_connection :: "address \<Rightarrow> bytes \<Rightarrow> netclient" where
  [simp]: "default_connection addr input = new_network_client addr input"

definition redis_connection :: "address \<Rightarrow> bytes \<Rightarrow> netclient" where
  [simp]: "redis_connection addr input = new_redis_client_size addr input 128"

definition line_connection :: "address \<Rightarrow> bytes \<Rightarrow> netclient" where
  [simp]: "line_connection addr input = new_line_client_size addr input 128"

fun handle_connection :: "protocol \<Rightarrow> address \<Rightarrow> bytes \<Rightarrow> netclient" where
  "handle_connection PInterface = default_connection"
| "handle_connection PRedis = redis_connection"
| "handle_connection PLine = line_connection"

text \<open>
  The body of the accept loop for a connection from \<open>addr\<close>, on which \<open>input\<close> is going to arrive; \<open>c\<close>
  is the location of the new client.
\<close>

definition accept_connection :: "address \<Rightarrow> bytes \<Rightarrow> loc \<Rightarrow> 'f server \<Rightarrow> 'f server" where
  "accept_connection addr input c s =
     (let client = handle_connection (app_protocol s) addr input in
      s\<lparr>heap := (heap s)(c \<mapsto> client),
        app_clients := (app_clients s)(nc_address client \<mapsto> c),
        app_ctx := (app_ctx s)\<lparr>ctx_client_size := ctx_client_size (app_ctx s) + 1\<rparr>\<rparr>)"

text \<open>The exit watcher, once the client's \<open>Quit\<close> channel is closed.\<close>

definition reap_client :: "loc \<Rightarrow> 'f server \<Rightarrow> 'f server" where
  "reap_client c s =
     (case heap s c of
        None \<Rightarrow> s
      | Some n \<Rightarrow>
          s\<lparr>app_clients := (app_clients s)(nc_address n := None),
            app_ctx := (app_ctx s)\<lparr>ctx_client_size := ctx_client_size (app_ctx s) - 1\<rparr>\<rparr>)"

text \<open>
  The loop of \<open>Close\<close> over the clients; a panic of \<open>client.Close()\<close> ends it and the process.
\<close>

fun close_clients :: "(address \<rightharpoonup> loc) \<Rightarrow> address list \<Rightarrow> 'f server \<Rightarrow> string option \<times> 'f server" where
  "close_clients clients [] s = (None, s)"
| "close_clients clients (a # as) s =
     (case clients a of
        None \<Rightarrow> close_clients clients as s
      | Some c \<Rightarrow>
          (case close_client c s of
             (Some p, s') \<Rightarrow> (Some p, s')
           | (None, s') \<Rightarrow>
               close_clients clients as
                 (s'\<lparr>app_ctx := (app_ctx s')\<lparr>ctx_client_size := ctx_client_size (app_ctx s') - 1\<rparr>\<rparr>)))"

definition app_close :: "'f golib \<Rightarrow> 'f server \<Rightarrow> string option \<times> 'f server" where
  "app_close L s =
     (if app_closed s then (None, s)
      else
        let s1 = (app_event ''close'' ''broadcast server is closing.'' None s)\<lparr>app_closed := True\<rparr> in
        case close_clients (app_clients s1) (gl_range L (dom (app_clients s1))) s1 of
          (Some p, s2) \<Rightarrow> (Some p, s2)
        | (None, s2) \<Rightarrow>
            (let s3 = foldl (\<lambda>s b. backend_unload b s) s2 (app_backends s2)
             in (None, s3\<lparr>app_listening := False, app_quit := True\<rparr>)))"

text \<open>
  The start of \<open>AcceptConnections\<close>: the banner, the protocol and the address are reported as events.
  \<open>fill_verbs\<close> is \<open>fmt.Sprintf\<close> for the verbs \<open>%s\<close> and \<open>%d\<close>, with the arguments already as text.
\<close>

fun fill_verbs :: "bytes \<Rightarrow> bytes list \<Rightarrow> bytes" where
  "fill_verbs (a # b # cs) (t # ts) =
     (if a = CHR ''%'' \<and> (b = CHR ''s'' \<or> b = CHR ''d'') then t @ fill_verbs cs ts
      else a # fill_verbs (b # cs) (t # ts))"
| "fill_verbs cs ts = cs"

definition app_address :: "'f server \<Rightarrow> address" where
  [simp]: "app_address s = app_addr s"

definition accept_start :: "'f server \<Rightarrow> 'f server" where
  "accept_start s =
     app_event ''info'' (''listening for incoming connections on '' @ app_address s) None
       (app_event ''info'' (''setting read/write protocol to '' @ protocol_name (app_protocol s)) None
         (app_event ''info''
            (fill_verbs (app_header s)
               [app_name s, app_version s, app_bit s, append_int (app_port s), append_int (app_pid s)])
            None s))"

section \<open>The process\<close>

text \<open>
  The goroutines that exist: the locations whose run loop and whose exit watcher have not ended, and
  the panic that has ended the process.
\<close>

record 'f sys =
  srv :: "'f server"
  running :: "loc set"
  watching :: "loc set"
  dead :: "string option"

text \<open>The process when \<open>AcceptConnections\<close> enters its loop.\<close>

definition start :: "'f server \<Rightarrow> 'f sys" where
  "start s = \<lparr>srv = accept_start s, running = {}, watching = {}, dead = None\<rparr>"

text \<open>
  When a connection is closed under a running loop, the loop can still read what it had buffered;
  \<open>k\<close> says how much that is.
\<close>

definition cut_inputs :: "(loc \<Rightarrow> nat) \<Rightarrow> 'f server \<Rightarrow> 'f server" where
  "cut_inputs k s =
     s\<lparr>heap := (\<lambda>c. map_option (\<lambda>n. if nc_conn_open n then n
        else n\<lparr>nc_reader := (nc_reader n)\<lparr>br_in := take (k c) (br_in (nc_reader n))\<rparr>\<rparr>) (heap s c))\<rparr>"

definition addr_free :: "address \<Rightarrow> 'f server \<Rightarrow> bool" where
  "addr_free addr s \<longleftrightarrow> (\<forall>c n. heap s c = Some n \<and> nc_conn_open n \<longrightarrow> nc_addr n \<noteq> addr)"

text \<open>
  One step of a goroutine that the process has already started: a run loop advances by one request or
  ends, an exit watcher removes its client, a sender of \<open>publish\<close> delivers.  Requests of different clients
  interleave freely, but a step is a whole turn.  The source has finer turns: handlers lock once per method of the
  store, exit watchers use the map and the count without a lock, senders share a writer.  \<open>Locking\<close> and \<open>Concurrent\<close>
  justify whole turns for requests of one method; \<open>Races\<close> and \<open>SharedMaps\<close> have what goes wrong otherwise.
\<close>

inductive work :: "'f golib \<Rightarrow> 'f sys \<Rightarrow> 'f sys \<Rightarrow> bool" for L where
  request:
    "dead x = None \<Longrightarrow> c \<in> running x \<Longrightarrow>
     client_iter (app_protocol (srv x)) L c (srv x) = (Again, s) \<Longrightarrow> work L x (x\<lparr>srv := s\<rparr>)"
| finish:
    "dead x = None \<Longrightarrow> c \<in> running x \<Longrightarrow>
     client_iter (app_protocol (srv x)) L c (srv x) = (out, s) \<Longrightarrow> out \<noteq> Again \<Longrightarrow>
     run_deferred c (out, s) = (d, s') \<Longrightarrow>
     work L x (x\<lparr>srv := s', running := running x - {c}, dead := d\<rparr>)"
| reap:
    "dead x = None \<Longrightarrow> c \<in> watching x \<Longrightarrow> heap (srv x) c = Some n \<Longrightarrow> nc_quit_closed n \<Longrightarrow>
     work L x (x\<lparr>srv := reap_client c (srv x), watching := watching x - {c}\<rparr>)"
| send:
    "dead x = None \<Longrightarrow> i < length (pending (srv x)) \<Longrightarrow> pending (srv x) ! i = (c, d) \<Longrightarrow>
     work L x (x\<lparr>srv := (deliver c d (srv x))
       \<lparr>pending := take i (pending (srv x)) @ drop (Suc i) (pending (srv x))\<rparr>\<rparr>)"

text \<open>
  One step of the process: such a step, a new connection, the ticker of the stats backend, or \<open>Close\<close>, each a
  whole turn (an accept that overlaps an exit watcher: \<open>SharedMaps\<close>).  No two open connections have the
  same remote address (\<open>addr_free\<close>).
\<close>

inductive step :: "'f golib \<Rightarrow> 'f sys \<Rightarrow> 'f sys \<Rightarrow> bool" for L where
  work: "work L x y \<Longrightarrow> step L x y"
| accept:
    "dead x = None \<Longrightarrow> \<not> app_closed (srv x) \<Longrightarrow> app_listening (srv x) \<Longrightarrow>
     heap (srv x) c = None \<Longrightarrow> addr_free addr (srv x) \<Longrightarrow>
     step L x (x\<lparr>srv := accept_connection addr input c (srv x),
                 running := insert c (running x), watching := insert c (watching x)\<rparr>)"
| tick:
    "dead x = None \<Longrightarrow> stats_ticking (srv x) \<Longrightarrow>
     step L x (x\<lparr>srv := (srv x)\<lparr>stats_mem := flush_counters L now (stats_mem (srv x))\<rparr>\<rparr>)"
| shutdown:
    "dead x = None \<Longrightarrow> \<not> app_closed (srv x) \<Longrightarrow> app_close L (srv x) = (d, s) \<Longrightarrow>
     step L x (x\<lparr>srv := cut_inputs k s, dead := d\<rparr>)"

inductive reaches :: "'f golib \<Rightarrow> 'f sys \<Rightarrow> 'f sys \<Rightarrow> bool" for L where
  here: "reaches L x x"
| more: "reaches L x y \<Longrightarrow> step L y z \<Longrightarrow> reaches L x z"

inductive_cases workE: "work L x y"


section \<open>The invariant\<close>

text \<open>
  What holds as long as \<open>Close\<close> has not been called: the process lives; every running loop has a live
  client and a watcher; a watcher without a loop has a client that has exited; the server's map only
  leads to watched clients, under their own address; \<open>ClientSize\<close> counts the watchers.
\<close>

definition quit_at :: "loc \<Rightarrow> 'f server \<Rightarrow> bool" where
  "quit_at c s \<longleftrightarrow> (\<exists>n. heap s c = Some n \<and> nc_quit_closed n)"

definition addr_at :: "loc \<Rightarrow> 'f server \<Rightarrow> address option" where
  "addr_at c s = map_option nc_addr (heap s c)"

definition clients_ok :: "'f sys \<Rightarrow> bool" where
  "clients_ok x \<longleftrightarrow>
     finite (watching x) \<and> running x \<subseteq> watching x \<and>
     (\<forall>c \<in> running x. live_at c (srv x)) \<and>
     (\<forall>c \<in> watching x - running x. quit_at c (srv x)) \<and>
     (\<forall>a c. app_clients (srv x) a = Some c \<longrightarrow> c \<in> watching x \<and> addr_at c (srv x) = Some a)"

definition count_ok :: "'f sys \<Rightarrow> bool" where
  "count_ok x \<longleftrightarrow> ctx_client_size (app_ctx (srv x)) = int (card (watching x))"

definition sys_ok :: "'f sys \<Rightarrow> bool" where
  "sys_ok x \<longleftrightarrow>
     backends_ok (srv x) \<and>
     (\<not> app_closed (srv x) \<longrightarrow> dead x = None \<and> clients_ok x \<and> count_ok x)"

lemma calm_at:
  assumes "calm s s'"
  shows "quit_at c s' = quit_at c s" "addr_at c s' = addr_at c s"
proof -
  from assms have "map_option conn_state (heap s' c) = map_option conn_state (heap s c)"
    by (simp add: calm_def)
  then show "quit_at c s' = quit_at c s" "addr_at c s' = addr_at c s"
    by (cases "heap s' c"; cases "heap s c"; simp add: quit_at_def addr_at_def conn_state_def)+
qed

lemma clients_ok_calm:
  assumes "clients_ok x" and "calm (srv x) s"
  shows "clients_ok (x\<lparr>srv := s\<rparr>)"
proof -
  have "app_clients s = app_clients (srv x)" using assms(2) by (simp add: calm_def same_app_def)
  with assms(1) show ?thesis
    by (simp add: clients_ok_def calm_live [OF assms(2)] calm_at [OF assms(2)])
qed

lemma clients_ok_heap:
  assumes "clients_ok x" and "c \<in> watching x"
  shows "\<exists>n. heap (srv x) c = Some n"
  using assms unfolding clients_ok_def live_at_def quit_at_def by blast

lemma sys_ok_calm:
  assumes "sys_ok x" and "calm (srv x) s" and "backends_ok s"
  shows "sys_ok (x\<lparr>srv := s\<rparr>)"
proof -
  from assms(2) have "app_closed s = app_closed (srv x)"
    "ctx_client_size (app_ctx s) = ctx_client_size (app_ctx (srv x))"
    by (simp_all add: calm_def same_app_def)
  with assms clients_ok_calm [of x s] show ?thesis by (simp add: sys_ok_def count_ok_def)
qed

lemma handle_connection_eq: "handle_connection p addr input = nc_initialize addr input 128"
  by (cases p) (simp_all add: new_network_client_def)

lemma accept_clients_ok:
  assumes "clients_ok x" and "heap (srv x) c = None"
  shows "clients_ok (x\<lparr>srv := accept_connection addr input c (srv x),
    running := insert c (running x), watching := insert c (watching x)\<rparr>)"
proof -
  have a: "nc_addr (nc_initialize addr input 128) = addr" by (simp add: nc_initialize_def)
  have c: "c \<notin> watching x" using assms clients_ok_heap [of x c] by auto
  let ?s = "accept_connection addr input c (srv x)"
  have "live_at d ?s = (d = c \<or> live_at d (srv x))" "quit_at d ?s = (d \<noteq> c \<and> quit_at d (srv x))"
    "addr_at d ?s = (if d = c then Some addr else addr_at d (srv x))" for d
    using assms(2) a by (auto simp: live_at_def quit_at_def addr_at_def accept_connection_def
        handle_connection_eq nc_initialize_def nc_live_def Let_def)
  moreover have "app_clients ?s = (app_clients (srv x))(addr \<mapsto> c)"
    using a by (simp add: accept_connection_def handle_connection_eq nc_address_def Let_def)
  ultimately show ?thesis using assms(1) c by (auto simp: clients_ok_def)
qed

lemma accept_count_ok:
  assumes "clients_ok x" and "count_ok x" and "heap (srv x) c = None"
  shows "count_ok (x\<lparr>srv := accept_connection addr input c (srv x),
    running := insert c (running x), watching := insert c (watching x)\<rparr>)"
proof -
  have "c \<notin> watching x" using assms(1,3) clients_ok_heap [of x c] by auto
  moreover have "finite (watching x)" using assms(1) by (simp add: clients_ok_def)
  ultimately show ?thesis using assms(2) by (simp add: count_ok_def accept_connection_def Let_def)
qed

lemma reap_clients_ok:
  assumes "clients_ok x" and "c \<in> watching x" and "heap (srv x) c = Some n" and "nc_quit_closed n"
  shows "clients_ok (x\<lparr>srv := reap_client c (srv x), watching := watching x - {c}\<rparr>)"
proof -
  have "c \<notin> running x" using assms by (auto simp: clients_ok_def live_at_def nc_live_def)
  moreover have "live_at d (reap_client c (srv x)) = live_at d (srv x)"
    "quit_at d (reap_client c (srv x)) = quit_at d (srv x)"
    "addr_at d (reap_client c (srv x)) = addr_at d (srv x)" for d
    using assms(3) by (simp_all add: live_at_def quit_at_def addr_at_def reap_client_def)
  moreover have "app_clients (reap_client c (srv x)) = (app_clients (srv x))(nc_addr n := None)"
    using assms(3) by (simp add: reap_client_def nc_address_def)
  moreover have "addr_at c (srv x) = Some (nc_addr n)" using assms(3) by (simp add: addr_at_def)
  ultimately show ?thesis using assms(1) by (auto simp: clients_ok_def)
qed

lemma reap_count_ok:
  assumes "clients_ok x" and "count_ok x" and "c \<in> watching x" and "heap (srv x) c = Some n"
  shows "count_ok (x\<lparr>srv := reap_client c (srv x), watching := watching x - {c}\<rparr>)"
proof -
  have "finite (watching x)" using assms(1) by (simp add: clients_ok_def)
  with assms(2-4) show ?thesis by (simp add: count_ok_def reap_client_def int_card_remove del: card_Diff_insert)
qed

text \<open>The end of a run loop for a live client: the client is closed and the process lives.\<close>

lemma run_deferred_live:
  assumes "live_at c s" and "\<forall>p. out \<noteq> Crashed p"
  obtains s1 n where "run_deferred c (out, s) = (None, s1\<lparr>heap := (heap s1)(c \<mapsto> n)\<rparr>)" and "calm s s1"
    and "nc_quit_closed n" and "\<exists>m. heap s1 c = Some m \<and> nc_addr n = nc_addr m" and "backends_ok s1 = backends_ok s"
proof -
  obtain s1 where s1: "run_deferred c (out, s) = close_client c s1" "calm s s1" "backends_ok s1 = backends_ok s"
  proof (cases out)
    case (Panicked p)
    then show ?thesis
      using framed_calm [OF framed_basic(2), of s "''fatal''" "''client run panic''" "Some (ErrText p)"]
      by (intro that [of "app_event ''fatal'' ''client run panic'' (Some (ErrText p)) s"])
        (simp_all add: run_deferred_def)
  qed (use assms(2) that [of s] in \<open>auto simp: run_deferred_def\<close>)
  then have "live_at c s1" using assms(1) by (simp add: calm_live)
  then obtain m where m: "heap s1 c = Some m" "nc_live m" by (auto simp: live_at_def)
  let ?n = "(conn_close m)\<lparr>nc_quit_closed := True, nc_reqerr_closed := True\<rparr>"
  have "close_client c s1 = (None, s1\<lparr>heap := (heap s1)(c \<mapsto> ?n)\<rparr>)"
    using m by (simp add: close_client_def nc_close_live)
  with s1 m show ?thesis by (intro that [of s1 ?n]) (simp_all add: conn_close_def)
qed

lemma finish_clients_ok:
  assumes "clients_ok x" and "c \<in> running x" and "calm (srv x) s" and "nc_quit_closed n"
    and "\<exists>m. heap s c = Some m \<and> nc_addr n = nc_addr m"
  shows "clients_ok (x\<lparr>srv := s\<lparr>heap := (heap s)(c \<mapsto> n)\<rparr>, running := running x - {c}, dead := None\<rparr>)"
proof -
  let ?s = "s\<lparr>heap := (heap s)(c \<mapsto> n)\<rparr>"
  have "quit_at d ?s = (d = c \<or> quit_at d s)" for d using assms(4) by (simp add: quit_at_def)
  moreover have "live_at d ?s = live_at d s" if "d \<noteq> c" for d using that by (simp add: live_at_def)
  moreover have "addr_at d ?s = addr_at d s" for d using assms(5) by (auto simp: addr_at_def)
  ultimately show ?thesis
    using clients_ok_calm [OF assms(1,3)] assms(2) unfolding clients_ok_def by auto
qed

section \<open>Every step keeps the invariant\<close>

lemma close_client_rest:
  assumes "close_client c s = (d, s')"
  shows "backends_ok s' = backends_ok s" "app_closed s' = app_closed s" "app_backends s' = app_backends s"
    "ctx_client_size (app_ctx s') = ctx_client_size (app_ctx s)"
  using assms by (auto simp: close_client_def split: option.splits prod.splits)

lemma close_clients_rest:
  "backends_ok (snd (close_clients C as s)) = backends_ok s \<and>
   app_closed (snd (close_clients C as s)) = app_closed s"
proof (induction as arbitrary: s)
  case (Cons a as)
  show ?case
  proof (cases "C a")
    case (Some c)
    obtain e t where t: "close_client c s = (e, t)" by fastforce
    note rest = close_client_rest [OF t]
    let ?t = "t\<lparr>app_ctx := (app_ctx t)\<lparr>ctx_client_size := ctx_client_size (app_ctx t) - 1\<rparr>\<rparr>"
    show ?thesis using Some t rest Cons.IH [of ?t] by (cases e) simp_all
  next
    case None
    then show ?thesis using Cons.IH [of s] by simp
  qed
qed simp

lemma unload_rest:
  "backends_ok (foldl (\<lambda>s b. backend_unload b s) s bs) = backends_ok s"
  "app_closed (foldl (\<lambda>s b. backend_unload b s) s bs) = app_closed s"
proof (induction bs arbitrary: s)
  case (Cons b bs)
  { case 1 show ?case using Cons by (cases b) (simp_all add: backends_ok_def) }
  { case 2 show ?case using Cons by (cases b) simp_all }
qed simp_all

lemma app_close_rest:
  assumes "app_close L s = (d, s')"
  shows "backends_ok s' = backends_ok s" "app_closed s'"
proof -
  have "backends_ok s' = backends_ok s \<and> app_closed s'"
  proof (cases "app_closed s")
    case False
    let ?t = "(app_event ''close'' ''broadcast server is closing.'' None s)\<lparr>app_closed := True\<rparr>"
    obtain e u where u: "close_clients (app_clients ?t) (gl_range L (dom (app_clients ?t))) ?t = (e, u)"
      by fastforce
    from close_clients_rest [of "app_clients ?t" "gl_range L (dom (app_clients ?t))" ?t] u have "backends_ok u = backends_ok s" "app_closed u"
      by (simp_all add: backends_ok_def app_event_def)
    with assms False u show ?thesis
      using unload_rest [of u "app_backends u"]
      by (cases e) (auto simp: app_close_def backends_ok_def Let_def)
  qed (use assms in \<open>simp add: app_close_def\<close>)
  then show "backends_ok s' = backends_ok s" "app_closed s'" by auto
qed

lemma sys_ok_finish:
  assumes "sys_ok x" and "c \<in> running x"
    and "client_iter (app_protocol (srv x)) L c (srv x) = (out, s)" and "run_deferred c (out, s) = (d, s')"
  shows "sys_ok (x\<lparr>srv := s', running := running x - {c}, dead := d\<rparr>)"
proof -
  have calm: "calm (srv x) s" and bk: "backends_ok s"
    using client_iter_calm [of "srv x"] client_iter_backends_ok [of "srv x"] assms(1,3)
    by (auto simp: sys_ok_def dest: spec) (metis snd_conv)+
  have closed: "app_closed s' = app_closed (srv x)" and bk': "backends_ok s'"
  proof -
    have "app_closed s' = app_closed s \<and> backends_ok s' = backends_ok s"
      using assms(4) close_client_rest [of c]
      by (cases out) (fastforce simp: run_deferred_def app_event_def backends_ok_def)+
    with calm bk show "app_closed s' = app_closed (srv x)" "backends_ok s'"
      by (auto simp: calm_def same_app_def)
  qed
  show ?thesis
  proof (cases "app_closed (srv x)")
    case False
    with assms(1) have ok: "clients_ok x" "count_ok x" by (auto simp: sys_ok_def)
    then have "live_at c (srv x)" using assms(2) by (simp add: clients_ok_def)
    then have live: "live_at c s" and nc: "\<forall>p. out \<noteq> Crashed p"
      using calm calm_live client_iter_no_crash [of c "srv x"] assms(3) by (blast, metis fst_conv)
    obtain s1 n where s1: "run_deferred c (out, s) = (None, s1\<lparr>heap := (heap s1)(c \<mapsto> n)\<rparr>)" "calm s s1"
      "nc_quit_closed n" "\<exists>m. heap s1 c = Some m \<and> nc_addr n = nc_addr m"
      using run_deferred_live [OF live nc] by metis
    have "calm (srv x) s1" using calm_trans calm s1(2) by blast
    from finish_clients_ok [OF ok(1) assms(2) this s1(3,4)] s1(1) assms(4) ok(2) bk' False closed \<open>calm (srv x) s1\<close>
    show ?thesis by (auto simp: sys_ok_def count_ok_def calm_def same_app_def)
  qed (use closed bk' in \<open>simp add: sys_ok_def\<close>)
qed


lemma sys_ok_accept:
  assumes "sys_ok x" and "\<not> app_closed (srv x)" and "heap (srv x) c = None"
  shows "sys_ok (x\<lparr>srv := accept_connection addr input c (srv x),
    running := insert c (running x), watching := insert c (watching x)\<rparr>)"
proof -
  from assms(1,2) have "clients_ok x" "count_ok x" "dead x = None" "backends_ok (srv x)"
    by (auto simp: sys_ok_def)
  with accept_clients_ok [of x c addr input] accept_count_ok [of x c addr input] assms(3) show ?thesis
    by (simp add: sys_ok_def) (simp add: accept_connection_def backends_ok_def Let_def)
qed

lemma sys_ok_reap:
  assumes "sys_ok x" and "c \<in> watching x" and "heap (srv x) c = Some n" and "nc_quit_closed n"
  shows "sys_ok (x\<lparr>srv := reap_client c (srv x), watching := watching x - {c}\<rparr>)"
proof -
  have "app_closed (reap_client c (srv x)) = app_closed (srv x)"
    "backends_ok (reap_client c (srv x)) = backends_ok (srv x)"
    using assms(3) by (simp_all add: reap_client_def backends_ok_def)
  then show ?thesis
    using assms reap_clients_ok [OF _ assms(2-4)] reap_count_ok [OF _ _ assms(2,3)]
    by (simp add: sys_ok_def)
qed

lemma sys_ok_send:
  assumes "sys_ok x"
  shows "sys_ok (x\<lparr>srv := (deliver c d (srv x))\<lparr>pending := q\<rparr>\<rparr>)"
proof (rule sys_ok_calm [OF assms])
  have "framed (srv x) ((client_write c f (srv x))\<lparr>pending := q\<rparr>)" for f
    using framed_basic(1) [of "srv x" c f] by (simp add: framed_def)
  then show "calm (srv x) ((deliver c d (srv x))\<lparr>pending := q\<rparr>)"
    unfolding deliver_def by (intro framed_calm)
  show "backends_ok ((deliver c d (srv x))\<lparr>pending := q\<rparr>)"
    using assms by (simp add: sys_ok_def deliver_def)
qed

lemma sys_ok_tick:
  assumes "sys_ok x"
  shows "sys_ok (x\<lparr>srv := (srv x)\<lparr>stats_mem := flush_counters L now (stats_mem (srv x))\<rparr>\<rparr>)"
proof (rule sys_ok_calm [OF assms])
  show "calm (srv x) ((srv x)\<lparr>stats_mem := flush_counters L now (stats_mem (srv x))\<rparr>)"
    by (rule framed_calm) (simp add: framed_def)
  have "mem_ok (flush_counters L now (stats_mem (srv x)))"
    using assms mem_exec_ok [of "stats_mem (srv x)" L "FlushCounters now"]
    by (simp add: sys_ok_def backends_ok_def)
  with assms show "backends_ok ((srv x)\<lparr>stats_mem := flush_counters L now (stats_mem (srv x))\<rparr>)"
    by (simp add: sys_ok_def backends_ok_def)
qed

lemma sys_ok_shutdown:
  assumes "sys_ok x" and "app_close L (srv x) = (d, s)"
  shows "sys_ok (x\<lparr>srv := cut_inputs k s, dead := d\<rparr>)"
proof -
  have "backends_ok (cut_inputs k s) = backends_ok s" "app_closed (cut_inputs k s) = app_closed s"
    by (simp_all add: cut_inputs_def)
  with assms app_close_rest [OF assms(2)] show ?thesis by (simp add: sys_ok_def)
qed

lemma work_sys_ok: "work L x y \<Longrightarrow> sys_ok x \<Longrightarrow> sys_ok y"
proof (induction rule: work.induct)
  case (request x c s)
  then show ?case
    using sys_ok_calm [of x s] client_iter_calm [of "srv x" "app_protocol (srv x)" L c]
      client_iter_backends_ok [of "srv x" "app_protocol (srv x)" L c]
    by (simp add: sys_ok_def)
qed (blast intro: sys_ok_finish sys_ok_reap sys_ok_send)+

lemma step_sys_ok: "step L x y \<Longrightarrow> sys_ok x \<Longrightarrow> sys_ok y"
  by (induction rule: step.induct) (blast intro: work_sys_ok sys_ok_accept sys_ok_tick sys_ok_shutdown)+

lemma reaches_sys_ok: "reaches L x y \<Longrightarrow> sys_ok x \<Longrightarrow> sys_ok y"
  by (induction rule: reaches.induct) (auto intro: step_sys_ok)

section \<open>Start-up establishes it\<close>

lemma foldl_register:
  "foldl (\<lambda>s (cmd, h). app_register_command L cmd (f h) s) s cs =
     s\<lparr>app_ctx := register_commands L (map (\<lambda>(cmd, h). (cmd, f h)) cs) (app_ctx s)\<rparr>"
  by (induction cs arbitrary: s) (auto simp: app_register_command_def)

text \<open>The commands that a configuration makes available.\<close>

definition boot_commands :: "config \<Rightarrow> (command \<times> handler_method) list" where
  "boot_commands cfg =
     (if cfg_default cfg then map (\<lambda>(cmd, h). (cmd, DefaultM h)) bdefault_commands else []) @
     (if cfg_stats cfg then map (\<lambda>(cmd, h). (cmd, StatsM h)) stats_commands else []) @
     (if cfg_pubsub cfg then map (\<lambda>(cmd, h). (cmd, PubSubM h)) pubsub_commands else [])"

lemma boot_Ok:
  assumes "boot bind rt L now cfg = Ok s"
  shows "main_protocol (cfg_bprotocol cfg) = Ok (app_protocol s) \<and>
    app_ctx s = register_commands L (boot_commands cfg) new_broadcast_context \<and>
    app_clients s = Map.empty \<and> heap s = Map.empty \<and> \<not> app_closed s \<and> app_listening s \<and>
    backends_ok s \<and> pending s = [] \<and> pubsub_topics s = Map.empty \<and> runtime_info s = rt \<and>
    (cfg_stats cfg \<longrightarrow> stats_mem s = new_memory_backend now)"
proof -
  obtain p where p: "main_protocol (cfg_bprotocol cfg) = Ok p"
    using assms by (auto simp: boot_def split: res.splits)
  have b: "bind (cfg_host cfg @ '':'' @ append_int (cfg_port cfg)) = None"
    using assms p by (auto simp: boot_def listen_protocol_def Let_def split: res.splits option.splits)
  note ops = load_backend_def register_default_def register_stats_def register_pubsub_def foldl_register
    boot_commands_def register_commands_append backends_ok_def
  show ?thesis
    using assms p b
    by (cases "cfg_default cfg"; cases "cfg_stats cfg"; cases "cfg_pubsub cfg")
       (auto simp: boot_def listen_protocol_def ops)
qed

lemma accept_start_fields [simp]:
  "heap (accept_start s) = heap s" "app_clients (accept_start s) = app_clients s"
  "app_closed (accept_start s) = app_closed s" "app_listening (accept_start s) = app_listening s"
  "app_protocol (accept_start s) = app_protocol s" "stats_mem (accept_start s) = stats_mem s"
  "pubsub_topics (accept_start s) = pubsub_topics s" "pending (accept_start s) = pending s"
  "app_backends (accept_start s) = app_backends s" "backends_ok (accept_start s) = backends_ok s"
  "ctx_commands (app_ctx (accept_start s)) = ctx_commands (app_ctx s)"
  "ctx_help (app_ctx (accept_start s)) = ctx_help (app_ctx s)"
  "ctx_client_size (app_ctx (accept_start s)) = ctx_client_size (app_ctx s)"
  by (simp_all add: accept_start_def backends_ok_def) (simp_all add: app_event_def emit_event_def)

lemma boot_sys_ok: "boot bind rt L now cfg = Ok s \<Longrightarrow> sys_ok (start s)"
  by (drule boot_Ok)
     (simp add: sys_ok_def start_def clients_ok_def count_ok_def new_broadcast_context_def)


lemma boot_total:
  assumes "main_protocol (cfg_bprotocol cfg) = Ok p"
  shows "\<exists>s. boot (\<lambda>_. None) rt L now cfg = Ok s"
  using assms by (simp add: boot_def listen_protocol_def Let_def)

text \<open>The process right after the first connection.\<close>

definition first_connection :: "address \<Rightarrow> bytes \<Rightarrow> 'f server \<Rightarrow> 'f sys" where
  "first_connection addr input s =
     \<lparr>srv = accept_connection addr input 0 (accept_start s), running = {0}, watching = {0}, dead = None\<rparr>"

lemma first_connection_reaches:
  assumes "boot bind rt L now cfg = Ok s"
  shows "reaches L (start s) (first_connection addr input s)"
proof -
  have "step L (start s) ((start s)\<lparr>srv := accept_connection addr input 0 (srv (start s)),
      running := insert 0 (running (start s)), watching := insert 0 (watching (start s))\<rparr>)"
    using boot_Ok [OF assms] by (intro step.accept) (simp_all add: start_def addr_free_def)
  then have "step L (start s) (first_connection addr input s)"
    by (simp add: start_def first_connection_def)
  then show ?thesis by (blast intro: reaches.intros)
qed

section \<open>The goroutines finish their work\<close>

text \<open>
  The unread input of the running loops, then the deliveries and exits that are still to be processed:
  every step of \<open>work\<close> decreases this measure, so the goroutines cannot be busy for ever.
\<close>

definition work_left :: "'f sys \<Rightarrow> nat \<times> nat" where
  "work_left x =
     ((\<Sum>c \<in> running x. Suc (input_left c (srv x))), length (pending (srv x)) + card (watching x))"

lemma only_writers_input:
  assumes "only_writers s s'"
  shows "input_left d s' = input_left d s"
proof -
  from assms obtain w where "heap s' d = map_option (\<lambda>n. n\<lparr>nc_writer := w\<rparr>) (heap s d)"
    unfolding only_writers_def by blast
  then show ?thesis by (cases "heap s d") (simp_all add: input_left_def)
qed

lemma client_read_other: "client_read c m s = (r, s') \<Longrightarrow> d \<noteq> c \<Longrightarrow> input_left d s' = input_left d s"
  by (auto simp: client_read_def input_left_def split: option.splits prod.splits)

lemma loop_iter_other:
  assumes "\<And>v t. framed t (snd (act v t))" and "d \<noteq> c"
  shows "input_left d (snd (loop_iter c recv act s)) = input_left d s"
proof -
  obtain r t where t: "client_read c recv s = (r, t)" by fastforce
  have "input_left d (snd (act v t)) = input_left d t" for v
    using only_writers_input assms(1) [of t v] by (auto simp: framed_def)
  moreover have "input_left d (snd (read_failed e t)) = input_left d t" for e
    using only_writers_input [of t "snd (read_failed e t)"] by (simp add: read_failed_def only_writers_event)
  ultimately show ?thesis using client_read_other [OF t assms(2)] t
    by (cases r) (simp_all add: loop_iter_def)
qed

lemma client_iter_other: "d \<noteq> c \<Longrightarrow> input_left d (snd (client_iter p L c s)) = input_left d s"
  by (cases p) (simp_all add: loop_iter_other acts_framed)

lemma client_iter_consumes: "client_iter p L c s = (Again, s') \<Longrightarrow> input_left c s' < input_left c s"
  by (cases p) (simp_all add: iproto.iter_consumes rproto.iter_consumes lproto.iter_consumes)

lemma run_deferred_other: "d \<noteq> c \<Longrightarrow> input_left d (snd (run_deferred c (out, s))) = input_left d s"
  by (cases out) (auto simp: run_deferred_def close_client_def app_event_def input_left_def split: option.split prod.split)

lemma work_decreases:
  assumes "work L x y" and "finite (running x)" and "finite (watching x)"
  shows "(work_left y, work_left x) \<in> less_than <*lex*> less_than"
  using assms(1)
proof cases
  case (request c s)
  have other: "input_left d s = input_left d (srv x)" if "d \<noteq> c" for d
    using client_iter_other [OF that, of "app_protocol (srv x)" L "srv x"] request by simp
  have less: "input_left c s < input_left c (srv x)" using client_iter_consumes request by blast
  have "(\<Sum>d \<in> running x. Suc (input_left d s)) < (\<Sum>d \<in> running x. Suc (input_left d (srv x)))"
    using assms(2) request(3) less other by (intro sum_strict_mono_ex1) (auto, metis eq_iff less_imp_le)
  then show ?thesis using request(1) by (simp add: work_left_def)
next
  case (finish c out s d s')
  have other: "input_left e s' = input_left e (srv x)" if "e \<noteq> c" for e
    using client_iter_other [OF that, of "app_protocol (srv x)" L "srv x"] run_deferred_other [OF that, of out s] finish by simp
  have "(\<Sum>e \<in> running x - {c}. Suc (input_left e s')) = (\<Sum>e \<in> running x - {c}. Suc (input_left e (srv x)))"
    using other by (intro sum.cong) auto
  also have "\<dots> < (\<Sum>e \<in> running x. Suc (input_left e (srv x)))"
    using assms(2) finish(3) by (simp add: sum.remove [of "running x" c])
  finally show ?thesis using finish(1) by (simp add: work_left_def)
next
  case (reap c n)
  have h: "input_left d (reap_client c (srv x)) = input_left d (srv x)" "pending (reap_client c (srv x)) = pending (srv x)" for d
    using reap(4) by (simp_all add: reap_client_def input_left_def)
  have "card (watching x - {c}) < card (watching x)" using assms(3) reap(3) by (rule card_Diff1_less)
  then show ?thesis using reap(1) h by (simp add: work_left_def)
next
  case (send i c d)
  have "input_left e ((deliver c d (srv x))\<lparr>pending := q\<rparr>) = input_left e (srv x)" for e q
    using only_writers_input [OF only_writers_write, of e c "seqw (write_bulk d) bw_flush" "srv x"]
    by (simp add: deliver_def input_left_def)
  then show ?thesis using send(1,3) by (simp add: work_left_def)
qed

lemma work_app_closed: "work L x y \<Longrightarrow> app_closed (srv y) = app_closed (srv x)"
proof (induction rule: work.induct)
  case (request x c s)
  then show ?case using client_iter_calm [of "srv x" "app_protocol (srv x)" L c] by (simp add: calm_def same_app_def)
next
  case (finish x c out s d s')
  have "app_closed s = app_closed (srv x)"
    using client_iter_calm [of "srv x" "app_protocol (srv x)" L c] finish by (simp add: calm_def same_app_def)
  moreover have "app_closed s' = app_closed s"
    using finish(5) close_client_rest(2) [of c] by (cases out) (fastforce simp: run_deferred_def app_event_def)+
  ultimately show ?case by simp
next
  case (reap x c n)
  then show ?case by (simp add: reap_client_def)
next
  case (send x i c d)
  have "same_app (srv x) (client_write c (seqw (write_bulk d) bw_flush) (srv x))" by simp
  then show ?case by (simp add: deliver_def same_app_def)
qed

text \<open>States before \<open>Close\<close> that satisfy the invariant.\<close>

definition open_ok :: "'f sys \<Rightarrow> bool" where
  "open_ok x \<longleftrightarrow> sys_ok x \<and> \<not> app_closed (srv x)"

lemma work_open_ok: "work L x y \<Longrightarrow> open_ok x \<Longrightarrow> open_ok y"
  by (simp add: open_ok_def work_sys_ok work_app_closed)

lemma open_ok_finite: "open_ok x \<Longrightarrow> finite (running x) \<and> finite (watching x)"
  by (auto simp: open_ok_def sys_ok_def clients_ok_def intro: finite_subset)

lemma no_endless_work:
  assumes "open_ok (f 0)" and "\<And>i. work L (f i) (f (Suc i))"
  shows False
proof -
  have ok: "open_ok (f i)" for i by (induction i) (use assms work_open_ok in blast)+
  let ?g = "\<lambda>i. work_left (f i)"
  have "\<forall>i. (?g (Suc i), ?g i) \<in> less_than <*lex*> less_than"
    using work_decreases [OF assms(2)] open_ok_finite [OF ok] by blast
  then have "\<exists>g. \<forall>i. (g (Suc i), g i) \<in> (less_than <*lex*> less_than :: ((nat \<times> nat) \<times> nat \<times> nat) set)"
    by (rule exI [of _ ?g])
  moreover have "wf (less_than <*lex*> less_than :: ((nat \<times> nat) \<times> nat \<times> nat) set)"
    by (intro wf_lex_prod wf_less_than)
  ultimately show False unfolding wf_iff_no_infinite_down_chain by blast
qed

lemma works_open_ok: "(work L)\<^sup>*\<^sup>* x y \<Longrightarrow> open_ok x \<Longrightarrow> open_ok y"
  by (induction rule: rtranclp_induct) (blast intro: work_open_ok)+

lemma work_ends:
  assumes "open_ok x"
  shows "\<exists>y. (work L)\<^sup>*\<^sup>* x y \<and> (\<nexists>z. work L y z)"
proof -
  have "wf (inv_image (less_than <*lex*> less_than) work_left)" by (intro wf_inv_image wf_lex_prod wf_less_than)
  then show ?thesis using assms
  proof (induction x rule: wf_induct_rule)
    case (less x)
    show ?case
    proof (cases "\<exists>y. work L x y")
      case True
      then obtain y where y: "work L x y" by blast
      then have "(y, x) \<in> inv_image (less_than <*lex*> less_than) work_left"
        using work_decreases open_ok_finite [OF less.prems] unfolding in_inv_image by blast
      from less.IH [OF this] work_open_ok [OF y less.prems] y show ?thesis
        by (blast intro: converse_rtranclp_into_rtranclp)
    qed blast
  qed
qed

text \<open>Where the work ends, every connection is gone and every message delivered.\<close>

lemma work_done:
  assumes "open_ok x" and "\<nexists>y. work L x y"
  shows "running x = {}" "watching x = {}" "pending (srv x) = []" "app_clients (srv x) = Map.empty"
    "ctx_client_size (app_ctx (srv x)) = 0"
proof -
  from assms(1) have d: "dead x = None" and ok: "clients_ok x" "count_ok x" by (auto simp: open_ok_def sys_ok_def)
  show r: "running x = {}"
  proof (rule ccontr)
    assume "running x \<noteq> {}"
    then obtain c where c: "c \<in> running x" by blast
    obtain out s where s: "client_iter (app_protocol (srv x)) L c (srv x) = (out, s)" by fastforce
    obtain e s' where "run_deferred c (out, s) = (e, s')" by fastforce
    with work.request [OF d c] work.finish [OF d c s] s assms(2) show False by (cases "out = Again") blast+
  qed
  show w: "watching x = {}"
  proof (rule ccontr)
    assume "watching x \<noteq> {}"
    then obtain c where c: "c \<in> watching x" by blast
    with ok(1) r obtain n where "heap (srv x) c = Some n" "nc_quit_closed n" by (auto simp: clients_ok_def quit_at_def)
    with work.reap [OF d c] assms(2) show False by blast
  qed
  show "pending (srv x) = []"
  proof (rule ccontr)
    assume "pending (srv x) \<noteq> []"
    then have "0 < length (pending (srv x))" by simp
    with work.send [OF d this] assms(2) show False by (metis surj_pair)
  qed
  show "app_clients (srv x) = Map.empty" using ok(1) w by (auto simp: clients_ok_def fun_eq_iff)
  show "ctx_client_size (app_ctx (srv x)) = 0" using ok(2) w by (simp add: count_ok_def)
qed

section \<open>Closing the server\<close>

definition closed_at :: "loc \<Rightarrow> 'f server \<Rightarrow> bool" where
  "closed_at c s \<longleftrightarrow>
     (\<exists>n. heap s c = Some n \<and> nc_conn n \<and> nc_quit_closed n \<and> nc_reqerr_closed n \<and> \<not> nc_conn_open n)"

lemma close_client_live:
  assumes "live_at c s"
  shows "\<exists>n. close_client c s = (None, s\<lparr>heap := (heap s)(c \<mapsto> n)\<rparr>) \<and> closed_at c (s\<lparr>heap := (heap s)(c \<mapsto> n)\<rparr>)"
  using assms by (auto simp: live_at_def close_client_def nc_close_live closed_at_def conn_close_def nc_live_def)

lemma close_clients_live:
  assumes "\<forall>a \<in> set as. \<exists>c. C a = Some c \<and> live_at c s" and "distinct (map (\<lambda>a. the (C a)) as)"
  shows "\<exists>s'. close_clients C as s = (None, s') \<and>
    ctx_client_size (app_ctx s') = ctx_client_size (app_ctx s) - int (length as) \<and>
    (\<forall>a \<in> set as. closed_at (the (C a)) s') \<and>
    (\<forall>d. d \<notin> (\<lambda>a. the (C a)) ` set as \<longrightarrow> heap s' d = heap s d)"
  using assms
proof (induction as arbitrary: s)
  case (Cons a as)
  then obtain c where c: "C a = Some c" "live_at c s" by auto
  from close_client_live [OF c(2)] obtain n where
    n: "close_client c s = (None, s\<lparr>heap := (heap s)(c \<mapsto> n)\<rparr>)" "closed_at c (s\<lparr>heap := (heap s)(c \<mapsto> n)\<rparr>)"
    by blast
  let ?t = "s\<lparr>heap := (heap s)(c \<mapsto> n),
    app_ctx := (app_ctx s)\<lparr>ctx_client_size := ctx_client_size (app_ctx s) - 1\<rparr>\<rparr>"
  have c_as: "c \<notin> (\<lambda>a. the (C a)) ` set as" using Cons.prems(2) c(1) by auto
  have "\<forall>b \<in> set as. \<exists>d. C b = Some d \<and> live_at d ?t"
  proof
    fix b assume b: "b \<in> set as"
    with Cons.prems(1) obtain d where d: "C b = Some d" "live_at d s" by auto
    with b c_as have "d \<noteq> c" by force
    with d show "\<exists>d. C b = Some d \<and> live_at d ?t" by (simp add: live_at_def)
  qed
  from Cons.IH [OF this] Cons.prems(2) obtain s' where s': "close_clients C as ?t = (None, s')"
    "ctx_client_size (app_ctx s') = ctx_client_size (app_ctx ?t) - int (length as)"
    "\<forall>a \<in> set as. closed_at (the (C a)) s'"
    "\<forall>d. d \<notin> (\<lambda>a. the (C a)) ` set as \<longrightarrow> heap s' d = heap ?t d" by auto
  have "closed_at c s'" using s'(4) c_as n(2) by (simp add: closed_at_def)
  with s' c n show ?case by auto
qed simp

lemma unload_frame:
  "heap (foldl (\<lambda>s b. backend_unload b s) s bs) = heap s"
  "app_ctx (foldl (\<lambda>s b. backend_unload b s) s bs) = app_ctx s"
proof (induction bs arbitrary: s)
  case (Cons b bs)
  { case 1 show ?case using Cons by (cases b) simp_all }
  { case 2 show ?case using Cons by (cases b) simp_all }
qed simp_all

text \<open>\<open>Close\<close> when every registered client is live.\<close>

lemma app_close_live:
  assumes "range_ok L" and "\<not> app_closed s" and "finite (dom (app_clients s))"
    and "\<forall>a c. app_clients s a = Some c \<longrightarrow> live_at c s \<and> addr_at c s = Some a"
  shows "\<exists>s'. app_close L s = (None, s') \<and>
    ctx_client_size (app_ctx s') = ctx_client_size (app_ctx s) - int (card (dom (app_clients s))) \<and>
    (\<forall>a c. app_clients s a = Some c \<longrightarrow> closed_at c s')"
proof -
  let ?t = "(app_event ''close'' ''broadcast server is closing.'' None s)\<lparr>app_closed := True\<rparr>"
  let ?as = "gl_range L (dom (app_clients s))"
  note rng = range_okD [OF assms(1,3)]
  have t: "app_clients ?t = app_clients s" "live_at c ?t = live_at c s"
    "ctx_client_size (app_ctx ?t) = ctx_client_size (app_ctx s)" for c
    by (simp_all add: app_event_def live_at_def emit_event_def)
  have "\<forall>a \<in> set ?as. \<exists>c. app_clients s a = Some c \<and> live_at c ?t" using rng(2) assms(4) t(2) by auto
  moreover have "distinct (map (\<lambda>a. the (app_clients s a)) ?as)"
    unfolding distinct_map
  proof (intro conjI rng(1) inj_onI)
    fix a b assume "a \<in> set ?as" "b \<in> set ?as" "the (app_clients s a) = the (app_clients s b)"
    then show "a = b" using rng(2) assms(4) by (metis domD option.sel)
  qed
  ultimately obtain u where u: "close_clients (app_clients s) ?as ?t = (None, u)"
    "ctx_client_size (app_ctx u) = ctx_client_size (app_ctx s) - int (length ?as)"
    "\<forall>a \<in> set ?as. closed_at (the (app_clients s a)) u"
    using close_clients_live [of ?as "app_clients s" ?t] t(3) by auto
  let ?s = "(foldl (\<lambda>s b. backend_unload b s) u (app_backends u))\<lparr>app_listening := False, app_quit := True\<rparr>"
  have "app_close L s = (None, ?s)" using assms(2) u(1) t(1) by (simp add: app_close_def Let_def)
  moreover have "closed_at c ?s = closed_at c u" for c by (simp add: closed_at_def unload_frame)
  moreover have "\<forall>a c. app_clients s a = Some c \<longrightarrow> closed_at c u" using u(3) rng(2) by (metis domI option.sel)
  ultimately show ?thesis using u(2) rng(3) by (auto simp: unload_frame)
qed

lemma closed_end_crashes:
  assumes "closed_at c s" and "calm s s'"
  shows "fst (run_deferred c (Return, s')) = Some close_closed_panic"
proof -
  from assms(1) obtain n where n: "heap s c = Some n" "nc_conn n" "nc_reqerr_closed n"
    by (auto simp: closed_at_def)
  from calm_heap [OF assms(2) n(1)] obtain m where m: "heap s' c = Some m" "conn_state m = conn_state n" by blast
  with n have "nc_conn m" "nc_reqerr_closed m" by (auto simp: conn_state_def)
  then show ?thesis using m(1) nc_close_again [of m]
    by (cases "nc_close m") (simp add: run_deferred_def close_client_def)
qed

lemma reaps_size:
  "\<forall>c \<in> set cs. heap s c \<noteq> None \<Longrightarrow>
   ctx_client_size (app_ctx (foldl (\<lambda>s c. reap_client c s) s cs)) = ctx_client_size (app_ctx s) - int (length cs)"
proof (induction cs arbitrary: s)
  case (Cons c cs)
  then obtain n where n: "heap s c = Some n" by auto
  have h: "heap (reap_client c s) = heap s" using n by (simp add: reap_client_def)
  with Cons.IH [of "reap_client c s"] Cons.prems n show ?case by (simp add: reap_client_def)
qed simp

section \<open>Properties\<close>


definition rt_idle :: "'f runtime" where
  "rt_idle = \<lparr>rt_pid = 1, rt_num_goroutine = 1, rt_num_cpu = 1, rt_num_cgo_call = 0, rt_mem_stats = VNil\<rparr>"

lemma boot_default: "\<exists>s. boot (\<lambda>_. None) rt_idle plain_lib 0 default_config = Ok s"
  by (rule boot_total [of _ PRedis]) (simp add: default_config_def main_protocol_def)

lemma first_connection_open:
  "boot bind rt L now cfg = Ok s \<Longrightarrow> \<not> app_closed (srv (first_connection addr input s))"
  by (drule boot_Ok) (simp add: first_connection_def accept_connection_def Let_def)


text \<open>
C17. Sequential accounting: as long as accepts and exit watchers do not overlap (each is one step of \<open>step\<close>), and
before \<open>Close\<close>, \<open>ClientSize\<close> (which \<open>INFO\<close> reports) is the number of connections whose exit has not been
processed; the server's map leads only to such connections, each under its own address, and every
connection whose loop has ended is ready to be removed.  (When they overlap, the count can drift:
\<open>SharedMaps\<close>.)
\<close>

theorem client_count_exact:
  assumes "boot bind rt L now cfg = Ok s" and "reaches L (start s) x" and "\<not> app_closed (srv x)"
  shows "ctx_client_size (app_ctx (srv x)) = int (card (watching x)) \<and> running x \<subseteq> watching x \<and>
    (\<forall>a c. get_client a (srv x) = Some c \<longrightarrow>
       c \<in> watching x \<and> (\<exists>n. heap (srv x) c = Some n \<and> nc_addr n = a)) \<and>
    (\<forall>c \<in> watching x - running x. \<exists>n. heap (srv x) c = Some n \<and> nc_quit_closed n)"
proof -
  have "sys_ok x" using reaches_sys_ok [OF assms(2) boot_sys_ok [OF assms(1)]] .
  with assms(3) have "clients_ok x" "count_ok x" by (auto simp: sys_ok_def)
  then show ?thesis
    by (auto simp: clients_ok_def count_ok_def quit_at_def addr_at_def get_client_def)
qed

theorem client_count_exact_witness:
  "\<exists>s. boot (\<lambda>_. None) rt_idle plain_lib 0 default_config = Ok s \<and>
    ctx_client_size (app_ctx (srv (first_connection ''1.2.3.4:5'' ''x'' s))) = 1"
proof -
  obtain s where s: "boot (\<lambda>_. None) rt_idle plain_lib 0 default_config = Ok s" using boot_default by blast
  from client_count_exact [OF s first_connection_reaches [OF s] first_connection_open [OF s], of "''1.2.3.4:5''" "''x''"]
  have "ctx_client_size (app_ctx (srv (first_connection ''1.2.3.4:5'' ''x'' s))) = 1"
    by (simp add: first_connection_def)
  with s show ?thesis by blast
qed

text \<open>
C7. The server serves everybody: from any state before \<open>Close\<close>, when the clients have closed their sides
and nobody new connects, the goroutines cannot be busy for ever, whatever the scheduler does; and where
they stop, every request has been handled, every run loop has ended, every published message has been
handed to its connection, and every exit watcher has run.  (What the watchers leave of the count and of the map
when they interleave with each other is the subject of \<open>SharedMaps\<close>.)
\<close>

theorem clients_drain:
  assumes "boot bind rt L now cfg = Ok s" and "reaches L (start s) x" and "\<not> app_closed (srv x)"
  shows "(\<nexists>f. f 0 = x \<and> (\<forall>i. work L (f i) (f (Suc i)))) \<and>
    (\<exists>y. (work L)\<^sup>*\<^sup>* x y \<and> (\<nexists>z. work L y z)) \<and>
    (\<forall>y. (work L)\<^sup>*\<^sup>* x y \<and> (\<nexists>z. work L y z) \<longrightarrow>
       running y = {} \<and> watching y = {} \<and> pending (srv y) = [])"
proof (intro conjI allI impI)
  have ok: "open_ok x" using reaches_sys_ok [OF assms(2) boot_sys_ok [OF assms(1)]] assms(3) by (simp add: open_ok_def)
  show "\<nexists>f. f 0 = x \<and> (\<forall>i. work L (f i) (f (Suc i)))" using no_endless_work [of _ L] ok by blast
  show "\<exists>y. (work L)\<^sup>*\<^sup>* x y \<and> (\<nexists>z. work L y z)" by (rule work_ends [OF ok])
  fix y assume y: "(work L)\<^sup>*\<^sup>* x y \<and> (\<nexists>z. work L y z)"
  then have "open_ok y" using works_open_ok ok by blast
  from work_done [OF this, of L] y
  show "running y = {}" "watching y = {}" "pending (srv y) = []" by blast+
qed

theorem clients_drain_witness:
  "\<exists>s y. boot (\<lambda>_. None) rt_idle plain_lib 0 default_config = Ok s \<and>
    (work plain_lib)\<^sup>*\<^sup>* (first_connection ''1.2.3.4:5'' ''x'' s) y \<and> running y = {} \<and> watching y = {}"
proof -
  obtain s where s: "boot (\<lambda>_. None) rt_idle plain_lib 0 default_config = Ok s" using boot_default by blast
  from clients_drain [OF s first_connection_reaches [OF s] first_connection_open [OF s], of "''1.2.3.4:5''" "''x''"] s
  show ?thesis by blast
qed

text \<open>
In every reachable state, also after \<open>Close\<close>, the backends are well formed: the metrics store
satisfies its invariant, and the size of every topic is at least the number of its subscribers, so
no publication overlooks one.
\<close>

theorem backends_wellformed:
  assumes "boot bind rt L now cfg = Ok s" and "reaches L (start s) x"
  shows "mem_ok (stats_mem (srv x)) \<and>
    (\<forall>k t. pubsub_topics (srv x) k = Some t \<longrightarrow> int (card (tp_clients t)) \<le> tp_size t)"
proof -
  have "sys_ok x" using reaches_sys_ok [OF assms(2) boot_sys_ok [OF assms(1)]] .
  then show ?thesis by (simp add: sys_ok_def backends_ok_def sizes_bound_def)
qed

theorem backends_wellformed_witness:
  "\<exists>s. boot (\<lambda>_. None) rt_idle plain_lib 0 default_config = Ok s \<and>
    mem_ok (stats_mem (srv (first_connection ''1.2.3.4:5'' ''x'' s)))"
proof -
  obtain s where s: "boot (\<lambda>_. None) rt_idle plain_lib 0 default_config = Ok s" using boot_default by blast
  from backends_wellformed [OF s first_connection_reaches [OF s], of "''1.2.3.4:5''" "''x''"] s
  show ?thesis by blast
qed

text \<open>
C36. \<open>Close\<close> with live clients: every client is closed and \<open>ClientSize\<close> drops by the number of clients,
but each client's exit watcher then decrements it again, so that it ends below zero by the number of
clients; and when a run loop ends after that, its own \<open>Close\<close> panics and ends the process.
\<close>

theorem close_with_clients:
  assumes "range_ok L" and "\<not> app_closed s" and "finite (dom (app_clients s))"
    and "\<forall>a c. app_clients s a = Some c \<longrightarrow> live_at c s \<and> addr_at c s = Some a"
    and "ctx_client_size (app_ctx s) = int (card (dom (app_clients s)))"
    and "distinct cs" and "set cs = ran (app_clients s)"
  shows "\<exists>s'. app_close L s = (None, s') \<and> app_closed s' \<and> ctx_client_size (app_ctx s') = 0 \<and>
    ctx_client_size (app_ctx (foldl (\<lambda>s c. reap_client c s) s' cs)) = - int (length cs) \<and>
    (\<forall>c \<in> set cs. \<forall>t. calm s' t \<longrightarrow> fst (run_deferred c (Return, t)) = Some close_closed_panic)"
proof -
  obtain s' where s': "app_close L s = (None, s')"
    "ctx_client_size (app_ctx s') = ctx_client_size (app_ctx s) - int (card (dom (app_clients s)))"
    "\<forall>a c. app_clients s a = Some c \<longrightarrow> closed_at c s'"
    using app_close_live [OF assms(1-4)] by blast
  have cl: "\<forall>c \<in> set cs. closed_at c s'" using s'(3) assms(7) by (auto simp: ran_def)
  then have "\<forall>c \<in> set cs. heap s' c \<noteq> None" by (auto simp: closed_at_def)
  from reaps_size [OF this] have "ctx_client_size (app_ctx (foldl (\<lambda>s c. reap_client c s) s' cs)) = - int (length cs)"
    using s'(2) assms(5) by simp
  moreover have "\<forall>c \<in> set cs. \<forall>t. calm s' t \<longrightarrow> fst (run_deferred c (Return, t)) = Some close_closed_panic"
    using cl closed_end_crashes by blast
  ultimately show ?thesis using s' assms(5) app_close_rest(2) [OF s'(1)] by auto
qed

theorem close_with_clients_witness:
  "\<exists>s s'. boot (\<lambda>_. None) rt_idle plain_lib 0 default_config = Ok s \<and>
    app_close plain_lib (srv (first_connection ''1.2.3.4:5'' ''x'' s)) = (None, s') \<and>
    ctx_client_size (app_ctx (reap_client 0 s')) = - 1 \<and>
    fst (run_deferred 0 (Return, s')) = Some close_closed_panic"
proof -
  obtain s where s: "boot (\<lambda>_. None) rt_idle plain_lib 0 default_config = Ok s" using boot_default by blast
  let ?s = "srv (first_connection ''1.2.3.4:5'' ''x'' s)"
  have c: "app_clients ?s = [''1.2.3.4:5'' \<mapsto> 0]" "ctx_client_size (app_ctx ?s) = 1"
    using boot_Ok [OF s]
    by (simp_all add: first_connection_def accept_connection_def handle_connection_eq nc_address_def
        nc_initialize_def new_broadcast_context_def Let_def)
  have l: "live_at 0 ?s" "addr_at 0 ?s = Some ''1.2.3.4:5''"
    by (simp_all add: first_connection_def accept_connection_def handle_connection_eq live_at_def addr_at_def
        nc_initialize_def nc_live_def Let_def)
  have "\<exists>s'. app_close plain_lib ?s = (None, s') \<and> app_closed s' \<and> ctx_client_size (app_ctx s') = 0 \<and>
    ctx_client_size (app_ctx (foldl (\<lambda>s c. reap_client c s) s' [0])) = - int (length [0 :: nat]) \<and>
    (\<forall>c \<in> set [0]. \<forall>t. calm s' t \<longrightarrow> fst (run_deferred c (Return, t)) = Some close_closed_panic)"
    using c l first_connection_open [OF s]
    by (intro close_with_clients) (simp_all split: if_splits)
  with s show ?thesis by fastforce
qed

end
