(* ===== verification/Sessions.thy ===== *)
theory Sessions
  imports Server
begin

text \<open>
  Whole sessions: the commands that a booted server offers, and what a run loop leaves behind when
  the session of a client is over.  The root theory states the end-to-end properties over these.
\<close>

section \<open>The commands of a booted server\<close>

definition upper_word :: "bytes \<Rightarrow> bool" where
  "upper_word s \<longleftrightarrow> is_ascii s \<and> map upper_char s = s"

lemma to_upper_word: "upper_word s \<Longrightarrow> to_upper L s = s"
  by (simp add: upper_word_def to_upper_ascii)

definition all_commands :: "(command \<times> handler_method) list" where
  "all_commands =
     boot_commands \<lparr>cfg_port = 0, cfg_host = [], cfg_bprotocol = [], cfg_default = True, cfg_stats = True,
       cfg_pubsub = True\<rparr>"

lemma all_commands_upper: "list_all (\<lambda>p. upper_word (cmd_name (fst p))) all_commands"
  by code_simp

lemma all_commands_distinct: "distinct (map (\<lambda>p. cmd_name (fst p)) all_commands)"
  by code_simp

lemma boot_commands_subset: "set (boot_commands cfg) \<subseteq> set all_commands"
  by (auto simp: boot_commands_def all_commands_def)

lemma distinct_parts:
  "distinct (map f (xs @ ys @ zs)) \<Longrightarrow>
   distinct (map f ((if a then xs else []) @ (if b then ys else []) @ (if c then zs else [])))"
  by (cases a; cases b; cases c) (simp_all add: Int_Un_distrib)

lemma boot_commands_distinct: "distinct (map (\<lambda>p. cmd_name (fst p)) (boot_commands cfg))"
  using all_commands_distinct unfolding boot_commands_def [of cfg]
  by (intro distinct_parts) (simp add: boot_commands_def all_commands_def)

lemma boot_command_upper: "(c, h) \<in> set (boot_commands cfg) \<Longrightarrow> to_upper L (cmd_name c) = cmd_name c"
  using all_commands_upper boot_commands_subset [of cfg] to_upper_word
  by (fastforce simp: list_all_iff)

lemma registry_lookup:
  assumes "\<forall>(c, h) \<in> set cs. to_upper L (cmd_name c) = cmd_name c" and "distinct (map (\<lambda>p. cmd_name (fst p)) cs)"
    and "(c, h) \<in> set cs"
  shows "ctx_commands (register_commands L cs ctx) (cmd_name c) = Some h \<and>
    ctx_help (register_commands L cs ctx) (cmd_name c) = Some c"
  using assms
proof (induction cs rule: rev_induct)
  case (snoc p cs)
  obtain d g where p: "p = (d, g)" by fastforce
  from snoc.prems(1) p have d: "to_upper L (cmd_name d) = cmd_name d" by auto
  have reg: "register_commands L (cs @ [p]) ctx = register_command L d g (register_commands L cs ctx)"
    by (simp add: register_commands_append p)
  show ?case
  proof (cases "(c, h) = (d, g)")
    case True
    with reg d show ?thesis by simp
  next
    case False
    with snoc.prems(3) p have c: "(c, h) \<in> set cs" by auto
    then have "cmd_name c \<in> set (map (\<lambda>p. cmd_name (fst p)) cs)" by force
    moreover from snoc.prems(2) p have "cmd_name d \<notin> set (map (\<lambda>p. cmd_name (fst p)) cs)" by simp
    ultimately have "cmd_name c \<noteq> cmd_name d" by metis
    with snoc.IH snoc.prems(1,2) c reg d show ?thesis by auto
  qed
qed simp

lemma boot_lookup:
  assumes "boot bind rt L now cfg = Ok s" and "(c, h) \<in> set (boot_commands cfg)"
  shows "ctx_commands (app_ctx s) (cmd_name c) = Some h \<and> ctx_help (app_ctx s) (cmd_name c) = Some c"
  using boot_Ok [OF assms(1)] registry_lookup [OF _ boot_commands_distinct assms(2), of L new_broadcast_context]
    boot_command_upper [of _ _ cfg L] by auto

lemma stats_lookup:
  assumes "boot bind rt L now cfg = Ok s" and "cfg_stats cfg" and "(c, h) \<in> set stats_commands"
  shows "ctx_commands (app_ctx s) (cmd_name c) = Some (StatsM h)"
proof -
  have "(c, StatsM h) \<in> set (boot_commands cfg)" using assms(2,3) by (force simp: boot_commands_def)
  with boot_lookup [OF assms(1)] show ?thesis by blast
qed

section \<open>One request over redis\<close>

lemma redis_act_ok:
  assumes "to_upper L name \<noteq> ''QUIT''" and "ctx_commands (app_ctx s) (to_upper L name) = Some h"
    and "run_method L h (ABulk args) c s = (Ok (), s')" and "live_at c s'"
  shows "redis_act L c (name # args) s = (Again, s')"
  using assms
  by (auto simp: redis_act_def redis_handle_data_def call_in_goroutine_def after_handle_def live_at_def nc_live_def)

text \<open>A handler of the stats backend that answers \<open>b\<close>.\<close>

lemma stats_method_ok:
  assumes "heap s c = Some n" and "stats_run h L data (stats_mem s, nc_writer n) = (Ok (), m, w)"
  shows "run_method L (StatsM h) data c s = (Ok (), put_writer c w (s\<lparr>stats_mem := m\<rparr>))"
  using assms by simp

lemma live_put_writer: "live_at c (put_writer d w s) = live_at c s"
  by (cases "heap s d") (auto simp: live_at_def put_writer_def nc_live_def)

section \<open>The end of a session\<close>

lemma set_input_live: "live_at c (set_input d b s) = live_at c s"
  by (auto simp: live_at_def set_input_heap nc_live_def)

text \<open>
  A loop that has returned in a state that agrees with \<open>u\<close> up to unread input: the client gets closed,
  the process lives, and the writer and the rest of the server are those of \<open>u\<close>.
\<close>

lemma session_end:
  assumes "apsnd (set_input c []) (run_loop (client_iter p L c) (Suc (input_left c s)) s) = (Return, set_input c [] u)"
    and "live_at c u"
  shows "\<exists>t n m. run_client p L c s = (None, t) \<and> heap t c = Some n \<and> heap u c = Some m \<and> nc_quit_closed n \<and>
    bw_sent (nc_writer n) = bw_sent (nc_writer m) \<and> stats_mem t = stats_mem u \<and> app_ctx t = app_ctx u \<and>
    pubsub_topics t = pubsub_topics u \<and> pending t = pending u"
proof -
  obtain out v where v: "run_loop (client_iter p L c) (Suc (input_left c s)) s = (out, v)" by fastforce
  with assms(1) have out: "out = Return" and eq: "set_input c [] v = set_input c [] u" by simp_all
  have lv: "live_at c v" using assms(2) eq set_input_live by metis
  then obtain n m where n: "heap v c = Some n" "nc_live n" and m: "heap u c = Some m"
    using assms(2) by (auto simp: live_at_def)
  from eq n m have w: "nc_writer n = nc_writer m"
    using set_input_heap [of c "[]" v c] set_input_heap [of c "[]" u c]
    by (cases n; cases m) (simp add: eq)
  let ?n = "(conn_close n)\<lparr>nc_quit_closed := True, nc_reqerr_closed := True\<rparr>"
  have "run_client p L c s = (None, v\<lparr>heap := (heap v)(c \<mapsto> ?n)\<rparr>)"
    using v out n by (simp add: run_client_def run_deferred_def close_client_def nc_close_live del: run_loop.simps)
  moreover have "stats_mem v = stats_mem u" "app_ctx v = app_ctx u" "pubsub_topics v = pubsub_topics u"
    "pending v = pending u" using eq set_input_other by metis+
  ultimately show ?thesis using m w by (auto simp: conn_close_def)
qed

section \<open>Lemmas for whole sessions\<close>

lemma redis_stats_step:
  assumes "heap s c = Some n" and "live_at c s" and "bw_ok (nc_writer n)"
    and "to_upper L name \<noteq> ''QUIT''" and "ctx_commands (app_ctx s) (to_upper L name) = Some (StatsM h)"
    and "\<exists>w. stats_run h L (ABulk args) (stats_mem s, nc_writer n) = (Ok (), m, w) \<and> replied (nc_writer n) b w"
  shows "\<exists>s' n'. redis_act L c (name # args) s = (Again, s') \<and> heap s' c = Some n' \<and> live_at c s' \<and>
    replied (nc_writer n) b (nc_writer n') \<and> stats_mem s' = m \<and> app_ctx s' = app_ctx s \<and>
    pubsub_topics s' = pubsub_topics s \<and> pending s' = pending s"
proof -
  obtain w where w: "stats_run h L (ABulk args) (stats_mem s, nc_writer n) = (Ok (), m, w)" "replied (nc_writer n) b w"
    using assms(6) by blast
  let ?s = "put_writer c w (s\<lparr>stats_mem := m\<rparr>)"
  have "live_at c ?s" using assms(2) by (simp add: live_put_writer) (simp add: live_at_def)
  with redis_act_ok [OF assms(4,5) stats_method_ok [OF assms(1) w(1)]] w(2) assms(1) show ?thesis
    by (auto simp: put_writer_def)
qed

lemma first_client:
  fixes addr :: address
  assumes "boot bind rt L now cfg = Ok s"
  defines "x \<equiv> srv (first_connection addr [] s)"
  shows "heap x 0 = Some (nc_initialize addr [] 128)" and "live_at 0 x" and "connected 0 x"
    and "app_ctx x = (app_ctx (accept_start s))\<lparr>ctx_client_size := ctx_client_size (app_ctx s) + 1\<rparr>"
    and "stats_mem x = stats_mem s" and "app_clients x = (app_clients s)(addr \<mapsto> 0)"
    and "pubsub_topics x = pubsub_topics s"
proof -
  show heap: "heap x 0 = Some (nc_initialize addr [] 128)"
    by (simp add: x_def first_connection_def accept_connection_def handle_connection_eq Let_def)
  show "live_at 0 x" by (simp add: live_at_def heap)
  show "connected 0 x" by (simp add: connected_def heap) (simp add: nc_initialize_def new_reader_def)
  show "app_ctx x = (app_ctx (accept_start s))\<lparr>ctx_client_size := ctx_client_size (app_ctx s) + 1\<rparr>"
    "stats_mem x = stats_mem s" "app_clients x = (app_clients s)(addr \<mapsto> 0)" "pubsub_topics x = pubsub_topics s"
    by (simp_all add: x_def first_connection_def accept_connection_def handle_connection_eq nc_address_def
        nc_initialize_def Let_def)
qed

lemma to_upper_commands [simp]:
  "to_upper L ''set'' = ''SET''" "to_upper L ''get'' = ''GET''" "to_upper L ''quit'' = ''QUIT''"
  "to_upper L ''SET'' = ''SET''" "to_upper L ''GET'' = ''GET''" "to_upper L ''QUIT'' = ''QUIT''"
proof -
  have "list_all is_ascii [''set'', ''get'', ''quit'', ''SET'', ''GET'', ''QUIT'']" by code_simp
  moreover have "map (map upper_char) [''set'', ''get'', ''quit'', ''SET'', ''GET'', ''QUIT''] =
      [''SET'', ''GET'', ''QUIT'', ''SET'', ''GET'', ''QUIT'']" by code_simp
  ultimately show "to_upper L ''set'' = ''SET''" "to_upper L ''get'' = ''GET''" "to_upper L ''quit'' = ''QUIT''"
    "to_upper L ''SET'' = ''SET''" "to_upper L ''GET'' = ''GET''" "to_upper L ''QUIT'' = ''QUIT''"
    by (simp_all add: to_upper_ascii)
qed

lemma set_get_lookup:
  assumes "boot bind rt L now cfg = Ok s" and "cfg_stats cfg"
  shows "ctx_commands (app_ctx s) ''SET'' = Some (StatsM MSet)" "ctx_commands (app_ctx s) ''GET'' = Some (StatsM MGet)"
proof -
  have "\<exists>c. (c, MSet) \<in> set stats_commands \<and> cmd_name c = ''SET''"
    "\<exists>c. (c, MGet) \<in> set stats_commands \<and> cmd_name c = ''GET''"
    by (simp_all add: stats_commands_def command_def)
  with stats_lookup [OF assms] show "ctx_commands (app_ctx s) ''SET'' = Some (StatsM MSet)"
    "ctx_commands (app_ctx s) ''GET'' = Some (StatsM MGet)" by metis+
qed

lemma serve_append:
  "serve act (xs @ ys) s = (case serve act xs s of (Again, s') \<Rightarrow> serve act ys s' | out \<Rightarrow> out)"
proof (induction xs arbitrary: s)
  case (Cons x xs)
  obtain out t where "act x s = (out, t)" by fastforce
  with Cons show ?case by (cases out) simp_all
qed simp

end
