(* ===== verification/Threads.thy ===== *)
theory Threads
  imports "HOL-Library.Multiset"
begin

text \<open>
  Goroutines that share memory, independently of what they compute: a goroutine is a program that takes
  and returns mutexes and accesses shared objects, and the goroutines of a process are interleaved access by
  access.  The locale states what makes methods atomic (each of them is one section under one lock, and
  accesses no more than what that lock protects) and derives that they do not race, do not deadlock and
  together do what the same calls do one after the other.
\<close>

section \<open>Programs\<close>

text \<open>
  The parameters are the type of the shared memory, of the names of its objects, of the mutexes and of the
  result.  \<open>Fetch x f\<close> reads the object \<open>x\<close> and goes on with \<open>f\<close> of the memory; \<open>Update x g p\<close> changes \<open>x\<close>.
\<close>

datatype ('s, 'x, 'l, 'r) micro =
    Ret 'r
  | Acquire 'l "('s, 'x, 'l, 'r) micro"
  | Release 'l "('s, 'x, 'l, 'r) micro"
  | Fetch 'x "'s \<Rightarrow> ('s, 'x, 'l, 'r) micro"
  | Update 'x "'s \<Rightarrow> 's" "('s, 'x, 'l, 'r) micro"

text \<open>\<open>l.Lock(); defer l.Unlock()\<close> around a body that ends by returning a result.\<close>

definition locked :: "'l \<Rightarrow> (('r \<Rightarrow> ('s, 'x, 'l, 'r) micro) \<Rightarrow> ('s, 'x, 'l, 'r) micro) \<Rightarrow> ('s, 'x, 'l, 'r) micro" where
  "locked l body = Acquire l (body (\<lambda>r. Release l (Ret r)))"

text \<open>Further reads of an object, such as the steps of a \<open>range\<close> loop.\<close>

primrec touch :: "'x list \<Rightarrow> ('s, 'x, 'l, 'r) micro \<Rightarrow> ('s, 'x, 'l, 'r) micro" where
  "touch [] p = p"
| "touch (x # xs) p = Fetch x (\<lambda>_. touch xs p)"

text \<open>A program continued with the result of the method that it has called.\<close>

primrec and_then :: "('s, 'x, 'l, 'r) micro \<Rightarrow> ('r \<Rightarrow> ('s, 'x, 'l, 'r) micro) \<Rightarrow> ('s, 'x, 'l, 'r) micro" where
  "and_then (Ret r) f = f r"
| "and_then (Acquire l p) f = Acquire l (and_then p f)"
| "and_then (Release l p) f = Release l (and_then p f)"
| "and_then (Fetch x g) f = Fetch x (\<lambda>m. and_then (g m) f)"
| "and_then (Update x g p) f = Update x g (and_then p f)"

text \<open>A program that runs alone.\<close>

primrec run :: "('s, 'x, 'l, 'r) micro \<Rightarrow> 's \<Rightarrow> 'r \<times> 's" where
  "run (Ret r) m = (r, m)"
| "run (Acquire l p) m = run p m"
| "run (Release l p) m = run p m"
| "run (Fetch x f) m = run (f m) m"
| "run (Update x g p) m = run p (g m)"

lemma run_locked [simp]: "run (locked l body) m = run (body (\<lambda>r. Release l (Ret r))) m"
  by (simp add: locked_def)

lemma run_touch [simp]: "run (touch xs p) m = run p m"
  by (induction xs) simp_all

lemma run_and_then [simp]: "run (and_then p f) m = (case run p m of (r, m') \<Rightarrow> run (f r) m')"
  by (induction p arbitrary: m) simp_all

section \<open>Goroutines interleaved access by access\<close>

text \<open>
  The memory, who holds each mutex, and for every goroutine the method that it is executing, those that
  it will still call and the results that it has got.
\<close>

record ('s, 'x, 'l, 'r) threads =
  th_mem :: 's
  th_owner :: "'l \<Rightarrow> nat option"
  th_now :: "nat \<Rightarrow> ('s, 'x, 'l, 'r) micro option"
  th_todo :: "nat \<Rightarrow> ('s, 'x, 'l, 'r) micro list"
  th_replies :: "nat \<Rightarrow> 'r list"

text \<open>\<open>Lock\<close> waits until the mutex is free; every other access happens at once.\<close>

inductive micro_step :: "('s, 'x, 'l, 'r) threads \<Rightarrow> ('s, 'x, 'l, 'r) threads \<Rightarrow> bool" where
  call: "th_now y i = None \<Longrightarrow> th_todo y i = p # ps \<Longrightarrow>
    micro_step y (y\<lparr>th_now := (th_now y)(i \<mapsto> p), th_todo := (th_todo y)(i := ps)\<rparr>)"
| acquire: "th_now y i = Some (Acquire l p) \<Longrightarrow> th_owner y l = None \<Longrightarrow>
    micro_step y (y\<lparr>th_now := (th_now y)(i \<mapsto> p), th_owner := (th_owner y)(l \<mapsto> i)\<rparr>)"
| release: "th_now y i = Some (Release l p) \<Longrightarrow>
    micro_step y (y\<lparr>th_now := (th_now y)(i \<mapsto> p), th_owner := (th_owner y)(l := None)\<rparr>)"
| fetch: "th_now y i = Some (Fetch x f) \<Longrightarrow> micro_step y (y\<lparr>th_now := (th_now y)(i \<mapsto> f (th_mem y))\<rparr>)"
| update: "th_now y i = Some (Update x g p) \<Longrightarrow>
    micro_step y (y\<lparr>th_now := (th_now y)(i \<mapsto> p), th_mem := g (th_mem y)\<rparr>)"
| return: "th_now y i = Some (Ret r) \<Longrightarrow>
    micro_step y (y\<lparr>th_now := (th_now y)(i := None), th_replies := (th_replies y)(i := th_replies y i @ [r])\<rparr>)"

definition start_threads :: "'s \<Rightarrow> (nat \<Rightarrow> ('s, 'x, 'l, 'r) micro list) \<Rightarrow> ('s, 'x, 'l, 'r) threads" where
  "start_threads m ps = \<lparr>th_mem = m, th_owner = (\<lambda>_. None), th_now = (\<lambda>_. None), th_todo = ps, th_replies = (\<lambda>_. [])\<rparr>"

text \<open>The next step of a given goroutine, as a function, and the steps of a schedule.\<close>

definition advance :: "nat \<Rightarrow> ('s, 'x, 'l, 'r) threads \<Rightarrow> ('s, 'x, 'l, 'r) threads option" where
  "advance i y =
     (case th_now y i of
        None \<Rightarrow>
          (case th_todo y i of
             [] \<Rightarrow> None
           | p # ps \<Rightarrow> Some (y\<lparr>th_now := (th_now y)(i \<mapsto> p), th_todo := (th_todo y)(i := ps)\<rparr>))
      | Some (Acquire l p) \<Rightarrow>
          if th_owner y l = None then Some (y\<lparr>th_now := (th_now y)(i \<mapsto> p), th_owner := (th_owner y)(l \<mapsto> i)\<rparr>) else None
      | Some (Release l p) \<Rightarrow> Some (y\<lparr>th_now := (th_now y)(i \<mapsto> p), th_owner := (th_owner y)(l := None)\<rparr>)
      | Some (Fetch x f) \<Rightarrow> Some (y\<lparr>th_now := (th_now y)(i \<mapsto> f (th_mem y))\<rparr>)
      | Some (Update x g p) \<Rightarrow> Some (y\<lparr>th_now := (th_now y)(i \<mapsto> p), th_mem := g (th_mem y)\<rparr>)
      | Some (Ret r) \<Rightarrow>
          Some (y\<lparr>th_now := (th_now y)(i := None), th_replies := (th_replies y)(i := th_replies y i @ [r])\<rparr>))"

fun advances :: "nat list \<Rightarrow> ('s, 'x, 'l, 'r) threads \<Rightarrow> ('s, 'x, 'l, 'r) threads option" where
  "advances [] y = Some y"
| "advances (i # is) y = (case advance i y of None \<Rightarrow> None | Some z \<Rightarrow> advances is z)"

lemma advance_step: "advance i y = Some z \<Longrightarrow> micro_step y z"
  by (auto simp: advance_def intro: micro_step.intros split: option.splits list.splits micro.splits if_splits)

lemma advances_run: "advances is y = Some z \<Longrightarrow> micro_step\<^sup>*\<^sup>* y z"
proof (induction "is" arbitrary: y)
  case (Cons i "is")
  then obtain y1 where y1: "advance i y = Some y1" "advances is y1 = Some z" by (auto split: option.splits)
  from converse_rtranclp_into_rtranclp [OF advance_step [OF y1(1)] Cons.IH [OF y1(2)]] show ?case .
qed simp

text \<open>
  A data race: two goroutines are both about to access the same object, one of them to change it, and
  nothing orders the two accesses.
\<close>

definition data_race :: "('s, 'x, 'l, 'r) threads \<Rightarrow> bool" where
  "data_race y \<longleftrightarrow>
     (\<exists>i j x g p. i \<noteq> j \<and> th_now y i = Some (Update x g p) \<and>
        ((\<exists>f. th_now y j = Some (Fetch x f)) \<or> (\<exists>g' p'. th_now y j = Some (Update x g' p'))))"

definition all_returned :: "('s, 'x, 'l, 'r) threads \<Rightarrow> bool" where
  "all_returned y \<longleftrightarrow> (\<forall>i. th_now y i = None \<and> th_todo y i = [])"

text \<open>A schedule of one goroutine through further reads.\<close>

lemma advances_append: "advances (is @ js) y = (case advances is y of None \<Rightarrow> None | Some z \<Rightarrow> advances js z)"
  by (induction "is" arbitrary: y) (simp_all split: option.split)

lemma advances_touch:
  "th_now y i = Some (touch xs p) \<Longrightarrow> advances (replicate (length xs) i) y = Some (y\<lparr>th_now := (th_now y)(i \<mapsto> p)\<rparr>)"
proof (induction xs arbitrary: y)
  case Nil
  then show ?case by (simp add: fun_upd_idem)
next
  case (Cons x xs)
  then show ?case using Cons.IH [of "y\<lparr>th_now := (th_now y)(i \<mapsto> touch xs p)\<rparr>"] 
    by (simp add: advance_def fun_upd_same del: fun_upd_apply)
qed

text \<open>Goroutine 0 executes one method, goroutine 1 another.\<close>

definition side_by_side :: "('s, 'x, 'l, 'r) micro \<Rightarrow> ('s, 'x, 'l, 'r) micro \<Rightarrow> 's \<Rightarrow> ('s, 'x, 'l, 'r) threads" where
  "side_by_side p q m = start_threads m (\<lambda>i. if i = 0 then [p] else if i = 1 then [q] else [])"

lemmas side_defs = side_by_side_def start_threads_def advance_def locked_def Let_def

lemma race_reached:
  assumes "\<exists>y g p f. advances is z = Some y \<and> th_now y 1 = Some (Update x g p) \<and> th_now y 0 = Some (Fetch x f)"
  shows "\<exists>y. micro_step\<^sup>*\<^sup>* z y \<and> data_race y"
proof -
  obtain y g p f where y: "advances is z = Some y" "th_now y 1 = Some (Update x g p)" "th_now y 0 = Some (Fetch x f)"
    using assms by blast
  then have "data_race y" unfolding data_race_def by (metis zero_neq_one)
  with advances_run [OF y(1)] show ?thesis by blast
qed

section \<open>Runs end\<close>

text \<open>
  What is left of a goroutine shrinks with each of its steps: the number of further calls, or the rest of
  the method.
\<close>

inductive rest_of :: "('s, 'x, 'l, 'r) micro \<Rightarrow> ('s, 'x, 'l, 'r) micro \<Rightarrow> bool" where
  "rest_of p (Acquire l p)"
| "rest_of p (Release l p)"
| "rest_of (f m) (Fetch x f)"
| "rest_of p (Update x g p)"

inductive_cases rest_ofE: "rest_of q (Ret r)" "rest_of q (Acquire l p)" "rest_of q (Release l p)" "rest_of q (Fetch x f)"
  "rest_of q (Update x g p)"

lemma wf_rest_of: "wf {(q, p :: ('s, 'x, 'l, 'r) micro). rest_of q p}"
proof (rule wfUNIVI)
  fix P :: "('s, 'x, 'l, 'r) micro \<Rightarrow> bool" and p
  assume *: "\<forall>p. (\<forall>q. (q, p) \<in> {(q, p). rest_of q p} \<longrightarrow> P q) \<longrightarrow> P p"
  show "P p"
    by (induction p) (use * in \<open>blast elim: rest_ofE\<close>)+
qed

definition smaller_rest :: "('s, 'x, 'l, 'r) micro option rel" where
  "smaller_rest = {(a, b). (\<exists>q p. a = Some q \<and> b = Some p \<and> rest_of q p) \<or> (\<exists>p. a = None \<and> b = Some p)}"

lemma wf_smaller_rest: "wf (smaller_rest :: ('s, 'x, 'l, 'r) micro option rel)"
proof (rule wfUNIVI)
  fix P :: "('s, 'x, 'l, 'r) micro option \<Rightarrow> bool" and a
  assume *: "\<forall>b. (\<forall>a. (a, b) \<in> smaller_rest \<longrightarrow> P a) \<longrightarrow> P b"
  have None: "P None" by (rule mp [OF spec [OF *]]) (simp add: smaller_rest_def)
  have "P (Some p)" for p
    using wf_rest_of
  proof (induction p)
    case (less p)
    have "P a" if "(a, Some p) \<in> smaller_rest" for a using that None less by (auto simp: smaller_rest_def)
    with * show ?case by blast
  qed
  with None show "P a" by (cases a) auto
qed

definition left_of :: "('s, 'x, 'l, 'r) threads \<Rightarrow> nat \<Rightarrow> nat \<times> ('s, 'x, 'l, 'r) micro option" where
  "left_of y i = (length (th_todo y i), th_now y i)"

lemma micro_step_left:
  assumes "micro_step y z"
  shows "\<exists>i. (th_now y i \<noteq> None \<or> th_todo y i \<noteq> []) \<and> (left_of z i, left_of y i) \<in> less_than <*lex*> smaller_rest \<and>
    (\<forall>j. j \<noteq> i \<longrightarrow> left_of z j = left_of y j)"
  using assms
proof cases
  case (call i p ps)
  then show ?thesis by (intro exI [of _ i]) (simp add: left_of_def)
next
  case (acquire i l p)
  then show ?thesis by (intro exI [of _ i]) (simp add: left_of_def smaller_rest_def rest_of.intros)
next
  case (release i l p)
  then show ?thesis by (intro exI [of _ i]) (simp add: left_of_def smaller_rest_def rest_of.intros)
next
  case (fetch i x f)
  then show ?thesis by (intro exI [of _ i]) (simp add: left_of_def smaller_rest_def rest_of.intros)
next
  case (update i x g p)
  then show ?thesis by (intro exI [of _ i]) (simp add: left_of_def smaller_rest_def rest_of.intros)
next
  case (return i r)
  then show ?thesis by (intro exI [of _ i]) (simp add: left_of_def smaller_rest_def)
qed

text \<open>The goroutines outside \<open>I\<close> have nothing to do.\<close>

definition only :: "nat set \<Rightarrow> ('s, 'x, 'l, 'r) threads \<Rightarrow> bool" where
  "only I y \<longleftrightarrow> (\<forall>i. i \<notin> I \<longrightarrow> th_now y i = None \<and> th_todo y i = [])"

lemma only_step: "micro_step y z \<Longrightarrow> only I y \<Longrightarrow> only I z"
  using micro_step_left [of y z] unfolding only_def left_of_def by (metis length_0_conv prod.inject)

lemma only_run: "micro_step\<^sup>*\<^sup>* y z \<Longrightarrow> only I y \<Longrightarrow> only I z"
  by (induction rule: rtranclp_induct) (auto intro: only_step)

definition all_left :: "nat set \<Rightarrow> ('s, 'x, 'l, 'r) threads \<Rightarrow> (nat \<times> ('s, 'x, 'l, 'r) micro option) multiset" where
  "all_left I y = image_mset (left_of y) (mset_set I)"

lemma mult_one:
  assumes "(a, b) \<in> R"
  shows "(add_mset a M, add_mset b M) \<in> mult R"
proof -
  have "add_mset b M = add_mset b M \<and> add_mset a M = M + {#a#} \<and> (\<forall>c. c \<in># {#a#} \<longrightarrow> (c, b) \<in> R)" using assms by simp
  then have "(add_mset a M, add_mset b M) \<in> mult1 R" unfolding mult1_def by blast
  then show ?thesis unfolding mult_def by (rule r_into_trancl)
qed

lemma all_left_step:
  assumes "micro_step y z" and "only I y" and "finite I"
  shows "(all_left I z, all_left I y) \<in> mult (less_than <*lex*> smaller_rest)"
proof -
  obtain i where i: "th_now y i \<noteq> None \<or> th_todo y i \<noteq> []" "(left_of z i, left_of y i) \<in> less_than <*lex*> smaller_rest"
    "\<forall>j. j \<noteq> i \<longrightarrow> left_of z j = left_of y j" using micro_step_left [OF assms(1)] by blast
  have I: "i \<in> I" using i(1) assms(2) by (auto simp: only_def)
  have "image_mset (left_of z) (mset_set (I - {i})) = image_mset (left_of y) (mset_set (I - {i}))"
    by (rule image_mset_cong) (use i(3) assms(3) in auto)
  moreover have "mset_set I = add_mset i (mset_set (I - {i}))" using I assms(3) by (simp add: mset_set.remove)
  ultimately have "all_left I y = add_mset (left_of y i) (image_mset (left_of y) (mset_set (I - {i})))"
    "all_left I z = add_mset (left_of z i) (image_mset (left_of y) (mset_set (I - {i})))" by (simp_all add: all_left_def)
  then show ?thesis using mult_one [OF i(2)] by simp
qed

text \<open>No run of finitely many goroutines goes on for ever, and if no reachable state is stuck, each can end well.\<close>

lemma no_endless_run:
  fixes y :: "('a, 'b, 'c, 'd) threads"
  assumes "finite I" and "only I y"
  shows "\<nexists>s. s 0 = y \<and> (\<forall>n. micro_step (s n) (s (Suc n)))"
proof
  assume "\<exists>s. s 0 = y \<and> (\<forall>n. micro_step (s n) (s (Suc n)))"
  then obtain s where s: "s 0 = y" "\<And>n. micro_step (s n) (s (Suc n))" by blast
  have "only I (s n)" for n by (induction n) (use s assms(2) only_step in auto)
  then have d: "(all_left I (s (Suc n)), all_left I (s n)) \<in> mult (less_than <*lex*> smaller_rest)" for n
    using all_left_step [OF s(2) _ assms(1)] by blast
  have "\<exists>f. \<forall>n. (f (Suc n), f n) \<in> mult (less_than <*lex*> (smaller_rest :: ('a, 'b, 'c, 'd) micro option rel))"
    by (rule exI [of _ "\<lambda>n. all_left I (s n)"]) (simp add: d)
  moreover have "wf (mult (less_than <*lex*> (smaller_rest :: ('a, 'b, 'c, 'd) micro option rel)))"
    by (intro wf_mult wf_lex_prod wf_less_than wf_smaller_rest)
  ultimately show False unfolding wf_iff_no_infinite_down_chain by blast
qed

lemma runs_return:
  assumes "finite I" and "only I y" and "\<And>z. micro_step\<^sup>*\<^sup>* y z \<Longrightarrow> (\<nexists>u. micro_step z u) \<Longrightarrow> all_returned z"
  shows "\<exists>z. micro_step\<^sup>*\<^sup>* y z \<and> all_returned z"
proof -
  have "wf (inv_image (mult (less_than <*lex*> smaller_rest)) (all_left I))"
    by (intro wf_inv_image wf_mult wf_lex_prod wf_less_than wf_smaller_rest)
  then show ?thesis using assms(2,3)
  proof (induction y)
    case (less y)
    show ?case
    proof (cases "\<exists>u. micro_step y u")
      case True
      then obtain u where u: "micro_step y u" by blast
      have "\<exists>z. micro_step\<^sup>*\<^sup>* u z \<and> all_returned z"
      proof (rule less.IH)
        show "(u, y) \<in> inv_image (mult (less_than <*lex*> smaller_rest)) (all_left I)"
          using all_left_step [OF u less.prems(1) assms(1)] by simp
        show "only I u" by (rule only_step [OF u less.prems(1)])
        show "all_returned z" if "micro_step\<^sup>*\<^sup>* u z" "\<nexists>v. micro_step z v" for z
          using less.prems(2) converse_rtranclp_into_rtranclp [OF u that(1)] that(2) by blast
      qed
      then show ?thesis using converse_rtranclp_into_rtranclp [of micro_step, OF u] by blast
    next
      case False
      then show ?thesis using less.prems(2) [of y] by blast
    qed
  qed
qed

text \<open>Every call of a goroutine that has returned has one reply.\<close>

lemma replies_counted:
  assumes "micro_step\<^sup>*\<^sup>* y z"
  shows "length (th_replies z i) + length (th_todo z i) + (if th_now z i = None then 0 else 1) =
    length (th_replies y i) + length (th_todo y i) + (if th_now y i = None then 0 else 1)"
  using assms
proof (induction rule: rtranclp_induct)
  case (step u v)
  from step.hyps(2) have "length (th_replies v i) + length (th_todo v i) + (if th_now v i = None then 0 else 1) =
      length (th_replies u i) + length (th_todo u i) + (if th_now u i = None then 0 else 1)"
    by cases (auto simp: fun_upd_apply)
  with step.IH show ?case by simp
qed simp

section \<open>Goroutines interleaved call by call\<close>

text \<open>The specification: a call is one step, with a reply and an effect.\<close>

record ('s, 'c, 'r) callers =
  ca_mem :: 's
  ca_todo :: "nat \<Rightarrow> 'c list"
  ca_replies :: "nat \<Rightarrow> 'r list"

inductive call_step :: "('c \<Rightarrow> 's \<Rightarrow> 'r) \<Rightarrow> ('c \<Rightarrow> 's \<Rightarrow> 's) \<Rightarrow> ('s, 'c, 'r) callers \<Rightarrow> ('s, 'c, 'r) callers \<Rightarrow> bool" for reply effect where
  call: "ca_todo v i = c # cs \<Longrightarrow>
    call_step reply effect v (v\<lparr>ca_mem := effect c (ca_mem v), ca_todo := (ca_todo v)(i := cs),
      ca_replies := (ca_replies v)(i := ca_replies v i @ [reply c (ca_mem v)])\<rparr>)"

definition start_callers :: "'s \<Rightarrow> (nat \<Rightarrow> 'c list) \<Rightarrow> ('s, 'c, 'r) callers" where
  "start_callers m cs = \<lparr>ca_mem = m, ca_todo = cs, ca_replies = (\<lambda>_. [])\<rparr>"

section \<open>Critical sections\<close>

text \<open>
  A section under a lock: every access is to an object of that lock, a read uses no more than the object
  holds, and the section ends by giving the lock back and returning.
\<close>

primrec section_of :: "('x \<Rightarrow> 'l) \<Rightarrow> ('x \<Rightarrow> 's \<Rightarrow> 's \<Rightarrow> bool) \<Rightarrow> ('l \<Rightarrow> 's \<Rightarrow> 's \<Rightarrow> bool) \<Rightarrow> 'l \<Rightarrow>
    ('s, 'x, 'l, 'r) micro \<Rightarrow> bool" where
  "section_of lock_of same_at agree l (Ret r) \<longleftrightarrow> False"
| "section_of lock_of same_at agree l (Acquire l' p) \<longleftrightarrow> False"
| "section_of lock_of same_at agree l (Release l' p) \<longleftrightarrow> l' = l \<and> (\<exists>r. p = Ret r)"
| "section_of lock_of same_at agree l (Fetch x f) \<longleftrightarrow>
     lock_of x = l \<and> (\<forall>m m'. same_at x m m' \<longrightarrow> f m = f m') \<and> (\<forall>m. section_of lock_of same_at agree l (f m))"
| "section_of lock_of same_at agree l (Update x g p) \<longleftrightarrow>
     lock_of x = l \<and> (\<forall>m m'. agree l m m' \<longrightarrow> agree l (g m) (g m')) \<and>
     (\<forall>m l'. l' \<noteq> l \<longrightarrow> agree l' m (g m)) \<and> section_of lock_of same_at agree l p"

lemma section_touch [simp]:
  "section_of lock_of same_at agree l (touch xs p) \<longleftrightarrow> (\<forall>x \<in> set xs. lock_of x = l) \<and> section_of lock_of same_at agree l p"
  by (induction xs) auto

text \<open>The locks that a goroutine holds.\<close>

definition owned :: "('s, 'x, 'l, 'r) threads \<Rightarrow> nat \<Rightarrow> 'l set" where
  "owned y i = {l. th_owner y l = Some i}"

lemma owned_upd:
  "owned (y\<lparr>th_now := n\<rparr>) i = owned y i" "owned (y\<lparr>th_todo := t\<rparr>) i = owned y i"
  "owned (y\<lparr>th_mem := m\<rparr>) i = owned y i" "owned (y\<lparr>th_replies := r\<rparr>) i = owned y i"
  by (simp_all add: owned_def)

lemma owner_owned:
  assumes "owned y i = {l}"
  shows "th_owner y l = Some i" and "th_owner y k = Some j \<Longrightarrow> j \<noteq> i \<Longrightarrow> k \<noteq> l"
proof -
  have "l \<in> owned y i" using assms by simp
  then show "th_owner y l = Some i" "th_owner y k = Some j \<Longrightarrow> j \<noteq> i \<Longrightarrow> k \<noteq> l" by (auto simp: owned_def)
qed

section \<open>Methods under one lock each\<close>

text \<open>
  What the code relies on: \<open>lock_of\<close> assigns every object the mutex that protects it; \<open>same_at x\<close> says that two
  memories agree on what a read of \<open>x\<close> sees, and \<open>agree l\<close> that they agree on all that \<open>l\<close> protects.
  Every method is one section under one lock, and alone it has the reply and the effect of its call.
\<close>

locale one_lock_methods =
  fixes lock_of :: "'x \<Rightarrow> 'l" and same_at :: "'x \<Rightarrow> 's \<Rightarrow> 's \<Rightarrow> bool" and agree :: "'l \<Rightarrow> 's \<Rightarrow> 's \<Rightarrow> bool"
    and method_of :: "'c \<Rightarrow> ('s, 'x, 'l, 'r) micro" and reply :: "'c \<Rightarrow> 's \<Rightarrow> 'r" and effect :: "'c \<Rightarrow> 's \<Rightarrow> 's"
    and ok :: "'s \<Rightarrow> bool"
  assumes agree_refl [simp]: "agree l m m"
    and agree_sym: "agree l m m' \<Longrightarrow> agree l m' m"
    and agree_trans: "agree l m m' \<Longrightarrow> agree l m' m'' \<Longrightarrow> agree l m m''"
    and agree_all: "(\<And>l. agree l m m') \<Longrightarrow> m = m'"
    and agree_same_at: "agree (lock_of x) m m' \<Longrightarrow> same_at x m m'"
    and method_atomic: "\<exists>l b. method_of c = Acquire l b \<and> section_of lock_of same_at agree l b"
    and method_runs: "ok m \<Longrightarrow> run (method_of c) m = (reply c m, effect c m)"
    and effect_ok: "ok m \<Longrightarrow> ok (effect c m)"
begin

abbreviation guarded :: "'l \<Rightarrow> ('s, 'x, 'l, 'r) micro \<Rightarrow> bool" where
  "guarded l \<equiv> section_of lock_of same_at agree l"

lemma section_run:
  assumes "guarded l p"
  shows "agree l m m' \<Longrightarrow> fst (run p m) = fst (run p m')"
    and "agree l m m' \<Longrightarrow> agree l (snd (run p m)) (snd (run p m'))"
    and "l' \<noteq> l \<Longrightarrow> agree l' m (snd (run p m))"
  using assms
proof (induction p arbitrary: m m')
  case (Fetch x f)
  { case 1
    then have "f m = f m'" using agree_same_at [of x m m'] by simp
    with 1 Fetch.IH(1) [of "f m'" m m'] show ?case by auto
  next
    case 2
    then have "f m = f m'" using agree_same_at [of x m m'] by simp
    with 2 Fetch.IH(2) [of "f m'" m m'] show ?case by auto
  next
    case 3
    with Fetch.IH(3) [of "f m" m] show ?case by auto }
next
  case (Update x g p)
  { case 1
    with Update(1) [of "g m" "g m'"] show ?case by auto
  next
    case 2
    with Update(2) [of "g m" "g m'"] show ?case by auto
  next
    case 3
    then have "agree l' m (g m)" "agree l' (g m) (snd (run p (g m)))" using Update(3) [of "g m"] by simp_all
    then show ?case by (simp add: agree_trans [of l' m "g m"]) }
qed auto

text \<open>
  Where a goroutine is in its current method.  The specification has executed the call as soon as the
  goroutine holds the lock: from there on, what the rest of the section will reply and leave in the
  part of the store under the lock is what the specification has.
\<close>

inductive phase :: "'s \<Rightarrow> 's \<Rightarrow> 'l set \<Rightarrow> ('s, 'x, 'l, 'r) micro option \<Rightarrow> 'c list \<Rightarrow> 'c list \<Rightarrow> 'r list \<Rightarrow> 'r list \<Rightarrow> bool" for M A where
  idle: "phase M A {} None cs cs rs rs"
| called: "phase M A {} (Some (method_of c)) cs (c # cs) rs rs"
| inside: "guarded l p \<Longrightarrow> agree l (snd (run p M)) A \<Longrightarrow>
    phase M A {l} (Some p) cs cs rs (rs @ [fst (run p M)])"
| unlocked: "phase M A {} (Some (Ret r)) cs cs rs (rs @ [r])"

inductive_cases phase_NoneE: "phase M A H None cs as rs qs"

definition implements_calls :: "('s, 'x, 'l, 'r) threads \<Rightarrow> ('s, 'c, 'r) callers \<Rightarrow> bool" where
  "implements_calls y v \<longleftrightarrow>
     ok (ca_mem v) \<and> (\<forall>l. th_owner y l = None \<longrightarrow> agree l (th_mem y) (ca_mem v)) \<and>
     (\<forall>i. \<exists>cs. th_todo y i = map (method_of) cs \<and>
        phase (th_mem y) (ca_mem v) (owned y i) (th_now y i) cs (ca_todo v i) (th_replies y i) (ca_replies v i))"

lemma phase_frame:
  assumes "phase M A H p cs as rs qs" and "\<And>l. l \<in> H \<Longrightarrow> agree l M M' \<and> agree l A A'"
  shows "phase M' A' H p cs as rs qs"
  using assms
proof cases
  case (inside l p)
  then have a: "agree l M M'" "agree l A A'" using assms(2) by auto
  have "agree l (snd (run p M')) A'"
    using agree_trans [OF agree_trans [OF agree_sym [OF section_run(2) [OF inside(5) a(1)]] inside(6)] a(2)] .
  with inside section_run(1) [OF inside(5) a(1)] show ?thesis by (auto intro: phase.inside)
qed (auto intro: phase.intros)

text \<open>What a step of one goroutine has to establish: its own phase, and that it leaves the others alone.\<close>

lemma implements_stepI:
  assumes "implements_calls y v" and "ok (ca_mem v')"
    and "\<And>l. th_owner y' l = None \<Longrightarrow> agree l (th_mem y') (ca_mem v')"
    and "th_todo y' i = map (method_of) cs"
    and "phase (th_mem y') (ca_mem v') (owned y' i) (th_now y' i) cs (ca_todo v' i) (th_replies y' i) (ca_replies v' i)"
    and "\<And>j. j \<noteq> i \<Longrightarrow> owned y' j = owned y j \<and> th_now y' j = th_now y j \<and> th_todo y' j = th_todo y j \<and>
      th_replies y' j = th_replies y j \<and> ca_todo v' j = ca_todo v j \<and> ca_replies v' j = ca_replies v j"
    and "\<And>l j. j \<noteq> i \<Longrightarrow> th_owner y l = Some j \<Longrightarrow>
      agree l (th_mem y) (th_mem y') \<and> agree l (ca_mem v) (ca_mem v')"
  shows "implements_calls y' v'"
proof -
  have "\<exists>cs. th_todo y' j = map (method_of) cs \<and>
    phase (th_mem y') (ca_mem v') (owned y' j) (th_now y' j) cs (ca_todo v' j) (th_replies y' j) (ca_replies v' j)" for j
  proof (cases "j = i")
    case True
    then show ?thesis using assms(4,5) by blast
  next
    case False
    obtain cs where cs: "th_todo y j = map (method_of) cs"
      "phase (th_mem y) (ca_mem v) (owned y j) (th_now y j) cs (ca_todo v j) (th_replies y j) (ca_replies v j)"
      using assms(1) unfolding implements_calls_def by blast
    have "phase (th_mem y') (ca_mem v') (owned y j) (th_now y j) cs (ca_todo v j) (th_replies y j) (ca_replies v j)"
      by (rule phase_frame [OF cs(2)]) (use assms(7) [OF False] in \<open>simp add: owned_def\<close>)
    with cs(1) assms(6) [OF False] show ?thesis by (intro exI [of _ cs]) simp
  qed
  with assms(2,3) show ?thesis by (simp add: implements_calls_def)
qed

lemma implementsD:
  assumes "implements_calls y v"
  obtains cs where "th_todo y i = map (method_of) cs"
    and "phase (th_mem y) (ca_mem v) (owned y i) (th_now y i) cs (ca_todo v i) (th_replies y i) (ca_replies v i)"
  using assms unfolding implements_calls_def by blast

lemma step_call:
  assumes "implements_calls y v" and "th_now y i = None" and "th_todo y i = p # ps"
  shows "implements_calls (y\<lparr>th_now := (th_now y)(i \<mapsto> p), th_todo := (th_todo y)(i := ps)\<rparr>) v"
proof -
  obtain cs where cs: "th_todo y i = map (method_of) cs"
    "phase (th_mem y) (ca_mem v) (owned y i) (th_now y i) cs (ca_todo v i) (th_replies y i) (ca_replies v i)"
    by (rule implementsD [OF assms(1)])
  then obtain c cs' where c: "cs = c # cs'" "p = method_of c" "ps = map (method_of) cs'" using assms(3) by auto
  from cs(2) assms(2) have *: "owned y i = {}" "ca_todo v i = cs" "ca_replies v i = th_replies y i"
    by (auto elim: phase_NoneE)
  show ?thesis
    by (rule implements_stepI [OF assms(1), where i = i and cs = cs'])
       (use assms(1) c * in \<open>auto simp: implements_calls_def owned_upd intro: phase.called\<close>)
qed

lemma step_acquire:
  assumes "implements_calls y v" and "th_now y i = Some (Acquire l p)" and "th_owner y l = None"
  shows "\<exists>v'. call_step reply effect v v' \<and>
    implements_calls (y\<lparr>th_now := (th_now y)(i \<mapsto> p), th_owner := (th_owner y)(l \<mapsto> i)\<rparr>) v'"
proof -
  obtain cs where cs: "th_todo y i = map (method_of) cs"
    "phase (th_mem y) (ca_mem v) (owned y i) (th_now y i) cs (ca_todo v i) (th_replies y i) (ca_replies v i)"
    by (rule implementsD [OF assms(1)])
  from cs(2) obtain c where c: "method_of c = Acquire l p" "ca_todo v i = c # cs" "owned y i = {}"
    "ca_replies v i = th_replies y i"
    by cases (use assms(2) in auto)
  have sec: "guarded l p" using method_atomic [of c] c(1) by (simp)
  have ok: "ok (ca_mem v)" and part: "agree l (th_mem y) (ca_mem v)"
    using assms(1,3) by (simp_all add: implements_calls_def)
  have run: "run p (ca_mem v) = (reply c (ca_mem v), effect c (ca_mem v))"
    using method_runs [OF ok, of c] c(1) by simp
  let ?v = "v\<lparr>ca_mem := effect c (ca_mem v), ca_todo := (ca_todo v)(i := cs),
    ca_replies := (ca_replies v)(i := ca_replies v i @ [reply c (ca_mem v)])\<rparr>"
  let ?y = "y\<lparr>th_now := (th_now y)(i \<mapsto> p), th_owner := (th_owner y)(l \<mapsto> i)\<rparr>"
  have others: "l' \<noteq> l \<Longrightarrow> agree l' (ca_mem v) (effect c (ca_mem v))" for l'
    using section_run(3) [OF sec, of l' "ca_mem v"] run by simp
  have mine: "owned ?y i = {l}" using c(3) by (auto simp: owned_def)
  have "phase (th_mem y) (effect c (ca_mem v)) {l} (Some p) cs cs (th_replies y i)
      (th_replies y i @ [reply c (ca_mem v)])"
    using phase.inside [OF sec, of "th_mem y"] section_run(1,2) [OF sec part] run by simp
  then have ph: "phase (th_mem ?y) (ca_mem ?v) (owned ?y i) (th_now ?y i) cs (ca_todo ?v i) (th_replies ?y i) (ca_replies ?v i)"
    unfolding mine using c(4) by simp
  have "call_step reply effect v ?v" by (rule call_step.call [OF c(2)])
  moreover have "implements_calls ?y ?v"
  proof (rule implements_stepI [OF assms(1) _ _ _ ph])
    show "ok (ca_mem ?v)" using effect_ok [OF ok] by simp
    show "agree l' (th_mem ?y) (ca_mem ?v)" if "th_owner ?y l' = None" for l'
      using that assms(1) others [of l'] agree_trans [of l' "th_mem y" "ca_mem v"]
      by (auto simp: implements_calls_def split: if_splits)
  next
    fix l' j assume "j \<noteq> i" "th_owner y l' = Some j"
    then show "agree l' (th_mem y) (th_mem ?y) \<and> agree l' (ca_mem v) (ca_mem ?v)"
      using assms(3) others [of l'] by (cases "l' = l") auto
  qed (use cs(1) assms(3) in \<open>auto simp: owned_def\<close>)
  ultimately show ?thesis by blast
qed

text \<open>Inside a section: the goroutine holds exactly the lock of the section.\<close>

lemma insideE:
  assumes "implements_calls y v" and "th_now y i = Some p" and "\<nexists>l q. p = Acquire l q" and "\<nexists>r. p = Ret r"
  obtains l cs where "owned y i = {l}" and "guarded l p" and "th_todo y i = map (method_of) cs"
    and "agree l (snd (run p (th_mem y))) (ca_mem v)" and "ca_todo v i = cs"
    and "ca_replies v i = th_replies y i @ [fst (run p (th_mem y))]"
proof -
  obtain cs where cs: "th_todo y i = map (method_of) cs"
    "phase (th_mem y) (ca_mem v) (owned y i) (th_now y i) cs (ca_todo v i) (th_replies y i) (ca_replies v i)"
    by (rule implementsD [OF assms(1)])
  from cs(2) show ?thesis
  proof cases
    case (called c)
    then show ?thesis using assms(2,3) method_atomic [of c] by (auto)
  qed (use assms(2-4) cs(1) that in auto)
qed

lemma step_release:
  assumes "implements_calls y v" and "th_now y i = Some (Release l p)"
  shows "implements_calls (y\<lparr>th_now := (th_now y)(i \<mapsto> p), th_owner := (th_owner y)(l := None)\<rparr>) v"
proof -
  obtain l' cs where c: "owned y i = {l'}" "guarded l' (Release l p)" "th_todo y i = map (method_of) cs"
    "agree l' (snd (run (Release l p) (th_mem y))) (ca_mem v)" "ca_todo v i = cs"
    "ca_replies v i = th_replies y i @ [fst (run (Release l p) (th_mem y))]"
    by (rule insideE [OF assms]) auto
  then obtain r where r: "l' = l" "p = Ret r" by auto
  let ?y = "y\<lparr>th_now := (th_now y)(i \<mapsto> p), th_owner := (th_owner y)(l := None)\<rparr>"
  have own: "owned ?y i = {}" using c(1) r(1) by (auto simp: owned_def)
  have "phase (th_mem y) (ca_mem v) {} (Some (Ret r)) cs cs (th_replies y i) (th_replies y i @ [r])"
    by (rule phase.unlocked)
  then have ph: "phase (th_mem ?y) (ca_mem v) (owned ?y i) (th_now ?y i) cs (ca_todo v i) (th_replies ?y i) (ca_replies v i)"
    unfolding own using r(2) c(5,6) by simp
  show ?thesis
  proof (rule implements_stepI [OF assms(1) _ _ _ ph])
    show "agree k (th_mem ?y) (ca_mem v)" if "th_owner ?y k = None" for k
      using that assms(1) c(4) r by (cases "k = l") (auto simp: implements_calls_def)
    show "owned ?y j = owned y j \<and> th_now ?y j = th_now y j \<and> th_todo ?y j = th_todo y j \<and> th_replies ?y j = th_replies y j \<and>
      ca_todo v j = ca_todo v j \<and> ca_replies v j = ca_replies v j" if "j \<noteq> i" for j
      using that owner_owned [OF c(1)] r(1) by (auto simp: owned_def)
  qed (use assms(1) c(3) in \<open>auto simp: implements_calls_def\<close>)
qed

lemma step_fetch:
  assumes "implements_calls y v" and "th_now y i = Some (Fetch x f)"
  shows "implements_calls (y\<lparr>th_now := (th_now y)(i \<mapsto> f (th_mem y))\<rparr>) v"
proof -
  obtain l cs where c: "owned y i = {l}" "guarded l (Fetch x f)" "th_todo y i = map (method_of) cs"
    "agree l (snd (run (Fetch x f) (th_mem y))) (ca_mem v)" "ca_todo v i = cs"
    "ca_replies v i = th_replies y i @ [fst (run (Fetch x f) (th_mem y))]"
    by (rule insideE [OF assms]) auto
  let ?y = "y\<lparr>th_now := (th_now y)(i \<mapsto> f (th_mem y))\<rparr>"
  have "phase (th_mem y) (ca_mem v) {l} (Some (f (th_mem y))) cs cs (th_replies y i)
      (th_replies y i @ [fst (run (f (th_mem y)) (th_mem y))])"
    by (rule phase.inside) (use c in auto)
  then have ph: "phase (th_mem ?y) (ca_mem v) (owned ?y i) (th_now ?y i) cs (ca_todo v i) (th_replies ?y i) (ca_replies v i)"
    unfolding owned_upd c(1) using c(5,6) by simp
  show ?thesis
    by (rule implements_stepI [OF assms(1) _ _ _ ph])
       (use assms(1) c(3) in \<open>auto simp: implements_calls_def owned_upd\<close>)
qed

lemma step_update:
  assumes "implements_calls y v" and "th_now y i = Some (Update x g p)"
  shows "implements_calls (y\<lparr>th_now := (th_now y)(i \<mapsto> p), th_mem := g (th_mem y)\<rparr>) v"
proof -
  obtain l cs where c: "owned y i = {l}" "guarded l (Update x g p)" "th_todo y i = map (method_of) cs"
    "agree l (snd (run (Update x g p) (th_mem y))) (ca_mem v)" "ca_todo v i = cs"
    "ca_replies v i = th_replies y i @ [fst (run (Update x g p) (th_mem y))]"
    by (rule insideE [OF assms]) auto
  let ?y = "y\<lparr>th_now := (th_now y)(i \<mapsto> p), th_mem := g (th_mem y)\<rparr>"
  have others: "k \<noteq> l \<Longrightarrow> agree k (th_mem y) (g (th_mem y))" for k using c(2) by simp
  have "phase (g (th_mem y)) (ca_mem v) {l} (Some p) cs cs (th_replies y i)
      (th_replies y i @ [fst (run p (g (th_mem y)))])"
    by (rule phase.inside) (use c in auto)
  then have ph: "phase (th_mem ?y) (ca_mem v) (owned ?y i) (th_now ?y i) cs (ca_todo v i) (th_replies ?y i) (ca_replies v i)"
    unfolding owned_upd c(1) using c(5,6) by simp
  show ?thesis
  proof (rule implements_stepI [OF assms(1) _ _ _ ph])
    show "agree k (th_mem ?y) (ca_mem v)" if "th_owner ?y k = None" for k
    proof -
      have "agree k (th_mem y) (ca_mem v)" "k \<noteq> l"
        using that assms(1) owner_owned(1) [OF c(1)] by (auto simp: implements_calls_def)
      with agree_trans [OF agree_sym [OF others [OF this(2)]] this(1)] show ?thesis by simp
    qed
    show "agree k (th_mem y) (th_mem ?y) \<and> agree k (ca_mem v) (ca_mem v)" if "j \<noteq> i" "th_owner y k = Some j" for k j
      using others [of k] owner_owned(2) [OF c(1) that(2,1)] by simp
  qed (use assms(1) c(3) in \<open>auto simp: implements_calls_def owned_upd\<close>)
qed

lemma step_return:
  assumes "implements_calls y v" and "th_now y i = Some (Ret r)"
  shows "implements_calls (y\<lparr>th_now := (th_now y)(i := None), th_replies := (th_replies y)(i := th_replies y i @ [r])\<rparr>) v"
proof -
  obtain cs where cs: "th_todo y i = map (method_of) cs"
    "phase (th_mem y) (ca_mem v) (owned y i) (th_now y i) cs (ca_todo v i) (th_replies y i) (ca_replies v i)"
    by (rule implementsD [OF assms(1)])
  have *: "owned y i = {} \<and> ca_todo v i = cs \<and> ca_replies v i = th_replies y i @ [r]"
    using cs(2)
  proof cases
    case (called c)
    then show ?thesis using assms(2) method_atomic [of c] by (auto)
  qed (use assms(2) in auto)
  show ?thesis
    by (rule implements_stepI [OF assms(1), where i = i and cs = cs])
       (use assms(1) cs(1) * in \<open>auto simp: implements_calls_def owned_upd intro: phase.idle\<close>)
qed

lemma micro_step_implements:
  assumes "micro_step y y'" and "implements_calls y v"
  shows "\<exists>v'. (call_step reply effect)\<^sup>*\<^sup>* v v' \<and> implements_calls y' v'"
  using assms(1)
proof cases
  case (acquire i l p)
  from step_acquire [OF assms(2) acquire(2,3)] show ?thesis unfolding acquire(1) by blast
next
  case (call i p ps)
  from step_call [OF assms(2) call(2,3)] show ?thesis unfolding call(1) by blast
next
  case (release i l p)
  from step_release [OF assms(2) release(2)] show ?thesis unfolding release(1) by blast
next
  case (fetch i x f)
  from step_fetch [OF assms(2) fetch(2)] show ?thesis unfolding fetch(1) by blast
next
  case (update i x g p)
  from step_update [OF assms(2) update(2)] show ?thesis unfolding update(1) by blast
next
  case (return i r)
  from step_return [OF assms(2) return(2)] show ?thesis unfolding return(1) by blast
qed

lemma implements_start:
  assumes "ok m"
  shows "implements_calls (start_threads m (\<lambda>i. map (method_of) (cs i))) (start_callers m cs)"
  using assms by (auto simp: implements_calls_def start_threads_def start_callers_def owned_def intro!: phase.idle)

lemma micro_run_implements:
  assumes "micro_step\<^sup>*\<^sup>* (start_threads m (\<lambda>i. map (method_of) (cs i))) y" and "ok m"
  shows "\<exists>v. (call_step reply effect)\<^sup>*\<^sup>* (start_callers m cs) v \<and> implements_calls y v"
  using assms(1)
proof (induction rule: rtranclp_induct)
  case base
  then show ?case using implements_start [OF assms(2)] by blast
next
  case (step y z)
  then obtain v where v: "(call_step reply effect)\<^sup>*\<^sup>* (start_callers m cs) v" "implements_calls y v" by blast
  with micro_step_implements [OF step.hyps(2) v(2)] show ?case by (meson rtranclp_trans)
qed

text \<open>A goroutine that is about to access an object holds its lock, so no two of them race.\<close>

lemma access_locked:
  assumes "implements_calls y v" and "th_now y i = Some p" and "(\<exists>f. p = Fetch x f) \<or> (\<exists>g q. p = Update x g q)"
  shows "th_owner y (lock_of x) = Some i"
proof -
  obtain l cs where "owned y i = {l}" "guarded l p"
    by (rule insideE [OF assms(1,2)]) (use assms(3) in auto)
  with assms(3) owner_owned(1) show ?thesis by auto
qed

lemma implements_no_race: "implements_calls y v \<Longrightarrow> \<not> data_race y"
  unfolding data_race_def using access_locked by (metis option.inject)

text \<open>The holder of a lock can always go on, and a goroutine waits for one lock only: no deadlock.\<close>

lemma implements_progress:
  assumes "implements_calls y v" and "\<nexists>z. micro_step y z"
  shows "all_returned y"
proof -
  have free: "th_owner y l = None" for l
  proof (cases "th_owner y l")
    case (Some i)
    obtain cs where "phase (th_mem y) (ca_mem v) (owned y i) (th_now y i) cs (ca_todo v i) (th_replies y i) (ca_replies v i)"
      by (rule implementsD [OF assms(1)])
    moreover have "owned y i \<noteq> {}" using Some by (auto simp: owned_def)
    ultimately obtain k p where "th_now y i = Some p" "guarded k p" by cases auto
    then show ?thesis using assms(2) by (cases p) (auto dest: micro_step.intros)
  qed
  have none: "th_now y i = None" for i
  proof (cases "th_now y i")
    case (Some p)
    then show ?thesis using assms(2) free by (cases p) (auto dest: micro_step.intros)
  qed
  then have "th_todo y i = []" for i
    using assms(2) by (cases "th_todo y i") (auto dest: micro_step.call)
  with none show ?thesis by (simp add: all_returned_def)
qed

lemma implements_final:
  assumes "implements_calls y v" and "all_returned y"
  shows "th_mem y = ca_mem v \<and> th_replies y = ca_replies v \<and> (\<forall>i. ca_todo v i = [])"
proof -
  have i: "owned y i = {} \<and> th_replies y i = ca_replies v i \<and> ca_todo v i = []" for i
  proof -
    obtain cs where "th_todo y i = map (method_of) cs"
      "phase (th_mem y) (ca_mem v) (owned y i) (th_now y i) cs (ca_todo v i) (th_replies y i) (ca_replies v i)"
      by (rule implementsD [OF assms(1)])
    with assms(2) show ?thesis by (auto simp: all_returned_def elim: phase_NoneE)
  qed
  then have "th_owner y l = None" for l by (cases "th_owner y l") (auto simp: owned_def)
  then have "agree l (th_mem y) (ca_mem v)" for l using assms(1) by (simp add: implements_calls_def)
  then have "th_mem y = ca_mem v" by (rule agree_all)
  with i show ?thesis by auto
qed

lemma linearizable:
  assumes "micro_step\<^sup>*\<^sup>* (start_threads m (\<lambda>i. map method_of (cs i))) y" and "ok m"
  shows "\<not> data_race y \<and> ((\<nexists>z. micro_step y z) \<longrightarrow> all_returned y) \<and>
    (all_returned y \<longrightarrow> (\<exists>v. (call_step reply effect)\<^sup>*\<^sup>* (start_callers m cs) v \<and>
       (\<forall>i. ca_todo v i = []) \<and> th_mem y = ca_mem v \<and> th_replies y = ca_replies v))"
proof -
  obtain v where v: "(call_step reply effect)\<^sup>*\<^sup>* (start_callers m cs) v" "implements_calls y v"
    using micro_run_implements [OF assms] by blast
  show ?thesis
    using implements_no_race [OF v(2)] implements_progress [OF v(2)] implements_final [OF v(2)] v(1) by blast
qed

lemma calls_return:
  assumes "finite I" and "\<forall>i. i \<notin> I \<longrightarrow> cs i = []" and "ok m"
  shows "(\<nexists>s. s 0 = start_threads m (\<lambda>i. map method_of (cs i)) \<and> (\<forall>n. micro_step (s n) (s (Suc n)))) \<and>
    (\<forall>y. micro_step\<^sup>*\<^sup>* (start_threads m (\<lambda>i. map method_of (cs i))) y \<longrightarrow>
      (\<exists>z. micro_step\<^sup>*\<^sup>* y z \<and> all_returned z))"
proof (intro conjI allI impI)
  let ?y = "start_threads m (\<lambda>i. map method_of (cs i))"
  have only: "only I ?y" using assms(2) by (simp add: only_def start_threads_def)
  show "\<nexists>s. s 0 = ?y \<and> (\<forall>n. micro_step (s n) (s (Suc n)))" by (rule no_endless_run [OF assms(1) only])
  show "\<exists>z. micro_step\<^sup>*\<^sup>* y z \<and> all_returned z" if y: "micro_step\<^sup>*\<^sup>* ?y y" for y
  proof (rule runs_return [OF assms(1) only_run [OF y only]])
    show "all_returned z" if "micro_step\<^sup>*\<^sup>* y z" "\<nexists>u. micro_step z u" for z
      using linearizable [OF rtranclp_trans [OF y that(1)] assms(3)] that(2) by blast
  qed
qed

end

end
