(* ===== verification/Locking.thy ===== *)
theory Locking
  imports Memory Threads
begin

text \<open>
  The locks of \<open>backends/stats/memorybackend.go\<close>.  Every method of the store is written out a second
  time, as the sequence of its accesses to shared memory and of its calls of \<open>Lock\<close> and \<open>Unlock\<close>, and the
  goroutines that call the methods are interleaved access by access.  Here the results hold that the
  theory \<open>Memory\<close> takes for granted: a method is atomic, no two goroutines race in the store, and no
  goroutine waits for ever.  The commands that keep using a map of the store after its lock has been
  released are written out too.
\<close>

section \<open>Programs over the store\<close>

text \<open>The embedded \<open>sync.Mutex\<close> and \<open>setLock\<close>, and the shared objects: the maps and what they point to.\<close>

datatype lock = Mem_lock | Set_lock

datatype place = Values | Counters | Counter_of bytes | Last | Max_history | Sets | Set_of bytes

fun lock_of :: "place \<Rightarrow> lock" where
  "lock_of Sets = Set_lock"
| "lock_of (Set_of k) = Set_lock"
| "lock_of _ = Mem_lock"

text \<open>
  A \<open>map[string]struct{}\<close> that a method returns: the live set that the store holds under a key, or a
  map of the caller's own.
\<close>

datatype map_ref = Live bytes | Fresh "bytes set"

definition live_set :: "'f mem \<Rightarrow> bytes \<Rightarrow> bytes set" where
  "live_set m k = (case mem_sets m k of Some s \<Rightarrow> s | None \<Rightarrow> {})"

fun deref :: "'f mem \<Rightarrow> map_ref \<Rightarrow> bytes set" where
  "deref m (Live k) = live_set m k"
| "deref m (Fresh s) = s"

text \<open>
  What a goroutine ends with: the result of a method, or what a command has written to its client: a null,
  the length and the members of a set, or the keys and values of the counters.
\<close>

datatype store_reply =
    Int_reply "int64 res"
  | Names_reply "bytes list res"
  | Set_reply "map_ref option res"
  | Counters_reply             \<comment> \<open>\<open>mem.counters\<close> itself\<close>
  | Done_reply
  | Null_sent
  | Sent nat "bytes list"
  | Json_sent "(bytes \<times> int64) list"

type_synonym 'f prog = "('f mem, place, lock, store_reply) micro"

section \<open>The methods of the store\<close>

subsection \<open>Counters and values\<close>

primrec micro_flush_loop :: "'f golib \<Rightarrow> 'f \<Rightarrow> bytes list \<Rightarrow> 'f prog \<Rightarrow> 'f prog" where
  "micro_flush_loop L d [] p = p"
| "micro_flush_loop L d (k # ks) p =
     Fetch Counters (\<lambda>_. Fetch Max_history (\<lambda>m. let max_history = mem_max_history m in
       Fetch (Counter_of k) (\<lambda>m. case mem_counters m k of
           Some v \<Rightarrow> Update (Counter_of k)
             (\<lambda>m. m\<lparr>mem_counters := (mem_counters m)(k \<mapsto> flush_counter L d max_history v)\<rparr>) (micro_flush_loop L d ks p)
         | None \<Rightarrow> micro_flush_loop L d ks p)))"

definition micro_flush_counters :: "'f golib \<Rightarrow> int \<Rightarrow> 'f prog" where
  "micro_flush_counters L now = locked Mem_lock (\<lambda>return.
     Fetch Last (\<lambda>m. let time_prev = mem_last m; d = gl_seconds L (now - time_prev) in
     Update Last (\<lambda>m. m\<lparr>mem_last := now\<rparr>)
     (Fetch Counters (\<lambda>m. micro_flush_loop L d (gl_range L (dom (mem_counters m))) (return Done_reply)))))"

definition micro_counters :: "'f prog" where
  "micro_counters = locked Mem_lock (\<lambda>return. return Counters_reply)"

definition micro_counter_by :: "'f golib \<Rightarrow> bytes \<Rightarrow> int64 \<Rightarrow> 'f prog" where
  "micro_counter_by L name cnt = locked Mem_lock (\<lambda>return.
     Fetch Counters (\<lambda>m.
       if name \<in> dom (mem_counters m) then
         Fetch (Counter_of name) (\<lambda>m. let v = the (mem_counters m name); v' = v\<lparr>ctr_value := ctr_value v + cnt\<rparr> in
         Update (Counter_of name) (\<lambda>m. m\<lparr>mem_counters := (mem_counters m)(name \<mapsto> v')\<rparr>)
         (Fetch (Counter_of name) (\<lambda>m. return (Int_reply (Ok (ctr_value (the (mem_counters m name))))))))
       else
         Update Counters (\<lambda>m. m\<lparr>mem_counters := (mem_counters m)(name \<mapsto>
           \<lparr>ctr_value = cnt, ctr_rate = gl_fzero L, ctr_history = []\<rparr>)\<rparr>)
         (return (Int_reply (Ok cnt)))))"

definition micro_incr_by :: "bytes \<Rightarrow> int64 \<Rightarrow> 'f prog" where
  "micro_incr_by name cnt = locked Mem_lock (\<lambda>return.
     Fetch Values (\<lambda>m. case mem_values m name of
         Some v \<Rightarrow> Update Values (\<lambda>m. m\<lparr>mem_values := (mem_values m)(name \<mapsto> v + cnt)\<rparr>)
           (return (Int_reply (Ok (v + cnt))))
       | None \<Rightarrow> Update Values (\<lambda>m. m\<lparr>mem_values := (mem_values m)(name \<mapsto> cnt)\<rparr>)
           (return (Int_reply (Ok cnt)))))"

definition micro_decr_by :: "bytes \<Rightarrow> int64 \<Rightarrow> 'f prog" where
  "micro_decr_by name cnt = locked Mem_lock (\<lambda>return.
     Fetch Values (\<lambda>m. case mem_values m name of
         Some v \<Rightarrow> Update Values (\<lambda>m. m\<lparr>mem_values := (mem_values m)(name \<mapsto> v - cnt)\<rparr>)
           (return (Int_reply (Ok (v - cnt))))
       | None \<Rightarrow> Update Values (\<lambda>m. m\<lparr>mem_values := (mem_values m)(name \<mapsto> - 1 * cnt)\<rparr>)
           (return (Int_reply (Ok cnt)))))"

text \<open>The second half of \<open>Del\<close>: the counter of that name.\<close>

definition micro_del_counter :: "bytes \<Rightarrow> int64 \<Rightarrow> (store_reply \<Rightarrow> 'f prog) \<Rightarrow> 'f prog" where
  "micro_del_counter name deleted return =
     Fetch Counters (\<lambda>m.
       if name \<in> dom (mem_counters m) then
         Update Counters (\<lambda>m. m\<lparr>mem_counters := (mem_counters m)(name := None)\<rparr>) (return (Int_reply (Ok (deleted + 1))))
       else return (Int_reply (Ok deleted)))"

definition micro_del :: "bytes \<Rightarrow> 'f prog" where
  "micro_del name = locked Mem_lock (\<lambda>return.
     Fetch Values (\<lambda>m. case mem_values m name of
         Some _ \<Rightarrow> Update Values (\<lambda>m. m\<lparr>mem_values := (mem_values m)(name := None)\<rparr>) (micro_del_counter name 1 return)
       | None \<Rightarrow> micro_del_counter name 0 return))"

definition micro_exists :: "bytes \<Rightarrow> 'f prog" where
  "micro_exists name = locked Mem_lock (\<lambda>return.
     Fetch Values (\<lambda>m. return (Int_reply (Ok (case mem_values m name of Some _ \<Rightarrow> 1 | None \<Rightarrow> 0)))))"

definition micro_get :: "bytes \<Rightarrow> 'f prog" where
  "micro_get name = locked Mem_lock (\<lambda>return.
     Fetch Values (\<lambda>m. return (Int_reply (case mem_values m name of Some v \<Rightarrow> Ok v | None \<Rightarrow> Err ErrNotFound))))"

definition micro_set :: "bytes \<Rightarrow> int64 \<Rightarrow> 'f prog" where
  "micro_set name value = locked Mem_lock (\<lambda>return.
     Update Values (\<lambda>m. m\<lparr>mem_values := (mem_values m)(name \<mapsto> value)\<rparr>) (return (Int_reply (Ok 1))))"

definition micro_setnx :: "bytes \<Rightarrow> int64 \<Rightarrow> 'f prog" where
  "micro_setnx name value = locked Mem_lock (\<lambda>return.
     Fetch Values (\<lambda>m. case mem_values m name of
         None \<Rightarrow> Update Values (\<lambda>m. m\<lparr>mem_values := (mem_values m)(name \<mapsto> value)\<rparr>) (return (Int_reply (Ok 1)))
       | Some _ \<Rightarrow> return (Int_reply (Ok (- 1)))))"

definition micro_keys :: "'f golib \<Rightarrow> bytes \<Rightarrow> 'f prog" where
  "micro_keys L pattern = locked Mem_lock (\<lambda>return.
     Fetch Values (\<lambda>m. touch (replicate (card (dom (mem_values m))) Values)
       (return (Names_reply (mem_keys L pattern m)))))"

subsection \<open>Sets\<close>

text \<open>The second part of \<open>SAdd\<close>: the look-up in the set, and its insertion.\<close>

definition micro_insert :: "bytes \<Rightarrow> bytes \<Rightarrow> (store_reply \<Rightarrow> 'f prog) \<Rightarrow> 'f prog" where
  "micro_insert name value return =
     Fetch (Set_of name) (\<lambda>m.
       if value \<in> live_set m name then return (Int_reply (Ok 0))
       else Update (Set_of name) (\<lambda>m. m\<lparr>mem_sets := (mem_sets m)(name \<mapsto> insert value (live_set m name))\<rparr>)
         (return (Int_reply (Ok 1))))"

definition micro_sadd :: "bytes \<Rightarrow> bytes \<Rightarrow> 'f prog" where
  "micro_sadd name value = locked Set_lock (\<lambda>return.
     Fetch Sets (\<lambda>m.
       if name \<in> dom (mem_sets m) then micro_insert name value return
       else Update Sets (\<lambda>m. m\<lparr>mem_sets := (mem_sets m)(name \<mapsto> {})\<rparr>) (micro_insert name value return)))"

definition micro_srem :: "bytes \<Rightarrow> bytes \<Rightarrow> 'f prog" where
  "micro_srem name value = locked Set_lock (\<lambda>return.
     Fetch Sets (\<lambda>m.
       if name \<in> dom (mem_sets m) then
         Fetch (Set_of name) (\<lambda>m.
           if value \<in> live_set m name then
             Update (Set_of name) (\<lambda>m. m\<lparr>mem_sets := (mem_sets m)(name \<mapsto> live_set m name - {value})\<rparr>)
               (return (Int_reply (Ok 1)))
           else return (Int_reply (Ok 0)))
       else return (Int_reply (Ok (- 1)))))"

definition micro_scard :: "bytes \<Rightarrow> 'f prog" where
  "micro_scard name = locked Set_lock (\<lambda>return.
     Fetch Sets (\<lambda>m.
       if name \<in> dom (mem_sets m) then
         Fetch (Set_of name) (\<lambda>m. return (Int_reply (Ok (word_of_int (int (card (live_set m name)))))))
       else return (Int_reply (Ok 0))))"

definition micro_smembers :: "bytes \<Rightarrow> 'f prog" where
  "micro_smembers name = locked Set_lock (\<lambda>return.
     Fetch Sets (\<lambda>m. return (Set_reply (Ok (if name \<in> dom (mem_sets m) then Some (Live name) else None)))))"

text \<open>A read of a map of strings: a shared access only if it is a live set.\<close>

fun fetch_set :: "map_ref \<Rightarrow> (bytes set \<Rightarrow> 'f prog) \<Rightarrow> 'f prog" where
  "fetch_set (Live k) f = Fetch (Set_of k) (\<lambda>m. f (live_set m k))"
| "fetch_set (Fresh s) f = f s"

definition micro_sdiff :: "map_ref \<Rightarrow> bytes \<Rightarrow> 'f prog" where
  "micro_sdiff result_set name = locked Set_lock (\<lambda>return.
     Fetch Sets (\<lambda>m.
       if name \<notin> dom (mem_sets m) then return (Set_reply (Ok (Some result_set)))
       else fetch_set result_set (\<lambda>rs. touch (replicate (card rs) (Set_of name))
         (Fetch (Set_of name) (\<lambda>m. return (Set_reply (Ok (Some (Fresh {k \<in> rs. k \<notin> live_set m name})))))))))"

definition micro_sismember :: "bytes \<Rightarrow> bytes \<Rightarrow> 'f prog" where
  "micro_sismember name value = locked Set_lock (\<lambda>return.
     Fetch Sets (\<lambda>m.
       if name \<in> dom (mem_sets m) then
         Fetch (Set_of name) (\<lambda>m. return (Int_reply (Ok (if value \<in> live_set m name then 1 else 0))))
       else return (Int_reply (Ok 0))))"

primrec micro_sunion_loop :: "bytes list \<Rightarrow> bytes set \<Rightarrow> (store_reply \<Rightarrow> 'f prog) \<Rightarrow> 'f prog" where
  "micro_sunion_loop [] results return = return (Set_reply (Ok (Some (Fresh results))))"
| "micro_sunion_loop (v # vs) results return =
     Fetch Sets (\<lambda>m.
       if v \<in> dom (mem_sets m) then
         Fetch (Set_of v) (\<lambda>m. touch (replicate (card (live_set m v)) (Set_of v))
           (micro_sunion_loop vs (results \<union> live_set m v) return))
       else micro_sunion_loop vs results return)"

definition micro_sunion :: "bytes list \<Rightarrow> 'f prog" where
  "micro_sunion names = locked Set_lock (\<lambda>return. micro_sunion_loop names {} return)"

text \<open>
  \<open>SInter\<close>: the first loop gathers the sets, here with the key that each is live under, and the index of a
  smallest one; the second loop goes through that set and looks its members up in the others.
\<close>

primrec micro_sinter_collect :: "bytes list \<Rightarrow> (bytes \<times> bytes set) list \<Rightarrow> nat \<Rightarrow>
    (((bytes \<times> bytes set) list \<times> nat) option \<Rightarrow> 'f prog) \<Rightarrow> 'f prog" where
  "micro_sinter_collect [] vals min_index next = next (Some (vals, min_index))"
| "micro_sinter_collect (v # vs) vals min_index next =
     Fetch Sets (\<lambda>m.
       if v \<notin> dom (mem_sets m) then next None
       else Fetch (Set_of v) (\<lambda>m. let vals' = vals @ [(v, live_set m v)] in
         touch [Set_of (fst (vals' ! min_index))]
         (micro_sinter_collect vs vals'
           (if card (live_set m v) < card (snd (vals' ! min_index)) then length vals else min_index) next)))"

definition micro_sinter :: "bytes list \<Rightarrow> 'f prog" where
  "micro_sinter names = locked Set_lock (\<lambda>return.
     micro_sinter_collect names [] 0 (\<lambda>c. case c of
         None \<Rightarrow> return (Set_reply (Ok None))
       | Some (vals, min_index) \<Rightarrow>
           if vals = [] then return (Set_reply (Panic ''runtime error: index out of range''))
           else touch (concat (replicate (card (snd (vals ! min_index))) (map (Set_of \<circ> fst) vals)))
             (return (Set_reply (Ok (Some (Fresh (sinter_pick (map snd vals) min_index))))))))"

subsection \<open>All methods\<close>

datatype store_call =
    Change mem_op
  | Counters_map
  | Exists_of bytes
  | Get_of bytes
  | Keys_like bytes
  | Scard_of bytes
  | Smembers_of bytes
  | Sdiff_of map_ref bytes
  | Sismember_of bytes bytes
  | Sunion_of "bytes list"
  | Sinter_of "bytes list"

fun micro_change :: "'f golib \<Rightarrow> mem_op \<Rightarrow> 'f prog" where
  "micro_change L (CounterBy k n) = micro_counter_by L k n"
| "micro_change L (FlushCounters now) = micro_flush_counters L now"
| "micro_change L (IncrBy k n) = micro_incr_by k n"
| "micro_change L (DecrBy k n) = micro_decr_by k n"
| "micro_change L (Del k) = micro_del k"
| "micro_change L (SetTo k n) = micro_set k n"
| "micro_change L (SetNx k n) = micro_setnx k n"
| "micro_change L (SAdd k x) = micro_sadd k x"
| "micro_change L (SRem k x) = micro_srem k x"

fun micro_call :: "'f golib \<Rightarrow> store_call \<Rightarrow> 'f prog" where
  "micro_call L (Change op) = micro_change L op"
| "micro_call L Counters_map = micro_counters"
| "micro_call L (Exists_of k) = micro_exists k"
| "micro_call L (Get_of k) = micro_get k"
| "micro_call L (Keys_like pattern) = micro_keys L pattern"
| "micro_call L (Scard_of k) = micro_scard k"
| "micro_call L (Smembers_of k) = micro_smembers k"
| "micro_call L (Sdiff_of rs k) = micro_sdiff rs k"
| "micro_call L (Sismember_of k x) = micro_sismember k x"
| "micro_call L (Sunion_of ks) = micro_sunion ks"
| "micro_call L (Sinter_of ks) = micro_sinter ks"

text \<open>The specification: the same calls, each as one step on the store, by the functions of \<open>Memory\<close>.\<close>

fun change_reply :: "'f golib \<Rightarrow> mem_op \<Rightarrow> 'f mem \<Rightarrow> store_reply" where
  "change_reply L (CounterBy k n) m = Int_reply (fst (mem_counter_by L k n m))"
| "change_reply L (FlushCounters now) m = Done_reply"
| "change_reply L (IncrBy k n) m = Int_reply (fst (mem_incr_by k n m))"
| "change_reply L (DecrBy k n) m = Int_reply (fst (mem_decr_by k n m))"
| "change_reply L (Del k) m = Int_reply (fst (mem_del k m))"
| "change_reply L (SetTo k n) m = Int_reply (fst (mem_set k n m))"
| "change_reply L (SetNx k n) m = Int_reply (fst (mem_setnx k n m))"
| "change_reply L (SAdd k x) m = Int_reply (fst (mem_sadd k x m))"
| "change_reply L (SRem k x) m = Int_reply (fst (mem_srem k x m))"

fun call_reply :: "'f golib \<Rightarrow> store_call \<Rightarrow> 'f mem \<Rightarrow> store_reply" where
  "call_reply L (Change op) m = change_reply L op m"
| "call_reply L Counters_map m = Counters_reply"
| "call_reply L (Exists_of k) m = Int_reply (mem_exists k m)"
| "call_reply L (Get_of k) m = Int_reply (mem_get k m)"
| "call_reply L (Keys_like pattern) m = Names_reply (mem_keys L pattern m)"
| "call_reply L (Scard_of k) m = Int_reply (mem_scard k m)"
| "call_reply L (Smembers_of k) m = Set_reply (map_res (map_option (\<lambda>_. Live k)) (mem_smembers k m))"
| "call_reply L (Sdiff_of rs k) m =
     Set_reply (map_res (\<lambda>s. Some (if mem_sets m k = None then rs else Fresh s)) (mem_sdiff (deref m rs) k m))"
| "call_reply L (Sismember_of k x) m = Int_reply (mem_sismember k x m)"
| "call_reply L (Sunion_of ks) m = Set_reply (map_res (\<lambda>s. Some (Fresh s)) (mem_sunion ks m))"
| "call_reply L (Sinter_of ks) m = Set_reply (map_res (map_option Fresh) (mem_sinter ks m))"

fun call_mem :: "'f golib \<Rightarrow> store_call \<Rightarrow> 'f mem \<Rightarrow> 'f mem" where
  "call_mem L (Change op) m = mem_exec L op m"
| "call_mem L _ m = m"

lemma call_mem_ok: "mem_ok m \<Longrightarrow> mem_ok (call_mem L c m)"
  by (cases c) (simp_all add: mem_exec_ok)

section \<open>Each method alone\<close>

lemma run_fetch_set [simp]: "run (fetch_set rs f) m = run (f (deref m rs)) m"
  by (cases rs) simp_all

lemma live_set_Some [simp]: "mem_sets m k = Some s \<Longrightarrow> live_set m k = s"
  by (simp add: live_set_def)

text \<open>The loop of a flush resets each counter that it visits.\<close>

lemma run_flush_loop:
  assumes "distinct ks" and "mem_max_history m = n"
  shows "run (micro_flush_loop L d ks p) m = run p (m\<lparr>mem_counters :=
    (\<lambda>k. if k \<in> set ks then map_option (flush_counter L d n) (mem_counters m k) else mem_counters m k)\<rparr>)"
  using assms
proof (induction ks arbitrary: m)
  case (Cons k ks)
  then show ?case
  proof (cases "mem_counters m k")
    case None
    then have "(\<lambda>j. if j \<in> set ks then map_option (flush_counter L d n) (mem_counters m j) else mem_counters m j) =
      (\<lambda>j. if j \<in> set (k # ks) then map_option (flush_counter L d n) (mem_counters m j) else mem_counters m j)"
      by (auto simp: fun_eq_iff)
    with None Cons show ?thesis by simp
  next
    case (Some v)
    let ?m = "m\<lparr>mem_counters := (mem_counters m)(k \<mapsto> flush_counter L d n v)\<rparr>"
    have "(\<lambda>j. if j \<in> set ks then map_option (flush_counter L d n) (mem_counters ?m j) else mem_counters ?m j) =
      (\<lambda>j. if j \<in> set (k # ks) then map_option (flush_counter L d n) (mem_counters m j) else mem_counters m j)"
      using Some Cons.prems(1) by (auto simp: fun_eq_iff)
    with Some Cons.prems Cons.IH [of ?m] show ?thesis by simp
  qed
qed simp

lemma run_flush:
  assumes "range_ok L" and "finite (dom (mem_counters m))"
  shows "run (micro_flush_counters L now) m = (Done_reply, flush_counters L now m)"
proof -
  note ks = range_okD(1,2) [OF assms]
  have "(\<lambda>k. if k \<in> dom (mem_counters m) then map_option f (mem_counters (m\<lparr>mem_last := now\<rparr>) k)
      else mem_counters (m\<lparr>mem_last := now\<rparr>) k) = (\<lambda>k. map_option f (mem_counters m k))" for f by (auto simp: fun_eq_iff domIff)
  with run_flush_loop [OF ks(1), of "m\<lparr>mem_last := now\<rparr>" "mem_max_history m"] ks(2)
  have "run (micro_flush_loop L d (gl_range L (dom (mem_counters m))) p) (m\<lparr>mem_last := now\<rparr>) =
    run p (m\<lparr>mem_last := now, mem_counters := (\<lambda>k. map_option (flush_counter L d (mem_max_history m)) (mem_counters m k))\<rparr>)" for d p
    by simp
  then show ?thesis by (simp add: micro_flush_counters_def Let_def flush_counters_def)
qed

lemma run_sunion_loop:
  "run (micro_sunion_loop names results return) m = run (return (Set_reply (Ok (Some (Fresh (sunion_loop (mem_sets m) names results)))))) m"
  by (induction names arbitrary: results) (auto simp: domIff)

lemma run_sinter_collect:
  "i \<le> length vals \<Longrightarrow> run (micro_sinter_collect names vals i next) m =
     run (next (case sinter_collect (mem_sets m) names (map snd vals) i of None \<Rightarrow> None
                | Some (_, j) \<Rightarrow> Some (vals @ map (\<lambda>k. (k, live_set m k)) names, j))) m"
proof (induction names arbitrary: vals i)
  case (Cons v vs)
  show ?case
  proof (cases "mem_sets m v")
    case (Some s)
    let ?v = "vals @ [(v, s)]"
    have "snd (?v ! i) = (map snd vals @ [s]) ! i" using Cons.prems nth_map [of i ?v snd] by simp
    moreover have "(if card s < card ((map snd vals @ [s]) ! i) then length vals else i) \<le> length ?v"
      using Cons.prems by simp
    ultimately show ?thesis using Some by (simp add: Cons.IH Let_def domIff split: option.split)
  qed (simp add: domIff)
qed simp


lemma map_live_set:
  assumes "\<not> (\<exists>v \<in> set names. mem_sets m v = None)"
  shows "map (\<lambda>k. live_set m k) names = map (\<lambda>v. the (mem_sets m v)) names"
  using assms by (auto simp: live_set_def)

lemma run_sinter: "run (micro_sinter names) m = (Set_reply (map_res (map_option Fresh) (mem_sinter names m)), m)"
proof (cases "sinter_collect (mem_sets m) names [] 0")
  case None
  then show ?thesis by (simp add: micro_sinter_def run_sinter_collect mem_sinter_def)
next
  case (Some c)
  then obtain vals i where c: "sinter_collect (mem_sets m) names [] 0 = Some (vals, i)" by fastforce
  then have "\<not> (\<exists>v \<in> set names. mem_sets m v = None)" using sinter_collect_None [of "mem_sets m" names "[]" 0] by simp
  note live = map_live_set [OF this]
  have "vals = map (\<lambda>k. live_set m k) names" using sinter_collect_Some [OF c] unfolding live by simp
  then show ?thesis using c by (simp add: micro_sinter_def run_sinter_collect mem_sinter_def comp_def)
qed

lemmas micro_defs =
  micro_counters_def micro_counter_by_def micro_incr_by_def micro_decr_by_def micro_del_counter_def micro_del_def
  micro_exists_def micro_get_def micro_set_def micro_setnx_def micro_keys_def micro_insert_def micro_sadd_def
  micro_srem_def micro_scard_def micro_smembers_def micro_sdiff_def micro_sismember_def micro_sunion_def

text \<open>Alone, every method does what its function of \<open>Memory\<close> says.\<close>

lemma run_change:
  assumes "range_ok L" and "mem_ok m"
  shows "run (micro_change L op) m = (change_reply L op m, mem_exec L op m)"
proof (cases op)
  case (FlushCounters now)
  then show ?thesis using run_flush [OF assms(1)] assms(2) by (simp add: mem_ok_def)
qed (auto simp: micro_defs mem_defs Let_def domIff split: option.split)

lemma run_micro_call:
  assumes "range_ok L" and "mem_ok m"
  shows "run (micro_call L c) m = (call_reply L c m, call_mem L c m)"
proof (cases c)
  case (Change op)
  then show ?thesis using run_change [OF assms] by simp
qed (auto simp: micro_defs mem_defs run_sunion_loop run_sinter domIff split: option.split)

section \<open>Critical sections\<close>

text \<open>
  \<open>same_at x\<close>: the stores agree on what an access to \<open>x\<close> reads; \<open>agree_on l\<close>: they agree on all that \<open>l\<close>
  protects.
\<close>

fun same_at :: "place \<Rightarrow> 'f mem \<Rightarrow> 'f mem \<Rightarrow> bool" where
  "same_at Values m m' \<longleftrightarrow> mem_values m = mem_values m'"
| "same_at Counters m m' \<longleftrightarrow> dom (mem_counters m) = dom (mem_counters m')"
| "same_at (Counter_of k) m m' \<longleftrightarrow> mem_counters m k = mem_counters m' k"
| "same_at Last m m' \<longleftrightarrow> mem_last m = mem_last m'"
| "same_at Max_history m m' \<longleftrightarrow> mem_max_history m = mem_max_history m'"
| "same_at Sets m m' \<longleftrightarrow> dom (mem_sets m) = dom (mem_sets m')"
| "same_at (Set_of k) m m' \<longleftrightarrow> live_set m k = live_set m' k"

definition agree_on :: "lock \<Rightarrow> 'f mem \<Rightarrow> 'f mem \<Rightarrow> bool" where
  "agree_on l m m' \<longleftrightarrow>
     (case l of
        Mem_lock \<Rightarrow> mem_values m = mem_values m' \<and> mem_counters m = mem_counters m' \<and>
          mem_last m = mem_last m' \<and> mem_max_history m = mem_max_history m'
      | Set_lock \<Rightarrow> mem_sets m = mem_sets m')"

lemma agree_on_refl [simp]: "agree_on l m m"
  by (cases l) (simp_all add: agree_on_def)

lemma agree_on_sym: "agree_on l m m' \<Longrightarrow> agree_on l m' m"
  by (cases l) (simp_all add: agree_on_def)

lemma agree_on_trans: "agree_on l m m' \<Longrightarrow> agree_on l m' m'' \<Longrightarrow> agree_on l m m''"
  by (cases l) (simp_all add: agree_on_def)

lemma agree_same_at: "agree_on (lock_of x) m m' \<Longrightarrow> same_at x m m'"
  by (cases x) (simp_all add: agree_on_def live_set_def)

abbreviation store_section :: "lock \<Rightarrow> 'f prog \<Rightarrow> bool" where
  "store_section \<equiv> section_of lock_of same_at agree_on"

text \<open>Each method is one section, between the lock and the unlock of its mutex.\<close>

lemma section_flush_loop: "store_section Mem_lock (micro_flush_loop L d ks p) = store_section Mem_lock p"
proof (induction ks)
  case (Cons k ks)
  then show ?case by (auto simp: Let_def agree_on_def split: option.split lock.split)
qed simp

definition atomic_method :: "'f prog \<Rightarrow> bool" where
  "atomic_method p \<longleftrightarrow> (\<exists>l b. p = Acquire l b \<and> store_section l b)"

lemma atomic_locked: "store_section l (body (\<lambda>r. Release l (Ret r))) \<Longrightarrow> atomic_method (locked l body)"
  by (simp add: atomic_method_def locked_def)

lemma section_sunion_loop:
  "\<forall>r. store_section Set_lock (return r) \<Longrightarrow> store_section Set_lock (micro_sunion_loop names results return)"
  by (induction names arbitrary: results) auto

lemma section_sinter_collect:
  "\<forall>c. store_section Set_lock (next c) \<Longrightarrow> store_section Set_lock (micro_sinter_collect names vals i next)"
  by (induction names arbitrary: vals i) (auto simp: Let_def)

lemma section_fetch_set:
  "\<forall>s. store_section Set_lock (f s) \<Longrightarrow> store_section Set_lock (fetch_set rs f)"
  by (cases rs) auto

lemma change_atomic: "atomic_method (micro_change L op)"
proof (cases op)
  case (FlushCounters now)
  show ?thesis unfolding FlushCounters micro_change.simps micro_flush_counters_def
    by (rule atomic_locked) (auto simp: Let_def section_flush_loop agree_on_def split: lock.split)
qed (auto intro!: atomic_locked simp: micro_defs Let_def agree_on_def live_set_def split: option.split lock.split)

lemma call_atomic: "atomic_method (micro_call L c)"
proof (cases c)
  case (Change op)
  then show ?thesis by (simp add: change_atomic)
next
  case (Sdiff_of rs k)
  then show ?thesis
    by (auto intro!: atomic_locked section_fetch_set simp: micro_defs)
next
  case (Sunion_of ks)
  then show ?thesis
    by (auto intro!: atomic_locked section_sunion_loop simp: micro_defs)
next
  case (Sinter_of ks)
  then show ?thesis
    by (auto intro!: atomic_locked section_sinter_collect simp: micro_sinter_def split: option.split prod.split)
qed (auto intro!: atomic_locked simp: micro_defs mem_keys_def Let_def)

section \<open>The store under its locks\<close>

lemma agree_on_all: "agree_on Mem_lock m m' \<Longrightarrow> agree_on Set_lock m m' \<Longrightarrow> m = (m' :: 'f mem)"
  by (auto simp: agree_on_def intro: mem.equality)

interpretation locks: one_lock_methods lock_of same_at agree_on "micro_call L" "call_reply L" "call_mem L"
    "\<lambda>m. mem_ok m \<and> range_ok L" for L :: "'f golib"
proof
  show "agree_on l m m''" if "agree_on l m m'" "agree_on l m' m''" for l and m m' m'' :: "'f mem"
    using that by (rule agree_on_trans)
  show "m = m'" if "\<And>l. agree_on l m m'" for m m' :: "'f mem"
    using agree_on_all [OF that that] .
  show "\<exists>l b. micro_call L c = Acquire l b \<and> store_section l b" for c
    using call_atomic [of L c] by (simp add: atomic_method_def)
  show "run (micro_call L c) m = (call_reply L c m, call_mem L c m)" if "mem_ok m \<and> range_ok L" for m c
    using that run_micro_call by blast
qed (simp_all add: agree_on_sym agree_same_at call_mem_ok)

section \<open>Properties\<close>

text \<open>
C4. The locking of the store is right: however the accesses of concurrent goroutines that call its
methods interleave, no two goroutines race, none waits for ever, and when all have returned, the store
and the replies are those of some order of the whole calls, each done at once.
\<close>

theorem store_linearizable:
  assumes "micro_step\<^sup>*\<^sup>* (start_threads m (\<lambda>i. map (micro_call L) (cs i))) y" and "mem_ok m" and "range_ok L"
  shows "\<not> data_race y \<and> ((\<nexists>z. micro_step y z) \<longrightarrow> all_returned y) \<and>
    (all_returned y \<longrightarrow> (\<exists>v. (call_step (call_reply L) (call_mem L))\<^sup>*\<^sup>* (start_callers m cs) v \<and>
       (\<forall>i. ca_todo v i = []) \<and> th_mem y = ca_mem v \<and> th_replies y = ca_replies v))"
  using locks.linearizable [OF assms(1)] assms(2,3) by blast

text \<open>Two goroutines change a key at the same time; the second waits for the lock.\<close>

definition two_callers :: "nat \<Rightarrow> store_call list" where
  "two_callers i = (if i = 0 then [Change (IncrBy ''k'' 5)] else if i = 1 then [Change (DecrBy ''k'' 2)] else [])"

lemma two_callers_run:
  "\<exists>y. micro_step\<^sup>*\<^sup>* (start_threads (new_memory_backend 0) (\<lambda>i. map (micro_call plain_lib) (two_callers i))) y \<and>
     all_returned y \<and> th_replies y 1 = [Int_reply (Ok 3)]"
proof -
  have "\<exists>y. advances [0, 1, 0, 0, 0, 0, 1, 0, 1, 1, 1, 1]
      (start_threads (new_memory_backend 0) (\<lambda>i. map (micro_call plain_lib) (two_callers i))) = Some y \<and>
    all_returned y \<and> th_replies y 1 = [Int_reply (Ok 3)]"
    by (simp add: two_callers_def advance_def start_threads_def micro_incr_by_def micro_decr_by_def locked_def
        new_memory_backend_def all_returned_def)
  then show ?thesis using advances_run by blast
qed

theorem store_linearizable_witness:
  "\<exists>y (v :: (int64 mem, store_call, store_reply) callers). micro_step\<^sup>*\<^sup>* (start_threads (new_memory_backend 0) (\<lambda>i. map (micro_call plain_lib) (two_callers i))) y \<and>
     \<not> data_race y \<and> (call_step (call_reply plain_lib) (call_mem plain_lib))\<^sup>*\<^sup>* (start_callers (new_memory_backend 0) two_callers) v \<and>
     th_mem y = ca_mem v \<and> ca_replies v 1 = [Int_reply (Ok 3)]"
proof -
  obtain y :: "(int64 mem, place, lock, store_reply) threads" where y: "micro_step\<^sup>*\<^sup>* (start_threads (new_memory_backend 0) (\<lambda>i. map (micro_call plain_lib) (two_callers i))) y"
    "all_returned y" "th_replies y 1 = [Int_reply (Ok 3)]"
    using two_callers_run by blast
  from store_linearizable [OF y(1) mem_ok_new plain_lib_range_ok] y(2)
  obtain v :: "(int64 mem, store_call, store_reply) callers" where "\<not> data_race y" "(call_step (call_reply plain_lib) (call_mem plain_lib))\<^sup>*\<^sup>* (start_callers (new_memory_backend 0) two_callers) v"
    "th_mem y = ca_mem v" "th_replies y = ca_replies v" by blast
  moreover from this(4) y(3) have "ca_replies v 1 = [Int_reply (Ok 3)]" by simp
  ultimately show ?thesis using y(1) by blast
qed

text \<open>
Every call of the store returns: finitely many goroutines, with any calls, cannot keep each other running
or waiting for ever.  No interleaving of their accesses is endless, and from every state that they can
reach all of them can return.
\<close>

theorem store_calls_return:
  assumes "finite I" and "\<forall>i. i \<notin> I \<longrightarrow> cs i = []" and "mem_ok m" and "range_ok L"
  shows "(\<nexists>s. s 0 = start_threads m (\<lambda>i. map (micro_call L) (cs i)) \<and> (\<forall>n. micro_step (s n) (s (Suc n)))) \<and>
    (\<forall>y. micro_step\<^sup>*\<^sup>* (start_threads m (\<lambda>i. map (micro_call L) (cs i))) y \<longrightarrow>
      (\<exists>z. micro_step\<^sup>*\<^sup>* y z \<and> all_returned z))"
  by (rule locks.calls_return [OF assms(1,2)]) (use assms(3,4) in blast)

theorem store_calls_return_witness:
  "\<exists>z. micro_step\<^sup>*\<^sup>* (start_threads (new_memory_backend 0) (\<lambda>i. map (micro_call plain_lib) (two_callers i))) z \<and> all_returned z"
proof -
  have "finite {0, 1 :: nat}" "\<forall>i. i \<notin> {0, 1} \<longrightarrow> two_callers i = []" by (simp_all add: two_callers_def)
  from store_calls_return [OF this mem_ok_new plain_lib_range_ok] show ?thesis by blast
qed

section \<open>No lost updates\<close>

fun call_delta :: "bytes \<Rightarrow> store_call \<Rightarrow> int64" where
  "call_delta k (Change op) = delta k op"
| "call_delta k _ = 0"

definition keeps_value :: "bytes \<Rightarrow> store_call list \<Rightarrow> bool" where
  "keeps_value k cs \<longleftrightarrow> (\<forall>op. Change op \<in> set cs \<longrightarrow> keeps_key k op)"

definition still_to_add :: "bytes \<Rightarrow> nat set \<Rightarrow> (nat \<Rightarrow> store_call list) \<Rightarrow> int64" where
  "still_to_add k I cs = (\<Sum>i\<in>I. sum_list (map (call_delta k) (cs i)))"

lemma value_of_call: "keeps_value k (c # cs) \<Longrightarrow> value_of (call_mem L c m) k = value_of m k + call_delta k c"
  by (cases c) (simp_all add: keeps_value_def value_of_exec)

lemma still_to_add_step:
  assumes "finite I" and "i \<in> I" and "cs i = c # rest"
  shows "still_to_add k I cs = call_delta k c + still_to_add k I (cs(i := rest))"
proof -
  have "(\<Sum>j\<in>I - {i}. sum_list (map (call_delta k) ((cs(i := rest)) j))) = (\<Sum>j\<in>I - {i}. sum_list (map (call_delta k) (cs j)))"
    by (rule sum.cong) auto
  then show ?thesis
    using assms by (simp add: still_to_add_def sum.remove [of I i] add.assoc del: fun_upd_apply) (simp add: fun_upd_same)
qed

lemma call_step_sum:
  assumes "call_step (call_reply L) (call_mem L) v v'" and "finite I" and "\<forall>i. keeps_value k (ca_todo v i)" and "\<forall>i. i \<notin> I \<longrightarrow> ca_todo v i = []"
  shows "value_of (ca_mem v') k + still_to_add k I (ca_todo v') = value_of (ca_mem v) k + still_to_add k I (ca_todo v) \<and>
    (\<forall>i. keeps_value k (ca_todo v' i)) \<and> (\<forall>i. i \<notin> I \<longrightarrow> ca_todo v' i = [])"
  using assms(1)
proof cases
  case (call i c cs)
  have i: "i \<in> I" "keeps_value k (c # cs)"
    using assms(4) spec [OF assms(3), of i] call(2) by auto
  then have "keeps_value k cs" by (simp add: keeps_value_def)
  with call i assms(2-4) value_of_call [OF i(2)] still_to_add_step [OF assms(2) i(1), of "ca_todo v", OF call(2)]
  show ?thesis by (simp add: algebra_simps)
qed

lemma call_run_sum:
  assumes "(call_step (call_reply L) (call_mem L))\<^sup>*\<^sup>* v v'" and "finite I" and "\<forall>i. keeps_value k (ca_todo v i)" and "\<forall>i. i \<notin> I \<longrightarrow> ca_todo v i = []"
  shows "value_of (ca_mem v') k + still_to_add k I (ca_todo v') = value_of (ca_mem v) k + still_to_add k I (ca_todo v) \<and>
    (\<forall>i. keeps_value k (ca_todo v' i)) \<and> (\<forall>i. i \<notin> I \<longrightarrow> ca_todo v' i = [])"
  using assms(1)
proof (induction rule: rtranclp_induct)
  case (step y z)
  then show ?case using call_step_sum [OF step.hyps(2) assms(2), of k] by simp
qed (use assms in simp)

text \<open>
C13. No update is lost: let finitely many goroutines call any methods of the store, their accesses
interleaved in any way.  Once all have returned, the value of a key is its initial value plus the sum
of all increments minus all decrements (modulo 2^64), provided nobody sets or deletes that key.
\<close>

theorem no_lost_updates:
  assumes "micro_step\<^sup>*\<^sup>* (start_threads m (\<lambda>i. map (micro_call L) (cs i))) y" and "all_returned y"
    and "mem_ok m" and "range_ok L" and "finite I" and "\<forall>i. i \<notin> I \<longrightarrow> cs i = []" and "\<forall>i. keeps_value k (cs i)"
  shows "value_of (th_mem y) k = value_of m k + (\<Sum>i\<in>I. sum_list (map (call_delta k) (cs i)))"
proof -
  obtain v where v: "(call_step (call_reply L) (call_mem L))\<^sup>*\<^sup>* (start_callers m cs) v" "\<forall>i. ca_todo v i = []" "th_mem y = ca_mem v"
    using locks.linearizable [OF assms(1)] assms(2-4) by blast
  with call_run_sum [OF v(1) assms(5), of k] assms(6,7) show ?thesis
    by (simp add: start_callers_def still_to_add_def)
qed

theorem no_lost_updates_witness:
  "\<exists>y. micro_step\<^sup>*\<^sup>* (start_threads (new_memory_backend 0) (\<lambda>i. map (micro_call plain_lib) (two_callers i))) y \<and>
     value_of (th_mem y) ''k'' = 3"
proof -
  obtain y :: "(int64 mem, place, lock, store_reply) threads" where y: "micro_step\<^sup>*\<^sup>* (start_threads (new_memory_backend 0) (\<lambda>i. map (micro_call plain_lib) (two_callers i))) y"
    "all_returned y"
    using two_callers_run by blast
  have "\<forall>i. i \<notin> {0, 1} \<longrightarrow> two_callers i = []" "\<forall>i. keeps_value ''k'' (two_callers i)"
    by (simp_all add: two_callers_def keeps_value_def)
  from no_lost_updates [OF y mem_ok_new plain_lib_range_ok _ this]
  have "value_of (th_mem y) ''k'' = 3" by (simp add: two_callers_def value_of_def new_memory_backend_def)
  with y(1) show ?thesis by blast
qed

end
