(* ===== verification/StoreSpec.thy ===== *)
theory StoreSpec
  imports Stats
begin

text \<open>
  What the stats backend promises, without wire format, handlers or locks: an abstract store of numbers,
  counters and sets, the requests a client can make of it and the answers it gets.  The handlers of
  \<open>Stats\<close> are shown to implement it: on the arguments of a request, a handler changes the store the
  way the specification says and sends the encoding of the specified answer.
\<close>

section \<open>The abstract store\<close>

record store =
  numbers :: "bytes \<rightharpoonup> int64"
  tallies :: "bytes \<rightharpoonup> int64"         \<comment> \<open>counters, by what they have counted since the last flush\<close>
  groups :: "bytes \<rightharpoonup> bytes set"

definition members :: "store \<Rightarrow> bytes \<Rightarrow> bytes set" where
  "members s k = (case groups s k of Some g \<Rightarrow> g | None \<Rightarrow> {})"

datatype request =
    Set_number bytes int64 | Set_new bytes int64 | Get_number bytes | Exists_number bytes
  | Delete "bytes list" | Add_to bytes int64 | Subtract_from bytes int64 | Tally bytes int64
  | Add_members bytes "bytes list" | Remove_members bytes "bytes list" | Cardinals "bytes list"
  | Members bytes | Has_members bytes "bytes list"
  | Difference bytes "bytes list" | Intersection "bytes list" | Union_of "bytes list"

datatype answer =
    No_answer | Number int64 | Missing | Numbers "int64 list" | Strings "bytes set"

text \<open>The number of elements of a set, as the 64-bit integer that a reply carries.\<close>

definition count64 :: "'a set \<Rightarrow> int64" where
  "count64 A = word_of_int (int (card A))"

text \<open>One key gives a plain number, several give a list.\<close>

fun number_or_list :: "int64 list \<Rightarrow> answer" where
  "number_or_list [n] = Number n"
| "number_or_list ns = Numbers ns"

fun new_store :: "request \<Rightarrow> store \<Rightarrow> store" where
  "new_store (Set_number k n) s = s\<lparr>numbers := (numbers s)(k \<mapsto> n)\<rparr>"
| "new_store (Set_new k n) s =
     (case numbers s k of None \<Rightarrow> s\<lparr>numbers := (numbers s)(k \<mapsto> n)\<rparr> | Some _ \<Rightarrow> s)"
| "new_store (Delete ks) s =
     s\<lparr>numbers := numbers s |` (- set ks), tallies := tallies s |` (- set ks)\<rparr>"
| "new_store (Add_to k n) s =
     s\<lparr>numbers := (numbers s)(k \<mapsto> (case numbers s k of None \<Rightarrow> 0 | Some v \<Rightarrow> v) + n)\<rparr>"
| "new_store (Subtract_from k n) s =
     s\<lparr>numbers := (numbers s)(k \<mapsto> (case numbers s k of None \<Rightarrow> 0 | Some v \<Rightarrow> v) - n)\<rparr>"
| "new_store (Tally k n) s =
     s\<lparr>tallies := (tallies s)(k \<mapsto> (case tallies s k of None \<Rightarrow> 0 | Some v \<Rightarrow> v) + n)\<rparr>"
| "new_store (Add_members k xs) s = s\<lparr>groups := (groups s)(k \<mapsto> members s k \<union> set xs)\<rparr>"
| "new_store (Remove_members k xs) s =
     (case groups s k of None \<Rightarrow> s | Some g \<Rightarrow> s\<lparr>groups := (groups s)(k \<mapsto> g - set xs)\<rparr>)"
| "new_store _ s = s"

fun answer_of :: "request \<Rightarrow> store \<Rightarrow> answer" where
  "answer_of (Set_number k n) s = Number 1"
| "answer_of (Set_new k n) s = Number (if numbers s k = None then 1 else - 1)"
| "answer_of (Get_number k) s = (case numbers s k of None \<Rightarrow> Missing | Some n \<Rightarrow> Number n)"
| "answer_of (Exists_number k) s = Number (if numbers s k = None then 0 else 1)"
| "answer_of (Delete ks) s =
     Number (count64 (set ks \<inter> dom (numbers s)) + count64 (set ks \<inter> dom (tallies s)))"
| "answer_of (Add_to k n) s = Number ((case numbers s k of None \<Rightarrow> 0 | Some v \<Rightarrow> v) + n)"
| "answer_of (Subtract_from k n) s = Number (case numbers s k of None \<Rightarrow> n | Some v \<Rightarrow> v - n)"
| "answer_of (Tally k n) s = No_answer"
| "answer_of (Add_members k xs) s = Number (count64 (set xs - members s k))"
| "answer_of (Remove_members k xs) s =
     Number (case groups s k of None \<Rightarrow> - 1 | Some g \<Rightarrow> count64 (set xs \<inter> g))"
| "answer_of (Cardinals ks) s = number_or_list (map (\<lambda>k. count64 (members s k)) ks)"
| "answer_of (Members k) s = (case groups s k of None \<Rightarrow> Missing | Some g \<Rightarrow> Strings g)"
| "answer_of (Has_members k xs) s =
     number_or_list (map (\<lambda>x. if x \<in> members s k then 1 else 0) xs)"
| "answer_of (Difference k ks) s =
     (case groups s k of None \<Rightarrow> Missing | Some g \<Rightarrow> Strings (g - (\<Union>j \<in> set ks. members s j)))"
| "answer_of (Intersection ks) s =
     (if \<exists>k \<in> set ks. groups s k = None then Missing else Strings (\<Inter>k \<in> set ks. members s k))"
| "answer_of (Union_of ks) s = Strings (\<Union>k \<in> set ks. members s k)"

text \<open>The arguments that a request must have for the backend to accept it.\<close>

fun request_ok :: "request \<Rightarrow> bool" where
  "request_ok (Delete ks) \<longleftrightarrow> ks \<noteq> []"
| "request_ok (Add_members k xs) \<longleftrightarrow> xs \<noteq> []"
| "request_ok (Remove_members k xs) \<longleftrightarrow> xs \<noteq> []"
| "request_ok (Cardinals ks) \<longleftrightarrow> ks \<noteq> []"
| "request_ok (Has_members k xs) \<longleftrightarrow> xs \<noteq> []"
| "request_ok (Difference k ks) \<longleftrightarrow> ks \<noteq> []"
| "request_ok (Intersection ks) \<longleftrightarrow> 2 \<le> length ks"
| "request_ok (Union_of ks) \<longleftrightarrow> 2 \<le> length ks"
| "request_ok _ \<longleftrightarrow> True"

text \<open>The answers to a list of requests, and the store after them.\<close>

fun answers :: "request list \<Rightarrow> store \<Rightarrow> answer list" where
  "answers [] s = []"
| "answers (q # qs) s = answer_of q s # answers qs (new_store q s)"

definition final_store :: "request list \<Rightarrow> store \<Rightarrow> store" where
  "final_store qs s = foldl (\<lambda>s q. new_store q s) s qs"

lemma final_store_simps [simp]:
  "final_store [] s = s" "final_store (q # qs) s = final_store qs (new_store q s)"
  by (simp_all add: final_store_def)

definition empty_store :: store where
  "empty_store = \<lparr>numbers = Map.empty, tallies = Map.empty, groups = Map.empty\<rparr>"


section \<open>Requests and answers on the wire\<close>

fun method_of :: "request \<Rightarrow> stats_method" where
  "method_of (Set_number _ _) = MSet"
| "method_of (Set_new _ _) = MSetNx"
| "method_of (Get_number _) = MGet"
| "method_of (Exists_number _) = MExists"
| "method_of (Delete _) = MDel"
| "method_of (Add_to _ _) = MIncr"
| "method_of (Subtract_from _ _) = MDecr"
| "method_of (Tally _ _) = MCount"
| "method_of (Add_members _ _) = MSAdd"
| "method_of (Remove_members _ _) = MSRem"
| "method_of (Cardinals _) = MSCard"
| "method_of (Members _) = MSMembers"
| "method_of (Has_members _ _) = MSIsMember"
| "method_of (Difference _ _) = MSDiff"
| "method_of (Intersection _) = MSInter"
| "method_of (Union_of _) = MSUnion"

fun request_args :: "request \<Rightarrow> bytes list" where
  "request_args (Set_number k n) = [k, append_int n]"
| "request_args (Set_new k n) = [k, append_int n]"
| "request_args (Get_number k) = [k]"
| "request_args (Exists_number k) = [k]"
| "request_args (Delete ks) = ks"
| "request_args (Add_to k n) = [k, append_int n]"
| "request_args (Subtract_from k n) = [k, append_int n]"
| "request_args (Tally k n) = [k, append_int n]"
| "request_args (Add_members k xs) = k # xs"
| "request_args (Remove_members k xs) = k # xs"
| "request_args (Cardinals ks) = ks"
| "request_args (Members k) = [k]"
| "request_args (Has_members k xs) = k # xs"
| "request_args (Difference k ks) = k # ks"
| "request_args (Intersection ks) = ks"
| "request_args (Union_of ks) = ks"

definition enc_ints :: "int64 list \<Rightarrow> bytes" where
  "enc_ints ns = enc_line CHR ''*'' (append_int (go_len ns)) @ concat (map enc_int ns)"

fun enc_answer :: "'f golib \<Rightarrow> answer \<Rightarrow> bytes" where
  "enc_answer L No_answer = []"
| "enc_answer L (Number n) = enc_int n"
| "enc_answer L Missing = enc_nil"
| "enc_answer L (Numbers ns) = enc_ints ns"
| "enc_answer L (Strings A) = enc_strings (gl_range L A)"

text \<open>What a client reads for an answer, and which answers it can read.\<close>

fun answer_value :: "'f golib \<Rightarrow> answer \<Rightarrow> 'f gval" where
  "answer_value L No_answer = VNil"
| "answer_value L (Number n) = VInt64 n"
| "answer_value L Missing = VNil"
| "answer_value L (Numbers ns) = VArray (map VInt64 ns)"
| "answer_value L (Strings A) = VArray (map VString (gl_range L A))"

definition plain_text :: "bytes \<Rightarrow> bool" where
  "plain_text x \<longleftrightarrow> x \<noteq> [] \<and> LF \<notin> set x \<and> length x \<le> 125"

fun readable :: "answer \<Rightarrow> bool" where
  "readable No_answer \<longleftrightarrow> False"
| "readable (Numbers ns) \<longleftrightarrow> length ns * 16 \<le> 2 ^ 48"
| "readable (Strings A) \<longleftrightarrow> finite A \<and> (\<forall>x \<in> A. plain_text x) \<and> card A * 16 \<le> 2 ^ 48"
| "readable _ \<longleftrightarrow> True"

lemma answer_decodes:
  assumes "range_ok L" and "float_ok L" and "readable a"
  shows "decodes 128 (read_interface L) (enc_answer L a) (answer_value L a)"
proof (cases a)
  case (Numbers ns)
  have "enc_ints ns = enc_array L (map VInt64 ns)"
    by (simp add: enc_ints_def enc_array_def enc_int_def [abs_def] go_len_def comp_def)
  with array_decodes [OF assms(2), of 128 "map VInt64 ns"] assms(3) Numbers show ?thesis
    by (simp add: comp_def)
next
  case (Strings A)
  have "enc_strings (gl_range L A) = enc_array L (map VString (gl_range L A))"
    by (simp add: enc_strings_def enc_array_def go_len_def comp_def)
  with array_decodes [OF assms(2), of 128 "map VString (gl_range L A)"] assms(3) Strings
    range_okD [OF assms(1), of A] show ?thesis
    by (auto simp: comp_def plain_text_def)
next
  case Missing
  then show ?thesis using value_decodes [OF assms(2), of 128 VNil] by (simp add: enc_nil_def)
qed (use assms(3) int_decodes in auto)


section \<open>The abstraction\<close>

definition abs_store :: "'f mem \<Rightarrow> store" where
  "abs_store m =
     \<lparr>numbers = mem_values m, tallies = (\<lambda>k. map_option ctr_value (mem_counters m k)), groups = mem_sets m\<rparr>"

lemma abs_store_sel [simp]:
  "numbers (abs_store m) = mem_values m" "groups (abs_store m) = mem_sets m"
  "tallies (abs_store m) k = map_option ctr_value (mem_counters m k)"
  "members (abs_store m) k = members_of m k"
  by (simp_all add: abs_store_def members_def members_of_def)

lemma abs_store_new: "abs_store (new_memory_backend now) = empty_store"
  by (simp add: abs_store_def new_memory_backend_def empty_store_def)

text \<open>The operations of the store that the handlers call in loops.\<close>

lemma count64_insert:
  "finite A \<Longrightarrow> count64 (insert x A) = count64 A + (if x \<in> A then 0 else 1)"
  by (auto simp: count64_def insert_absorb)

lemma mem_del_effect:
  "mem_del k m = (Ok ((if k \<in> dom (mem_values m) then 1 else 0) + (if k \<in> dom (mem_counters m) then 1 else 0)),
     m\<lparr>mem_values := (mem_values m)(k := None), mem_counters := (mem_counters m)(k := None)\<rparr>)"
  by (cases m) (auto simp: mem_del_def fun_upd_idem split: option.splits)

lemma split_first:
  "count64 (set (k # ks) \<inter> A) = (if k \<in> A then 1 else 0) + count64 (set ks \<inter> (A - {k}))"
proof -
  have "set (k # ks) \<inter> A = (if k \<in> A then insert k (set ks \<inter> (A - {k})) else set ks \<inter> (A - {k}))" by auto
  then show ?thesis by (simp add: count64_insert)
qed

lemma del_loop_effect:
  "fst (del_loop ks i m) = Ok (i + count64 (set ks \<inter> dom (mem_values m)) + count64 (set ks \<inter> dom (mem_counters m))) \<and>
   abs_store (snd (del_loop ks i m)) = new_store (Delete ks) (abs_store m)"
proof (induction ks arbitrary: i m)
  case (Cons k ks)
  let ?m = "m\<lparr>mem_values := (mem_values m)(k := None), mem_counters := (mem_counters m)(k := None)\<rparr>"
  have "del_loop (k # ks) i m = del_loop ks (i + ((if k \<in> dom (mem_values m) then 1 else 0) +
      (if k \<in> dom (mem_counters m) then 1 else 0))) ?m"
    by (simp add: stats_read_string_def mem_del_effect)
  moreover have "new_store (Delete ks) (abs_store ?m) = new_store (Delete (k # ks)) (abs_store m)"
    by (auto simp: abs_store_def restrict_map_def fun_eq_iff)
  moreover have "dom (mem_values ?m) = dom (mem_values m) - {k}" "dom (mem_counters ?m) = dom (mem_counters m) - {k}"
    by auto
  ultimately show ?case
    using Cons.IH [of _ ?m] by (simp only: split_first) (simp only: res.inject simp_thms ac_simps)
qed (simp add: count64_def abs_store_def restrict_map_def)

lemma mem_sadd_effect:
  "mem_sadd k v m = (Ok (if v \<in> members_of m k then 0 else 1),
     m\<lparr>mem_sets := (mem_sets m)(k \<mapsto> insert v (members_of m k))\<rparr>)"
  by (cases m) (auto simp: mem_sadd_def members_of_def fun_upd_idem insert_absorb split: option.splits)

lemma sadd_loop_effect:
  "finite (members_of m k) \<Longrightarrow>
   sadd_loop k (v # vs) i m = (Ok (i + count64 (set (v # vs) - members_of m k)),
     m\<lparr>mem_sets := (mem_sets m)(k \<mapsto> members_of m k \<union> set (v # vs))\<rparr>)"
proof (induction vs arbitrary: v i m)
  case Nil
  then show ?case by (simp add: mem_sadd_effect count64_def insert_Diff_if fun_upd_def)
next
  case (Cons u us)
  let ?m = "m\<lparr>mem_sets := (mem_sets m)(k \<mapsto> insert v (members_of m k))\<rparr>"
  have mem: "members_of ?m k = insert v (members_of m k)" by (simp add: members_of_def)
  have "set (v # u # us) - members_of m k =
      (if v \<in> members_of m k then set (u # us) - members_of ?m k else insert v (set (u # us) - members_of ?m k))"
    unfolding mem by auto
  then have n: "count64 (set (v # u # us) - members_of m k) =
      (if v \<in> members_of m k then 0 else 1) + count64 (set (u # us) - members_of ?m k)"
    by (simp add: count64_insert mem)
  have "sadd_loop k (v # u # us) i m = sadd_loop k (u # us) (i + (if v \<in> members_of m k then 0 else 1)) ?m"
    by (simp only: sadd_loop.simps mem_sadd_effect prod.case res.case)
  also have "\<dots> = (Ok (i + (if v \<in> members_of m k then 0 else 1) + count64 (set (u # us) - members_of ?m k)),
      ?m\<lparr>mem_sets := (mem_sets ?m)(k \<mapsto> members_of ?m k \<union> set (u # us))\<rparr>)"
    by (rule Cons.IH) (use Cons.prems mem in simp)
  finally show ?case unfolding n mem
    by (simp add: add.assoc insert_commute del: fun_upd_apply sadd_loop.simps)
qed

lemma mem_srem_effect:
  "mem_sets m k = Some g \<Longrightarrow>
   mem_srem k v m = (Ok (if v \<in> g then 1 else 0), m\<lparr>mem_sets := (mem_sets m)(k \<mapsto> g - {v})\<rparr>)"
  by (cases m) (auto simp: mem_srem_def fun_upd_idem)

lemma srem_loop_effect:
  "mem_sets m k = Some g \<Longrightarrow>
   srem_loop k vs i m = (Ok (i + count64 (set vs \<inter> g)), m\<lparr>mem_sets := (mem_sets m)(k \<mapsto> g - set vs)\<rparr>)"
proof (induction vs arbitrary: i m g)
  case Nil
  then show ?case by (cases m) (simp add: count64_def fun_upd_idem)
next
  case (Cons v vs)
  let ?m = "m\<lparr>mem_sets := (mem_sets m)(k \<mapsto> g - {v})\<rparr>"
  have "mem_sets ?m k = Some (g - {v})" by simp
  note IH = Cons.IH [OF this, of "i + (if v \<in> g then 1 else 0)"]
  have ne: "(if v \<in> g then 1 else 0) \<noteq> (- 1 :: int64)" by simp
  have s: "g - {v} - set vs = g - set (v # vs)" by auto
  have "srem_loop k (v # vs) i m = srem_loop k vs (i + (if v \<in> g then 1 else 0)) ?m"
    by (simp only: srem_loop.simps mem_srem_effect [OF Cons.prems] prod.case res.case ne if_False)
  also note IH
  finally show ?case
    by (simp only: s split_first [of v vs g] add.assoc) (simp del: fun_upd_apply srem_loop.simps)
qed

lemma collect_ints_map: "collect_ints (\<lambda>v. Ok (f v)) vs = Ok (map f vs)"
  by (induction vs) simp_all


section \<open>The handlers implement the specification\<close>

text \<open>
  \<open>serves L w a m' out\<close>: a handler that was given the writer \<open>w\<close> has returned nil, left the store \<open>m'\<close>
  and sent exactly the answer \<open>a\<close>.
\<close>

definition serves :: "'f golib \<Rightarrow> bufwriter \<Rightarrow> answer \<Rightarrow> 'f mem \<Rightarrow> unit res \<times> 'f stats_state \<Rightarrow> bool" where
  "serves L w a m' out \<longleftrightarrow>
     (\<exists>w'. out = (Ok (), m', w') \<and> (if a = No_answer then w' = w else replied w (enc_answer L a) w'))"

lemma serves_basic:
  assumes "bw_ok w"
  shows "serves L w (Number n) m (flush_int (Ok n) (m, w))" "serves L w Missing m (flush_nil (m, w))"
    "serves L w (Strings A) m (flush_strings (gl_range L A) (m, w))"
    "serves L w No_answer m (nil_reply (Ok n, m) w)"
  using flush_int_replied [OF assms, of n m] flush_nil_replied [OF assms, of m]
    flush_strings_replied [OF assms, of "gl_range L A" m]
  by (auto simp: serves_def nil_reply_def)

lemma serves_ints:
  assumes "bw_ok w" and "ns \<noteq> []"
  shows "serves L w (number_or_list ns) m (flush_ints ns (m, w))"
proof (cases "length ns > 1")
  case True
  then have a: "number_or_list ns = Numbers ns" by (cases ns rule: number_or_list.cases) simp_all
  have "emits (seqw (write_len CHR ''*'' (go_len ns)) (each_w write_int64 ns)) (enc_ints ns)"
    unfolding enc_ints_def by (intro emits_seqw emits_write_len emits_each_w) (simp add: enc_int_def emits_client_int64)
  from replied_flush [OF this assms(1)] True show ?thesis by (simp add: serves_def a flush_ints_def)
next
  case False
  with assms(2) obtain n where "ns = [n]" by (cases ns rule: number_or_list.cases) auto
  with serves_basic(1) [OF assms(1), of L n m] show ?thesis by (simp add: flush_ints_def flush_int_def)
qed

text \<open>\<open>implements L w q m out\<close>: as the handler of \<open>q\<close>, it also leaves the store that \<open>q\<close> demands.\<close>

definition implements :: "'f golib \<Rightarrow> bufwriter \<Rightarrow> request \<Rightarrow> 'f mem \<Rightarrow> unit res \<times> 'f stats_state \<Rightarrow> bool" where
  "implements L w q m out \<longleftrightarrow>
     serves L w (answer_of q (abs_store m)) (fst (snd out)) out \<and>
     abs_store (fst (snd out)) = new_store q (abs_store m)"

lemmas read_args [simp] = stats_read_string_def stats_read_int64_def read_string_int64_def parse_int_append_int

lemma serves_values:
  assumes "bw_ok w"
  shows "implements L w (Set_number k n) m (stats_set L (ABulk [k, append_int n]) (m, w))"
    "implements L w (Set_new k n) m (stats_setnx L (ABulk [k, append_int n]) (m, w))"
    "implements L w (Get_number k) m (stats_get L (ABulk [k]) (m, w))"
    "implements L w (Exists_number k) m (stats_exists L (ABulk [k]) (m, w))"
  using assms
  by (simp_all add: implements_def serves_basic stats_set_def stats_setnx_def stats_get_def stats_exists_def mem_set_def
      mem_setnx_def mem_get_def mem_exists_def abs_store_def split: option.split)

lemma serves_counts:
  assumes "bw_ok w"
  shows "implements L w (Add_to k n) m (stats_incr L (ABulk [k, append_int n]) (m, w))"
    "implements L w (Subtract_from k n) m (stats_decr L (ABulk [k, append_int n]) (m, w))"
    "implements L w (Tally k n) m (stats_count L (ABulk [k, append_int n]) (m, w))"
    "ks \<noteq> [] \<Longrightarrow> implements L w (Delete ks) m (stats_del L (ABulk ks) (m, w))"
proof -
  show "implements L w (Add_to k n) m (stats_incr L (ABulk [k, append_int n]) (m, w))"
    "implements L w (Subtract_from k n) m (stats_decr L (ABulk [k, append_int n]) (m, w))"
    using assms by (simp_all add: implements_def serves_basic stats_incr_def stats_decr_def mem_incr_by_def mem_decr_by_def
        abs_store_def split: option.split)
  show "implements L w (Tally k n) m (stats_count L (ABulk [k, append_int n]) (m, w))"
    using assms by (auto simp: implements_def serves_basic stats_count_def mem_counter_by_def abs_store_def Let_def fun_eq_iff
        split: option.split)
  assume ks: "ks \<noteq> []"
  obtain i m' where d: "del_loop ks 0 m = (i, m')" by fastforce
  have "dom (tallies (abs_store m)) = dom (mem_counters m)" by (auto simp: dom_def)
  with del_loop_effect [of ks 0 m] d
  have "i = Ok (count64 (set ks \<inter> dom (numbers (abs_store m))) + count64 (set ks \<inter> dom (tallies (abs_store m))))"
    "abs_store m' = new_store (Delete ks) (abs_store m)" by simp_all
  with assms d ks show "implements L w (Delete ks) m (stats_del L (ABulk ks) (m, w))"
    by (simp add: implements_def serves_basic stats_del_def del: new_store.simps)
qed


lemma serves_members:
  assumes "bw_ok w" and "mem_ok m" and "xs \<noteq> []"
  shows "implements L w (Add_members k xs) m (stats_sadd L (ABulk (k # xs)) (m, w))"
    "implements L w (Remove_members k xs) m (stats_srem L (ABulk (k # xs)) (m, w))"
    "implements L w (Has_members k xs) m (stats_sismember L (ABulk (k # xs)) (m, w))"
proof -
  have len: "\<not> length (k # xs) < 2" using assms(3) by (cases xs) simp_all
  from assms(3) obtain v vs where xs: "xs = v # vs" by (cases xs) auto
  have "abs_store (m\<lparr>mem_sets := (mem_sets m)(k \<mapsto> members_of m k \<union> set xs)\<rparr>) = new_store (Add_members k xs) (abs_store m)"
    by (simp add: abs_store_def members_def members_of_def)
  moreover have "stats_sadd L (ABulk (k # xs)) (m, w) = flush_int (Ok (count64 (set xs - members_of m k)))
      (m\<lparr>mem_sets := (mem_sets m)(k \<mapsto> members_of m k \<union> set xs)\<rparr>, w)"
    using sadd_loop_effect [OF mem_ok_members [OF assms(2)], of k v vs 0] len
    by (simp add: stats_sadd_def xs del: sadd_loop.simps fun_upd_apply)
  ultimately show "implements L w (Add_members k xs) m (stats_sadd L (ABulk (k # xs)) (m, w))"
    using assms(1) by (simp add: implements_def serves_basic del: new_store.simps)
  show "implements L w (Remove_members k xs) m (stats_srem L (ABulk (k # xs)) (m, w))"
  proof (cases "mem_sets m k")
    case None
    then have "srem_loop k xs 0 m = (Ok (- 1), m)" by (simp add: xs mem_srem_def)
    then show ?thesis using assms(1) len None by (simp add: implements_def serves_basic stats_srem_def)
  next
    case (Some g)
    then show ?thesis using assms(1) len srem_loop_effect [OF Some, of xs 0]
      by (simp add: implements_def serves_basic stats_srem_def abs_store_def)
  qed
  have "mem_sismember k v m = Ok (if v \<in> members_of m k then 1 else 0)" for v
    by (simp add: mem_sismember_def members_of_def split: option.split)
  then have "stats_sismember L (ABulk (k # xs)) (m, w) = flush_ints (map (\<lambda>x. if x \<in> members_of m k then 1 else 0) xs) (m, w)"
    using len by (simp add: stats_sismember_def collect_ints_map)
  then show "implements L w (Has_members k xs) m (stats_sismember L (ABulk (k # xs)) (m, w))"
    using serves_ints [OF assms(1), of "map (\<lambda>x. if x \<in> members_of m k then 1 else 0) xs" L m] assms(3)
    by (simp add: implements_def)
qed

lemma serves_queries:
  assumes "bw_ok w" and "mem_ok m"
  shows "ks \<noteq> [] \<Longrightarrow> implements L w (Cardinals ks) m (stats_scard L (ABulk ks) (m, w))"
    "implements L w (Members k) m (stats_smembers L (ABulk [k]) (m, w))"
    "ks \<noteq> [] \<Longrightarrow> implements L w (Difference k ks) m (stats_sdiff L (ABulk (k # ks)) (m, w))"
    "2 \<le> length ks \<Longrightarrow> implements L w (Intersection ks) m (stats_sinter L (ABulk ks) (m, w))"
    "2 \<le> length ks \<Longrightarrow> implements L w (Union_of ks) m (stats_sunion L (ABulk ks) (m, w))"
proof -
  have card: "mem_scard v m = Ok (count64 (members_of m v))" for v
    by (simp add: mem_scard_def members_of_def count64_def split: option.split)
  show "implements L w (Cardinals ks) m (stats_scard L (ABulk ks) (m, w))" if "ks \<noteq> []"
    using that serves_ints [OF assms(1), of "map (\<lambda>k. count64 (members_of m k)) ks" L m]
    by (cases ks) (simp_all add: implements_def stats_scard_def card collect_ints_map)
  show "implements L w (Members k) m (stats_smembers L (ABulk [k]) (m, w))"
    using assms(1) by (simp add: implements_def serves_basic stats_smembers_def mem_smembers_def split: option.split)
  show "implements L w (Difference k ks) m (stats_sdiff L (ABulk (k # ks)) (m, w))" if "ks \<noteq> []"
  proof (cases "mem_sets m k")
    case (Some g)
    then have "finite g" using mem_ok_members [OF assms(2), of k] by (simp add: members_of_def)
    then have "stats_sdiff L (ABulk (k # ks)) (m, w) = flush_strings (gl_range L (g - (\<Union>j \<in> set ks. members_of m j))) (m, w)"
      using that Some by (cases ks) (simp_all add: stats_sdiff_def mem_smembers_def sdiff_loop_eq del: sdiff_loop.simps)
    with assms(1) Some show ?thesis by (simp add: implements_def serves_basic)
  qed (use assms(1) that in \<open>cases ks; simp add: implements_def serves_basic stats_sdiff_def mem_smembers_def\<close>)
  show "implements L w (Intersection ks) m (stats_sinter L (ABulk ks) (m, w))" if "2 \<le> length ks"
  proof -
    have ne: "ks \<noteq> []" using that by auto
    have "(\<Inter>v \<in> set ks. the (mem_sets m v)) = (\<Inter>k \<in> set ks. members_of m k)"
      if "\<not> (\<exists>v \<in> set ks. mem_sets m v = None)"
      using that by (intro INF_cong refl) (auto simp: members_of_def split: option.split)
    with assms(1) that show ?thesis
      by (auto simp: implements_def serves_basic stats_sinter_def mem_sinter_eq [OF ne])
  qed
  show "implements L w (Union_of ks) m (stats_sunion L (ABulk ks) (m, w))" if "2 \<le> length ks"
    using assms(1) that
    by (simp add: implements_def serves_basic stats_sunion_def mem_sunion_def sunion_loop_eq members_of_def)
qed

lemma stats_run_implements:
  assumes "bw_ok w" and "mem_ok m" and "request_ok q"
  shows "implements L w q m (stats_run (method_of q) L (ABulk (request_args q)) (m, w))"
  using assms serves_values [OF assms(1)] serves_counts [OF assms(1)] serves_members [OF assms(1,2)]
    serves_queries [OF assms(1,2)]
  by (cases q) simp_all


section \<open>What a handler does with any arguments\<close>

text \<open>
  What the arguments of a call demand: a request, a complaint about missing arguments, or one about a word
  that is not a number.  The count of \<open>INCR\<close>, \<open>DECR\<close> and \<open>COUNT\<close> is 1 if it is left out, and further arguments
  that a command does not use are ignored.  \<open>KEYS\<close> and \<open>COUNTERS\<close> are not requests to the abstract store.
\<close>

datatype demand = Demands request | Too_few | Bad_number gerr | Demands_keys bytes | Demands_counters

definition with_number :: "(int64 \<Rightarrow> request) \<Rightarrow> bytes \<Rightarrow> demand" where
  "with_number f v =
     (case parse_int v of Ok n \<Rightarrow> Demands (f n) | Err e \<Rightarrow> Bad_number e | Panic p \<Rightarrow> Bad_number (ErrText p))"

fun with_count :: "(bytes \<Rightarrow> int64 \<Rightarrow> request) \<Rightarrow> bytes list \<Rightarrow> demand" where
  "with_count f [] = Too_few"
| "with_count f [k] = Demands (f k 1)"
| "with_count f (k # v # _) = with_number (f k) v"

fun with_key :: "(bytes \<Rightarrow> request) \<Rightarrow> bytes list \<Rightarrow> demand" where
  "with_key f [] = Too_few"
| "with_key f (k # _) = Demands (f k)"

fun with_words :: "(bytes \<Rightarrow> bytes list \<Rightarrow> request) \<Rightarrow> bytes list \<Rightarrow> demand" where
  "with_words f (k # x # xs) = Demands (f k (x # xs))"
| "with_words f _ = Too_few"

fun with_keys :: "(bytes list \<Rightarrow> request) \<Rightarrow> bytes list \<Rightarrow> demand" where
  "with_keys f [] = Too_few"
| "with_keys f (k # ks) = Demands (f (k # ks))"

definition demand_of :: "stats_method \<Rightarrow> bytes list \<Rightarrow> demand" where
  "demand_of h d =
     (case h of
        MSet \<Rightarrow> (case d of k # v # _ \<Rightarrow> with_number (Set_number k) v | _ \<Rightarrow> Too_few)
      | MSetNx \<Rightarrow> (case d of k # v # _ \<Rightarrow> with_number (Set_new k) v | _ \<Rightarrow> Too_few)
      | MIncr \<Rightarrow> with_count Add_to d
      | MDecr \<Rightarrow> with_count Subtract_from d
      | MCount \<Rightarrow> with_count Tally d
      | MGet \<Rightarrow> with_key Get_number d
      | MExists \<Rightarrow> with_key Exists_number d
      | MSMembers \<Rightarrow> with_key Members d
      | MDel \<Rightarrow> with_keys Delete d
      | MSCard \<Rightarrow> with_keys Cardinals d
      | MSAdd \<Rightarrow> with_words Add_members d
      | MSRem \<Rightarrow> with_words Remove_members d
      | MSIsMember \<Rightarrow> with_words Has_members d
      | MSDiff \<Rightarrow> with_words Difference d
      | MSInter \<Rightarrow> with_words (\<lambda>k ks. Intersection (k # ks)) d
      | MSUnion \<Rightarrow> with_words (\<lambda>k ks. Union_of (k # ks)) d
      | MKeys \<Rightarrow> Demands_keys (case d of [] \<Rightarrow> [] | p # _ \<Rightarrow> p)
      | MCounters \<Rightarrow> Demands_counters)"

definition usage_text :: "stats_method \<Rightarrow> bytes" where
  "usage_text h =
     (case h of
        MSet \<Rightarrow> ''SET takes at least 2 parameters (i.e. key to set and value to set to)''
      | MSetNx \<Rightarrow> ''SETNX takes at least 2 parameters (i.e. key to set and value to set to, if not already set)''
      | MIncr \<Rightarrow> ''INCR takes at least 1 parameter (i.e. key to increment)''
      | MDecr \<Rightarrow> ''DECR takes at least 1 parameter (i.e. key to increment)''
      | MCount \<Rightarrow> ''COUNTER takes at least 1 parameter (i.e. key to increment)''
      | MGet \<Rightarrow> ''GET takes at least 1 parameter (i.e. key to get)''
      | MExists \<Rightarrow> ''EXISTS takes at least 1 parameter (i.e. key to find)''
      | MSMembers \<Rightarrow> ''SMEMBERS takes 1 parameter (SMEMBERS key)''
      | MDel \<Rightarrow> ''DEL takes at least 1 parameter (i.e. key to delete)''
      | MSCard \<Rightarrow> ''SCARD takes at least 1 parameter (SCARD key)''
      | MSAdd \<Rightarrow> ''SADD takes at least 2 parameters (SADD key member)''
      | MSRem \<Rightarrow> ''SREM takes at least 2 parameters (SREM key member)''
      | MSIsMember \<Rightarrow> ''SISMEMBER takes 2 parameters (SISMEMBER key member)''
      | MSDiff \<Rightarrow> ''SDIFF requires at least 2 parameters (SDIFF key [key ...])''
      | MSInter \<Rightarrow> ''SINTER takes at least 2 parameters (SINTER key [key ...])''
      | MSUnion \<Rightarrow> ''SUNION takes at least 2 parameters (SINTER key [key ...])''
      | MKeys \<Rightarrow> [] | MCounters \<Rightarrow> [])"

text \<open>
  The specified outcome of a call: what it returns, the abstract store after it, and the bytes that it
  sends and flushes, or \<open>None\<close> if it does not touch the connection.
\<close>

definition specified :: "'f golib \<Rightarrow> stats_method \<Rightarrow> bytes list \<Rightarrow> 'f mem \<Rightarrow> unit res \<times> store \<times> bytes option" where
  "specified L h d m =
     (let s = abs_store m in
      case demand_of h d of
        Demands q \<Rightarrow>
          (Ok (), new_store q s,
           if answer_of q s = No_answer then None else Some (enc_answer L (answer_of q s)))
      | Too_few \<Rightarrow> (Ok (), s, Some (enc_error L (ErrText (usage_text h))))
      | Bad_number e \<Rightarrow> (Err e, s, None)
      | Demands_keys p \<Rightarrow> (Ok (), s, Some (case mem_keys L p m of Ok xs \<Rightarrow> enc_strings xs | _ \<Rightarrow> []))
      | Demands_counters \<Rightarrow>
          (Ok (), s, Some (case gl_json L (counters_value L (mem_counters m)) of Inl _ \<Rightarrow> [] | Inr b \<Rightarrow> enc_json b)))"

lemma with_number_simps:
  "parse_int v = Ok n \<Longrightarrow> with_number f v = Demands (f n)" "parse_int v = Err e \<Longrightarrow> with_number f v = Bad_number e"
  by (simp_all add: with_number_def)

lemma words_cases:
  obtains "d = []" | k where "d = [k]" | k x xs where "d = k # x # xs"
  by (metis list.exhaust)

text \<open>Arguments that demand a request are treated as the arguments of that request.\<close>

lemma stats_run_demands:
  assumes "demand_of h d = Demands q" and "bulk_of data = d"
  shows "stats_run h L data st = stats_run (method_of q) L (ABulk (request_args q)) st \<and> request_ok q"
proof -
  obtain m w where st: "st = (m, w)" by fastforce
  show ?thesis
  proof (cases d rule: words_cases)
    case 1
    with assms show ?thesis by (cases h) (simp_all add: demand_of_def)
  next
    case (2 k)
    with assms st show ?thesis
      by (cases h) (auto simp: demand_of_def handler_defs mem_incr_def mem_decr_def mem_counter_def)
  next
    case (3 k v rest)
    show ?thesis
    proof (cases "parse_int v")
      case (Ok n)
      with assms st 3 show ?thesis by (cases h) (auto simp: demand_of_def with_number_simps handler_defs)
    next
      case (Err e)
      with assms st 3 show ?thesis by (cases h) (auto simp: demand_of_def with_number_simps handler_defs)
    next
      case (Panic p)
      then show ?thesis using parse_int_cases [of v] by simp
    qed
  qed
qed

lemma stats_run_complains:
  assumes "bulk_of data = d"
  shows "demand_of h d = Too_few \<Longrightarrow> stats_run h L data st = usage_error L (usage_text h) st"
    "demand_of h d = Bad_number e \<Longrightarrow> stats_run h L data st = (Err e, st)"
proof -
  obtain m w where st: "st = (m, w)" by fastforce
  have both: "(demand_of h d = Too_few \<longrightarrow> stats_run h L data st = usage_error L (usage_text h) st) \<and>
      (demand_of h d = Bad_number e \<longrightarrow> stats_run h L data st = (Err e, st))"
  proof (cases d rule: words_cases)
    case 1
    with assms st show ?thesis by (cases h) (simp_all add: demand_of_def handler_defs usage_text_def)
  next
    case (2 k)
    with assms st show ?thesis by (cases h) (simp_all add: demand_of_def handler_defs usage_text_def)
  next
    case (3 k v rest)
    have "(\<exists>n. parse_int v = Ok n) \<or> (\<exists>e. parse_int v = Err e)" by (rule parse_int_cases)
    with assms st 3 show ?thesis
      by (cases h) (auto simp: demand_of_def with_number_simps handler_defs)
  qed
  then show "demand_of h d = Too_few \<Longrightarrow> stats_run h L data st = usage_error L (usage_text h) st"
    "demand_of h d = Bad_number e \<Longrightarrow> stats_run h L data st = (Err e, st)" by blast+
qed

lemma stats_run_lists:
  assumes "bw_ok w"
  shows "demand_of h (bulk_of data) = Demands_keys p \<Longrightarrow>
      \<exists>w' xs. mem_keys L p m = Ok xs \<and> stats_run h L data (m, w) = (Ok (), m, w') \<and> replied w (enc_strings xs) w'"
    "demand_of h (bulk_of data) = Demands_counters \<Longrightarrow>
      \<exists>w'. stats_run h L data (m, w) = (Ok (), m, w') \<and>
        replied w (case gl_json L (counters_value L (mem_counters m)) of Inl _ \<Rightarrow> [] | Inr b \<Rightarrow> enc_json b) w'"
proof -
  have num: "with_number f v \<noteq> Demands_keys p" "with_number f v \<noteq> Demands_counters" for f v p
    by (simp_all add: with_number_def split: res.split)
  have cases: "demand_of h d = Demands_keys p \<Longrightarrow> h = MKeys" "demand_of h d = Demands_counters \<Longrightarrow> h = MCounters" for d
    by (cases d rule: words_cases; cases h; simp add: demand_of_def num)+
  show "\<exists>w' xs. mem_keys L p m = Ok xs \<and> stats_run h L data (m, w) = (Ok (), m, w') \<and> replied w (enc_strings xs) w'"
    if d: "demand_of h (bulk_of data) = Demands_keys p"
  proof -
    obtain xs where xs: "mem_keys L p m = Ok xs" using mem_keys_ok by blast
    have "h = MKeys" by (rule cases(1) [OF d])
    with d xs have "stats_run h L data (m, w) = flush_strings xs (m, w)"
      by (cases "bulk_of data") (auto simp: demand_of_def stats_keys_def)
    with xs flush_strings_replied [OF assms, of xs m] show ?thesis by auto
  qed
  show "\<exists>w'. stats_run h L data (m, w) = (Ok (), m, w') \<and>
      replied w (case gl_json L (counters_value L (mem_counters m)) of Inl _ \<Rightarrow> [] | Inr b \<Rightarrow> enc_json b) w'"
    if d: "demand_of h (bulk_of data) = Demands_counters"
    using cases(2) [OF d] json_replied [OF assms] by (simp add: stats_counters_def)
qed

section \<open>Properties\<close>



text \<open>
C14. Every handler of the stats backend on every argument does exactly what is specified: with arguments that
denote a request it leaves the demanded store and sends the specified answer; with too few it sends the
usage text and changes nothing; with a bad number it returns the error and touches neither the store nor the
connection; \<open>KEYS\<close> and \<open>COUNTERS\<close> send what the store lists.  No argument makes a handler panic, and every
reply is sent and flushed as a whole.
\<close>

theorem stats_handlers_safe:
  assumes "bw_ok w" and "mem_ok m" and "specified L h (bulk_of data) m = (res, s, reply)"
  shows "\<exists>m' w'. stats_run h L data (m, w) = (res, m', w') \<and> (\<forall>p. res \<noteq> Panic p) \<and> mem_ok m' \<and> abs_store m' = s \<and> bw_ok w' \<and>
    (case reply of None \<Rightarrow> w' = w | Some b \<Rightarrow> bw_buf w' = [] \<and> bw_sent w' = bw_stream w @ b)"
proof (cases "demand_of h (bulk_of data)")
  case (Demands q)
  note d = stats_run_demands [OF Demands refl, of L "(m, w)"]
  from d have "request_ok q" by blast
  from stats_run_implements [OF assms(1,2) this, of L] obtain m' w' where
    out: "stats_run h L data (m, w) = (Ok (), m', w')"
    and a: "if answer_of q (abs_store m) = No_answer then w' = w else replied w (enc_answer L (answer_of q (abs_store m))) w'"
    and s: "abs_store m' = new_store q (abs_store m)"
    using d by (auto simp: implements_def serves_def)
  moreover have "mem_ok m'"
    using stats_run_any(1) [of h L data m w] out mem_execs_ok [OF assms(2)] by auto
  ultimately show ?thesis using assms(1,3) Demands by (auto simp: specified_def replied_def Let_def split: if_splits)
next
  case Too_few
  with stats_run_complains(1) [OF refl Too_few, of L "(m, w)"] usage_error_replied [OF assms(1), of L "usage_text h" m] assms(2,3)
  show ?thesis by (auto simp: specified_def replied_def)
next
  case (Bad_number e)
  with stats_run_complains(2) [OF refl Bad_number, of L "(m, w)"] assms show ?thesis by (auto simp: specified_def)
next
  case (Demands_keys p)
  with stats_run_lists(1) [OF assms(1) Demands_keys, of L m] assms(2,3) show ?thesis by (auto simp: specified_def replied_def)
next
  case Demands_counters
  with stats_run_lists(2) [OF assms(1) Demands_counters, of L m] assms(2,3) show ?thesis by (auto simp: specified_def replied_def)
qed

theorem stats_handlers_safe_witness:
  "\<exists>m' w'. stats_run MIncr plain_lib (ABulk [''k'']) (new_memory_backend 0, new_writer 128) = (Ok (), m', w') \<and>
    numbers (abs_store m') ''k'' = Some 1 \<and> bw_sent w' = enc_int 1"
proof -
  have "specified plain_lib MIncr (bulk_of (ABulk [''k''] :: int64 args)) (new_memory_backend 0) =
      (Ok (), new_store (Add_to ''k'' 1) empty_store, Some (enc_int 1))"
    by (simp add: specified_def demand_of_def abs_store_new) (simp add: empty_store_def)
  from stats_handlers_safe [OF bw_ok_new_writer mem_ok_new this, of 128]
  obtain m' w' where run: "stats_run MIncr plain_lib (ABulk [''k'']) (new_memory_backend 0, new_writer 128) = (Ok (), m', w')"
    "abs_store m' = new_store (Add_to ''k'' 1) empty_store" "bw_sent w' = enc_int 1" by auto
  have "numbers (abs_store m') ''k'' = Some 1" unfolding run(2) by (simp add: empty_store_def)
  with run show ?thesis by blast
qed

end
