(* ===== verification/Races.thy ===== *)
theory Races
  imports Locking StoreSpec
begin

text \<open>
  The commands of \<open>backends/stats/metrics.go\<close> that go on using a map of the store after its method has
  released the lock: \<open>SMembers\<close> and \<open>SDiff\<close> take the length of the live set and range over it, \<open>Counters\<close>
  marshals the live map of counters.  Alone they reply as the handlers of \<open>Stats\<close> do; next to a command
  that changes the map they race with it, and a set that grows between the two accesses is sent with a wrong length.
\<close>

section \<open>Commands over several methods\<close>

text \<open>\<open>WriteLen('*', len(values))\<close>, then a \<open>WriteString\<close> for every key of the \<open>range\<close> loop; no lock is held.\<close>

definition send_set :: "'f golib \<Rightarrow> map_ref \<Rightarrow> 'f prog" where
  "send_set L values = fetch_set values (\<lambda>s. let len = card s in
     fetch_set values (\<lambda>s. let ks = gl_range L s in
       touch (case values of Live k \<Rightarrow> replicate (length ks) (Set_of k) | Fresh _ \<Rightarrow> []) (Ret (Sent len ks))))"

text \<open>The branch of \<open>SMembers\<close> and \<open>SDiff\<close> on a nil map.\<close>

definition if_found :: "store_reply \<Rightarrow> (map_ref \<Rightarrow> 'f prog) \<Rightarrow> 'f prog" where
  "if_found r f = (case r of Set_reply (Ok (Some values)) \<Rightarrow> f values | Set_reply (Ok None) \<Rightarrow> Ret Null_sent | _ \<Rightarrow> Ret r)"

definition smembers_command :: "'f golib \<Rightarrow> bytes \<Rightarrow> 'f prog" where
  "smembers_command L key = and_then (micro_smembers key) (\<lambda>r. if_found r (send_set L))"

fun sdiff_rest :: "'f golib \<Rightarrow> bytes list \<Rightarrow> map_ref \<Rightarrow> 'f prog" where
  "sdiff_rest L [] results = send_set L results"
| "sdiff_rest L (v # vs) results =
     and_then (micro_sdiff results v) (\<lambda>r. if_found r (\<lambda>results'.
       fetch_set results' (\<lambda>s. if card s = 0 then send_set L results' else sdiff_rest L vs results')))"

definition sdiff_command :: "'f golib \<Rightarrow> bytes \<Rightarrow> bytes list \<Rightarrow> 'f prog" where
  "sdiff_command L key keys = and_then (micro_smembers key) (\<lambda>r. if_found r (sdiff_rest L keys))"

text \<open>\<open>json.Marshal\<close> of the live map: its keys, and for each of them the counter that it points to.\<close>

primrec marshal_loop :: "bytes list \<Rightarrow> (bytes \<times> int64) list \<Rightarrow> 'f prog" where
  "marshal_loop [] out = Ret (Json_sent out)"
| "marshal_loop (k # ks) out =
     Fetch Counters (\<lambda>m. if k \<in> dom (mem_counters m)
       then Fetch (Counter_of k) (\<lambda>m. marshal_loop ks (out @ [(k, ctr_value (the (mem_counters m k)))]))
       else marshal_loop ks out)"

definition counters_command :: "'f golib \<Rightarrow> 'f prog" where
  "counters_command L = and_then micro_counters (\<lambda>_.
     Fetch Counters (\<lambda>m. marshal_loop (gl_range L (dom (mem_counters m))) []))"

section \<open>Alone: the handlers\<close>

text \<open>What reaches the client.\<close>

fun sent_bytes :: "store_reply \<Rightarrow> bytes" where
  "sent_bytes (Sent n ks) = enc_line CHR ''*'' (append_int (word_of_int (int n))) @ concat (map (enc_line CHR ''+'') ks)"
| "sent_bytes Null_sent = enc_nil"
| "sent_bytes _ = []"

lemma run_send_set: "run (send_set L values) m = (Sent (card (deref m values)) (gl_range L (deref m values)), m)"
  by (simp add: send_set_def Let_def)

lemma sent_strings:
  assumes "range_ok L" and "finite s"
  shows "sent_bytes (Sent (card s) (gl_range L s)) = enc_strings (gl_range L s)"
  using range_okD(3) [OF assms] by (simp add: enc_strings_def go_len_def)

lemma sdiff_finite: "finite s \<Longrightarrow> mem_sdiff s k m = Ok s' \<Longrightarrow> finite s'"
  by (auto simp: mem_sdiff_def split: option.splits)

lemma run_sdiff_rest:
  assumes "finite (deref m results)"
  shows "\<exists>s. sdiff_loop ks (deref m results) m = Ok s \<and> finite s \<and> run (sdiff_rest L ks results) m = (Sent (card s) (gl_range L s), m)"
  using assms
proof (induction ks arbitrary: results)
  case Nil
  then show ?case by (simp add: run_send_set)
next
  case (Cons v vs)
  have "\<exists>s. mem_sdiff (deref m results) v m = Ok s" by (simp add: mem_sdiff_def split: option.split)
  then obtain s where s: "mem_sdiff (deref m results) v m = Ok s" by blast
  let ?r = "if mem_sets m v = None then results else Fresh s"
  have r: "run (micro_sdiff results v) m = (Set_reply (Ok (Some ?r)), m)" "deref m ?r = s"
    using s by (auto simp: micro_sdiff_def mem_sdiff_def domIff split: option.splits)
  have "finite (deref m ?r)" using sdiff_finite [OF Cons.prems s] r(2) by simp
  with Cons.IH [OF this] s r show ?case by (simp add: if_found_def run_send_set)
qed

lemma run_smembers: "run (micro_smembers key) m = (Set_reply (Ok (if key \<in> dom (mem_sets m) then Some (Live key) else None)), m)"
  by (simp add: micro_smembers_def)

text \<open>
  A goroutine that executes one of the two commands access by access, with nobody else at work, leaves
  the store as it is and sends its client exactly the bytes that the handler of the command writes.
\<close>

lemma smembers_alone:
  assumes "range_ok L" and "mem_ok m" and "bw_ok w"
  shows "\<exists>r w'. run (smembers_command L k) m = (r, m) \<and>
    stats_smembers L (ABulk (k # ds)) (m, w) = (Ok (), m, w') \<and> replied w (sent_bytes r) w'"
proof (cases "mem_sets m k")
  case None
  then show ?thesis using flush_nil_replied [OF assms(3), of m]
    by (simp add: smembers_command_def run_smembers if_found_def stats_smembers_def mem_smembers_def domIff)
next
  case (Some s)
  then have "finite s" using assms(2) by (auto simp: mem_ok_def)
  with Some show ?thesis
    using flush_strings_replied [OF assms(3), of "gl_range L s" m] sent_strings [OF assms(1), of s]
    by (simp add: smembers_command_def run_smembers if_found_def run_send_set stats_smembers_def mem_smembers_def domIff)
qed

lemma sdiff_alone:
  assumes "range_ok L" and "mem_ok m" and "bw_ok w" and "ks \<noteq> []"
  shows "\<exists>r w'. run (sdiff_command L k ks) m = (r, m) \<and>
    stats_sdiff L (ABulk (k # ks)) (m, w) = (Ok (), m, w') \<and> replied w (sent_bytes r) w'"
proof (cases "mem_sets m k")
  case None
  then show ?thesis using flush_nil_replied [OF assms(3), of m] assms(4)
    by (cases ks) (simp_all add: sdiff_command_def run_smembers if_found_def stats_sdiff_def mem_smembers_def domIff)
next
  case (Some s)
  then have "finite s" using assms(2) by (auto simp: mem_ok_def)
  then obtain t where t: "sdiff_loop ks s m = Ok t" "finite t" "run (sdiff_rest L ks (Live k)) m = (Sent (card t) (gl_range L t), m)"
    using run_sdiff_rest [of m "Live k" ks L] Some by auto
  have "stats_sdiff L (ABulk (k # ks)) (m, w) = flush_strings (gl_range L t) (m, w)"
    using Some t(1) assms(4) by (cases ks) (simp_all add: stats_sdiff_def mem_smembers_def)
  moreover have "run (sdiff_command L k ks) m = (Sent (card t) (gl_range L t), m)"
    using Some t(3) by (simp add: sdiff_command_def run_smembers if_found_def domIff)
  ultimately show ?thesis
    using flush_strings_replied [OF assms(3), of "gl_range L t" m] sent_strings [OF assms(1) t(2)] by simp
qed

section \<open>Next to a change\<close>

text \<open>SMEMBERS has announced the length of the set; it is about to range over it, and SADD about to insert.\<close>

lemma smembers_races:
  assumes "mem_sets m k = Some s" and "x \<notin> s"
  shows "\<exists>y. micro_step\<^sup>*\<^sup>* (side_by_side (smembers_command L k) (micro_sadd k x) m) y \<and> data_race y"
  by (rule race_reached [of "[0, 0, 0, 0, 0, 1, 1, 1, 1]" _ "Set_of k"])
     (use assms in \<open>simp add: side_defs smembers_command_def micro_smembers_def micro_sadd_def micro_insert_def
        if_found_def send_set_def domIff\<close>)

text \<open>SDIFF ranges over the live set too, as long as no other set has been subtracted from it.\<close>

lemma sdiff_races:
  assumes "mem_sets m k = Some s" and "finite s" and "s \<noteq> {}" and "x \<notin> s" and "mem_sets m j = None"
  shows "\<exists>y. micro_step\<^sup>*\<^sup>* (side_by_side (sdiff_command L k [j]) (micro_sadd k x) m) y \<and> data_race y"
  by (rule race_reached [of "[0, 0, 0, 0, 0, 0, 0, 0, 0, 1, 1, 1, 1]" _ "Set_of k"])
     (use assms in \<open>simp add: side_defs sdiff_command_def micro_smembers_def micro_sdiff_def micro_sadd_def micro_insert_def
        if_found_def send_set_def domIff\<close>)

text \<open>COUNTERS marshals the live map of counters while COUNT adds one.\<close>

lemma counters_races:
  assumes "mem_counters m k = None"
  shows "\<exists>y. micro_step\<^sup>*\<^sup>* (side_by_side (counters_command L) (micro_counter_by L k n) m) y \<and> data_race y"
  by (rule race_reached [of "[0, 0, 0, 1, 1, 1]" _ Counters])
     (use assms in \<open>simp add: side_defs counters_command_def micro_counters_def micro_counter_by_def domIff\<close>)

text \<open>SADD is done between the two accesses: the length is that of the old set, the members those of the new one.\<close>

lemma smembers_overtaken:
  assumes "range_ok L" and "mem_sets m k = Some s" and "finite s" and "x \<notin> s"
  shows "\<exists>z. micro_step\<^sup>*\<^sup>* (side_by_side (smembers_command L k) (micro_sadd k x) m) z \<and> all_returned z \<and>
    th_replies z 0 = [Sent (card s) (gl_range L (insert x s))] \<and> th_replies z 1 = [Int_reply (Ok 1)]"
proof -
  let ?y0 = "side_by_side (smembers_command L k) (micro_sadd k x) m" and ?ks = "gl_range L (insert x s)"
  obtain y where y: "advances [0, 0, 0, 0, 0, 1, 1, 1, 1, 1, 1, 1, 0] ?y0 = Some y"
    "th_now y 0 = Some (touch (replicate (length ?ks) (Set_of k)) (Ret (Sent (card s) ?ks)))"
    "th_replies y 0 = []" "th_replies y 1 = [Int_reply (Ok 1)]" "\<forall>i. th_todo y i = [] \<and> (i \<noteq> 0 \<longrightarrow> th_now y i = None)"
    using assms by (simp add: side_defs smembers_command_def micro_smembers_def micro_sadd_def micro_insert_def
        if_found_def send_set_def domIff)
  from advances_touch [OF y(2)]
  have *: "advances (replicate (length ?ks) 0) y = Some (y\<lparr>th_now := (th_now y)(0 \<mapsto> Ret (Sent (card s) ?ks))\<rparr>)" by simp
  let ?is = "[0, 0, 0, 0, 0, 1, 1, 1, 1, 1, 1, 1, 0] @ replicate (length ?ks) 0 @ [0]"
  obtain z where "advances ?is ?y0 = Some z" "all_returned z" "th_replies z 0 = [Sent (card s) ?ks]"
    "th_replies z 1 = [Int_reply (Ok 1)]"
    unfolding advances_append using y * by (simp add: advance_def all_returned_def)
  with advances_run show ?thesis by blast
qed

text \<open>
C21. SMEMBERS uses the set after its lock has been released.  When SADD adds a member in between, the two
commands race; and if SADD is done between the length and the members, the client reads an array of
the old length, and the last member stays on the connection, where the next call takes it
for its reply.
\<close>

theorem smembers_unlocked:
  assumes "range_ok L" and "float_ok L" and "mem_sets m k = Some s" and "finite s" and "x \<notin> s"
    and "\<forall>v \<in> insert x s. plain_text v" and "card s * 16 \<le> 2 ^ 48"
  shows "(\<exists>y. micro_step\<^sup>*\<^sup>* (side_by_side (smembers_command L k) (micro_sadd k x) m) y \<and> data_race y) \<and>
    (\<exists>z r vs u. micro_step\<^sup>*\<^sup>* (side_by_side (smembers_command L k) (micro_sadd k x) m) z \<and> all_returned z \<and>
       th_replies z 0 = [r] \<and> th_replies z 1 = [Int_reply (Ok 1)] \<and> length vs = card s \<and> u \<in> insert x s \<and>
       read_interface L (new_reader 128 (sent_bytes r)) = (Ok (VArray (map VString vs)), new_reader 128 (enc_line CHR ''+'' u)) \<and>
       fst (read_interface L (new_reader 128 (enc_line CHR ''+'' u))) = Ok (VString u))"
proof
  show "\<exists>y. micro_step\<^sup>*\<^sup>* (side_by_side (smembers_command L k) (micro_sadd k x) m) y \<and> data_race y"
    by (rule smembers_races [OF assms(3,5)])
next
  let ?ks = "gl_range L (insert x s)"
  obtain z where z: "micro_step\<^sup>*\<^sup>* (side_by_side (smembers_command L k) (micro_sadd k x) m) z" "all_returned z"
    "th_replies z 0 = [Sent (card s) ?ks]" "th_replies z 1 = [Int_reply (Ok 1)]"
    using smembers_overtaken [OF assms(1,3-5)] by blast
  have ks: "set ?ks = insert x s" "length ?ks = Suc (card s)"
    using range_okD(2,3) [OF assms(1), of "insert x s"] assms(4,5) by simp_all
  then obtain vs u where vu: "?ks = vs @ [u]" "length vs = card s" by (cases ?ks rule: rev_cases) auto
  then have plain: "\<forall>v \<in> set vs. plain_text v" and u: "u \<in> insert x s" "plain_text u"
    using ks(1) assms(6) by auto
  have bytes: "sent_bytes (Sent (card s) ?ks) = enc_array L (map VString vs) @ enc_line CHR ''+'' u"
    unfolding vu(1) by (simp add: enc_array_def go_len_def comp_def vu(2))
  have "decodes 128 (read_interface L) (enc_array L (map VString vs)) (VArray (map (readback L) (map VString vs)))"
    by (rule array_decodes [OF assms(2)]) (use plain assms(7) vu(2) in \<open>auto simp: plain_text_def\<close>)
  then have "read_interface L (new_reader 128 (sent_bytes (Sent (card s) ?ks))) =
      (Ok (VArray (map VString vs)), new_reader 128 (enc_line CHR ''+'' u))"
    using decodes_new_reader bytes by (simp add: comp_def)
  moreover have "decodes 128 (read_interface L) (enc_value L (VString u)) (readback L (VString u))"
    by (rule value_decodes [OF assms(2)]) (use u(2) in \<open>auto simp: plain_text_def\<close>)
  then have "fst (read_interface L (new_reader 128 (enc_line CHR ''+'' u))) = Ok (VString u)"
    using decodes_new_reader [of "read_interface L" _ _ "[]"] by simp
  ultimately show "\<exists>z r vs u. micro_step\<^sup>*\<^sup>* (side_by_side (smembers_command L k) (micro_sadd k x) m) z \<and> all_returned z \<and>
       th_replies z 0 = [r] \<and> th_replies z 1 = [Int_reply (Ok 1)] \<and> length vs = card s \<and> u \<in> insert x s \<and>
       read_interface L (new_reader 128 (sent_bytes r)) = (Ok (VArray (map VString vs)), new_reader 128 (enc_line CHR ''+'' u)) \<and>
       fst (read_interface L (new_reader 128 (enc_line CHR ''+'' u))) = Ok (VString u)"
    using z vu(2) u(1) by blast
qed

theorem smembers_unlocked_witness:
  "\<exists>z r vs u. micro_step\<^sup>*\<^sup>* (side_by_side (smembers_command plain_lib ''k'') (micro_sadd ''k'' ''b'')
       (snd (mem_sadd ''k'' ''a'' (new_memory_backend 0)))) z \<and>
     th_replies z 0 = [r] \<and> u \<in> {''a'', ''b''} \<and> length vs = 1 \<and>
     read_interface plain_lib (new_reader 128 (sent_bytes r)) = (Ok (VArray (map VString vs)), new_reader 128 (enc_line CHR ''+'' u))"
proof -
  let ?m = "snd (mem_sadd ''k'' ''a'' (new_memory_backend 0)) :: int64 mem"
  have s: "mem_sets ?m ''k'' = Some {''a''}" by (simp add: mem_sadd_def new_memory_backend_def)
  have "\<forall>v \<in> insert ''b'' {''a''}. plain_text v" by (simp add: plain_text_def)
  from smembers_unlocked [OF plain_lib_range_ok plain_lib_float_ok s _ _ this] show ?thesis by fastforce
qed

end
