(* ===== verification/Concurrent.thy ===== *)
theory Concurrent
  imports Races
begin

text \<open>
  Requests of the stats backend that need one method of the store, made by goroutines that are interleaved
  access by access: the theory \<open>Locking\<close> meets the specification of \<open>StoreSpec\<close>.
\<close>

section \<open>Requests that are one call\<close>

text \<open>The method that the handler of a request calls, where it calls one only and needs no map after it.\<close>

fun one_call :: "request \<Rightarrow> store_call option" where
  "one_call (Set_number k n) = Some (Change (SetTo k n))"
| "one_call (Set_new k n) = Some (Change (SetNx k n))"
| "one_call (Get_number k) = Some (Get_of k)"
| "one_call (Exists_number k) = Some (Exists_of k)"
| "one_call (Delete [k]) = Some (Change (Del k))"
| "one_call (Add_to k n) = Some (Change (IncrBy k n))"
| "one_call (Subtract_from k n) = Some (Change (DecrBy k n))"
| "one_call (Tally k n) = Some (Change (CounterBy k n))"
| "one_call (Add_members k [x]) = Some (Change (SAdd k x))"
| "one_call (Remove_members k [x]) = Some (Change (SRem k x))"
| "one_call (Cardinals [k]) = Some (Scard_of k)"
| "one_call (Has_members k [x]) = Some (Sismember_of k x)"
| "one_call (Intersection (k # ks)) = Some (Sinter_of (k # ks))"
| "one_call (Union_of ks) = Some (Sunion_of ks)"
| "one_call _ = None"

text \<open>The answer that the handler makes of the result.\<close>

definition reply_answer :: "store_reply \<Rightarrow> answer" where
  "reply_answer r =
     (case r of
        Int_reply (Ok n) \<Rightarrow> Number n
      | Set_reply (Ok (Some (Fresh s))) \<Rightarrow> Strings s
      | _ \<Rightarrow> Missing)"

definition answer_from :: "request \<Rightarrow> store_reply \<Rightarrow> answer" where
  "answer_from q r = (case q of Tally k n \<Rightarrow> No_answer | _ \<Rightarrow> reply_answer r)"

lemma one_call_cases:
  assumes "one_call q = Some c"
  obtains k n where "q = Set_number k n" | k n where "q = Set_new k n" | k where "q = Get_number k"
  | k where "q = Exists_number k" | k where "q = Delete [k]" | k n where "q = Add_to k n"
  | k n where "q = Subtract_from k n" | k n where "q = Tally k n" | k x where "q = Add_members k [x]"
  | k x where "q = Remove_members k [x]" | k where "q = Cardinals [k]" | k x where "q = Has_members k [x]"
  | k ks where "q = Intersection (k # ks)" | ks where "q = Union_of ks"
  using assms by (cases q rule: one_call.cases) auto

lemma call_answers:
  assumes "one_call q = Some c"
  shows "abs_store (call_mem L c m) = new_store q (abs_store m)"
    and "answer_from q (call_reply L c m) = answer_of q (abs_store m)"
proof -
  have "abs_store (call_mem L c m) = new_store q (abs_store m) \<and>
    answer_from q (call_reply L c m) = answer_of q (abs_store m)"
    using assms
  proof (cases rule: one_call_cases)
    case 1
    then show ?thesis using assms by (auto simp: answer_from_def reply_answer_def mem_set_def abs_store_def)
  next
    case 2
    then show ?thesis using assms by (auto simp: answer_from_def reply_answer_def mem_setnx_def abs_store_def split: option.split)
  next
    case 3
    then show ?thesis using assms by (auto simp: answer_from_def reply_answer_def mem_get_def split: option.split)
  next
    case 4
    then show ?thesis using assms by (auto simp: answer_from_def reply_answer_def mem_exists_def split: option.split)
  next
    case 5
    then show ?thesis using assms
      by (auto simp: answer_from_def reply_answer_def mem_del_effect abs_store_def restrict_map_def fun_eq_iff count64_def dom_def)
  next
    case 6
    then show ?thesis using assms by (auto simp: answer_from_def reply_answer_def mem_incr_by_def abs_store_def split: option.split)
  next
    case 7
    then show ?thesis using assms by (auto simp: answer_from_def reply_answer_def mem_decr_by_def abs_store_def split: option.split)
  next
    case 8
    then show ?thesis using assms by (auto simp: answer_from_def reply_answer_def mem_counter_by_def abs_store_def fun_eq_iff Let_def split: option.split)
  next
    case 9
    then show ?thesis using assms by (auto simp: answer_from_def reply_answer_def mem_sadd_effect abs_store_def count64_def members_def members_of_def insert_Diff_if)
  next
    case 10
    then show ?thesis using assms
      by (auto simp: answer_from_def reply_answer_def mem_srem_def abs_store_def count64_def fun_upd_idem split: option.split)
  next
    case 11
    then show ?thesis using assms by (auto simp: answer_from_def reply_answer_def mem_scard_def count64_def members_of_def split: option.split)
  next
    case 12
    then show ?thesis using assms by (auto simp: answer_from_def reply_answer_def mem_sismember_def members_of_def split: option.split)
  next
    case (13 k ks)
    let ?ks = "k # ks"
    have "(\<Inter>v \<in> set ?ks. the (mem_sets m v)) = (\<Inter>v \<in> set ?ks. members_of m v)"
      if "\<not> (\<exists>v \<in> set ?ks. mem_sets m v = None)"
      using that by (intro INF_cong) (auto simp: members_of_def)
    moreover have "c = Sinter_of ?ks" using assms 13 by simp
    ultimately show ?thesis
      unfolding 13 by (simp add: answer_from_def reply_answer_def mem_sinter_eq del: list.set)
  next
    case 14
    then show ?thesis using assms by (auto simp: answer_from_def reply_answer_def mem_sunion_def sunion_loop_eq members_of_def)
  qed
  then show "abs_store (call_mem L c m) = new_store q (abs_store m)"
    and "answer_from q (call_reply L c m) = answer_of q (abs_store m)" by simp_all
qed

section \<open>The calls of requests and the specification\<close>

text \<open>
  \<open>follows qs w v\<close>: where the goroutines have got to in their requests \<open>qs\<close>; \<open>w\<close> has the store and the results of
  the calls, \<open>v\<close> the abstract store and the answers.
\<close>

definition follows :: "(nat \<Rightarrow> request list) \<Rightarrow> ('f mem, store_call, store_reply) callers \<Rightarrow>
    (store, request, answer) callers \<Rightarrow> bool" where
  "follows qs w v \<longleftrightarrow>
     ca_mem v = abs_store (ca_mem w) \<and>
     (\<forall>i. ca_todo w i = map (the \<circ> one_call) (ca_todo v i) \<and>
        (\<exists>ps. qs i = ps @ ca_todo v i \<and> length (ca_replies w i) = length ps \<and>
           ca_replies v i = map2 answer_from ps (ca_replies w i)))"

lemma call_step_follows:
  assumes "call_step (call_reply L) (call_mem L) w w'" and "follows qs w v"
    and "\<forall>i. \<forall>q \<in> set (qs i). one_call q \<noteq> None"
  shows "\<exists>v'. call_step answer_of new_store v v' \<and> follows qs w' v'"
  using assms(1)
proof cases
  case (call i c cs)
  from assms(2) obtain ps where ps: "ca_todo w i = map (the \<circ> one_call) (ca_todo v i)" "qs i = ps @ ca_todo v i"
    "length (ca_replies w i) = length ps" "ca_replies v i = map2 answer_from ps (ca_replies w i)"
    unfolding follows_def by blast
  with call(2) obtain q rest where q: "ca_todo v i = q # rest" "c = the (one_call q)" "cs = map (the \<circ> one_call) rest"
    by (cases "ca_todo v i") auto
  then have "q \<in> set (qs i)" using ps(2) by simp
  then have "one_call q = Some c" using assms(3) q(2) by fastforce
  note spec = call_answers [OF this, of L "ca_mem w"]
  let ?v = "v\<lparr>ca_mem := new_store q (ca_mem v), ca_todo := (ca_todo v)(i := rest),
    ca_replies := (ca_replies v)(i := ca_replies v i @ [answer_of q (ca_mem v)])\<rparr>"
  have "call_step answer_of new_store v ?v" by (rule call_step.call [OF q(1)])
  moreover have "follows qs w' ?v"
    unfolding follows_def call(1)
  proof (intro conjI allI)
    show "ca_mem ?v = abs_store (ca_mem (w\<lparr>ca_mem := call_mem L c (ca_mem w), ca_todo := (ca_todo w)(i := cs),
      ca_replies := (ca_replies w)(i := ca_replies w i @ [call_reply L c (ca_mem w)])\<rparr>))"
      using assms(2) spec(1) by (simp add: follows_def)
  next
    fix j
    have "\<exists>ps. qs j = ps @ ca_todo v j \<and> length (ca_replies w j) = length ps \<and>
        ca_replies v j = map2 answer_from ps (ca_replies w j)" "ca_todo w j = map (the \<circ> one_call) (ca_todo v j)"
      using assms(2) by (simp_all add: follows_def)
    moreover have "\<exists>ps. qs i = ps @ rest \<and> length (ca_replies w i @ [call_reply L c (ca_mem w)]) = length ps \<and>
        ca_replies v i @ [answer_of q (ca_mem v)] = map2 answer_from ps (ca_replies w i @ [call_reply L c (ca_mem w)])"
      using ps q(1) spec(2) assms(2) by (intro exI [of _ "ps @ [q]"]) (simp add: follows_def)
    ultimately show "ca_todo (w\<lparr>ca_mem := call_mem L c (ca_mem w), ca_todo := (ca_todo w)(i := cs),
        ca_replies := (ca_replies w)(i := ca_replies w i @ [call_reply L c (ca_mem w)])\<rparr>) j =
        map (the \<circ> one_call) (ca_todo ?v j)"
      and "\<exists>ps. qs j = ps @ ca_todo ?v j \<and>
        length (ca_replies (w\<lparr>ca_mem := call_mem L c (ca_mem w), ca_todo := (ca_todo w)(i := cs),
          ca_replies := (ca_replies w)(i := ca_replies w i @ [call_reply L c (ca_mem w)])\<rparr>) j) = length ps \<and>
        ca_replies ?v j = map2 answer_from ps (ca_replies (w\<lparr>ca_mem := call_mem L c (ca_mem w), ca_todo := (ca_todo w)(i := cs),
          ca_replies := (ca_replies w)(i := ca_replies w i @ [call_reply L c (ca_mem w)])\<rparr>) j)"
      using q(3) by (cases "j = i"; simp)+
  qed
  ultimately show ?thesis by blast
qed

lemma call_run_follows:
  assumes "(call_step (call_reply L) (call_mem L))\<^sup>*\<^sup>* (start_callers m (\<lambda>i. map (the \<circ> one_call) (qs i))) w"
    and "\<forall>i. \<forall>q \<in> set (qs i). one_call q \<noteq> None"
  shows "\<exists>v. (call_step answer_of new_store)\<^sup>*\<^sup>* (start_callers (abs_store m) qs) v \<and> follows qs w v"
  using assms(1)
proof (induction rule: rtranclp_induct)
  case base
  have "follows qs (start_callers m (\<lambda>i. map (the \<circ> one_call) (qs i))) (start_callers (abs_store m) qs)"
    by (simp add: follows_def start_callers_def)
  then show ?case by blast
next
  case (step w w')
  then obtain v where v: "(call_step answer_of new_store)\<^sup>*\<^sup>* (start_callers (abs_store m) qs) v" "follows qs w v" by blast
  from call_step_follows [OF step.hyps(2) v(2) assms(2)] v(1) show ?case by (meson rtranclp.rtrancl_into_rtrancl)
qed

section \<open>Properties\<close>

text \<open>
C5. Concurrent requests meet the specification: let goroutines execute any requests that need one method
each, interleaved access by access.  They do not race, and once all have returned there is an order of
the whole requests, each goroutine's own order kept, in which the abstract store gives every request the
answer that it got and ends as the abstraction of the store.
\<close>

theorem requests_linearizable:
  assumes "micro_step\<^sup>*\<^sup>* (start_threads m (\<lambda>i. map (\<lambda>q. micro_call L (the (one_call q))) (qs i))) y" and "mem_ok m"
    and "range_ok L" and "\<forall>i. \<forall>q \<in> set (qs i). one_call q \<noteq> None" and "all_returned y"
  shows "\<not> data_race y \<and> (\<exists>v. (call_step answer_of new_store)\<^sup>*\<^sup>* (start_callers (abs_store m) qs) v \<and>
    (\<forall>i. ca_todo v i = []) \<and> abs_store (th_mem y) = ca_mem v \<and>
    (\<forall>i. map2 answer_from (qs i) (th_replies y i) = ca_replies v i))"
proof -
  have "micro_step\<^sup>*\<^sup>* (start_threads m (\<lambda>i. map (micro_call L) (map (the \<circ> one_call) (qs i)))) y"
    using assms(1) by (simp add: comp_def)
  note run = locks.linearizable [OF this]
  then obtain w where w: "(call_step (call_reply L) (call_mem L))\<^sup>*\<^sup>* (start_callers m (\<lambda>i. map (the \<circ> one_call) (qs i))) w"
    "\<forall>i. ca_todo w i = []" "th_mem y = ca_mem w" "th_replies y = ca_replies w"
    using assms(2,3,5) by blast
  obtain v where v: "(call_step answer_of new_store)\<^sup>*\<^sup>* (start_callers (abs_store m) qs) v" "follows qs w v"
    using call_run_follows [OF w(1) assms(4)] by blast
  from v(2) w(2) have "\<forall>i. ca_todo v i = []" by (simp add: follows_def)
  moreover from this v(2) have "ca_mem v = abs_store (th_mem y)" "\<forall>i. map2 answer_from (qs i) (th_replies y i) = ca_replies v i"
    using w(3,4) by (simp_all add: follows_def)
  ultimately show ?thesis using v(1) run assms(2,3) by metis
qed

theorem requests_linearizable_witness:
  "\<exists>y (v :: (store, request, answer) callers).
     micro_step\<^sup>*\<^sup>* (start_threads (new_memory_backend 0) (\<lambda>i. map (\<lambda>q. micro_call plain_lib (the (one_call q)))
       (if i = 0 then [Add_to ''k'' 5] else if i = 1 then [Get_number ''k''] else []))) y \<and> all_returned y \<and>
     abs_store (th_mem y) = ca_mem v \<and> ca_replies v 1 = [Missing]"
proof -
  let ?qs = "\<lambda>i :: nat. if i = 0 then [Add_to ''k'' 5] else if i = 1 then [Get_number ''k''] else []"
  let ?y = "start_threads (new_memory_backend 0) (\<lambda>i. map (\<lambda>q. micro_call plain_lib (the (one_call q))) (?qs i))"
  have "\<exists>y. advances [0, 1, 1, 1, 1, 1, 0, 0, 0, 0, 0] ?y = Some y \<and> all_returned y \<and> th_replies y 1 = [Int_reply (Err ErrNotFound)]"
    by (simp add: advance_def start_threads_def micro_incr_by_def micro_get_def locked_def new_memory_backend_def all_returned_def)
  then obtain y where y: "micro_step\<^sup>*\<^sup>* ?y y" "all_returned y" "th_replies y 1 = [Int_reply (Err ErrNotFound)]"
    using advances_run by blast
  have "\<forall>i. \<forall>q \<in> set (?qs i). one_call q \<noteq> None" by simp
  from requests_linearizable [OF y(1) mem_ok_new plain_lib_range_ok this y(2)]
  obtain v :: "(store, request, answer) callers" where v: "abs_store (th_mem y) = ca_mem v"
    "\<forall>i. map2 answer_from (?qs i) (th_replies y i) = ca_replies v i" by blast
  have "ca_replies v 1 = [Missing]"
    using spec [OF v(2), of 1] y(3) by (simp add: answer_from_def reply_answer_def)
  with y(1,2) v(1) show ?thesis by blast
qed

end
