(* ===== verification/Service.thy ===== *)
theory Service
  imports Sessions Concurrent
begin

text \<open>
  The whole server as a concurrent service.  Clients that talk to the stats backend over redis are, seen
  from outside, lists of requests that are still to be served and lists of answers; one abstract step
  serves the next request of any client atomically.  The process of \<open>Server\<close> (run loops, buffers, wire
  format, dispatch and handlers) is shown to refine this service under every interleaving.
\<close>

section \<open>Requests as the server sees them\<close>

fun method_name :: "stats_method \<Rightarrow> bytes" where
  "method_name MCount = ''COUNT''"
| "method_name MCounters = ''COUNTERS''"
| "method_name MIncr = ''INCR''"
| "method_name MDecr = ''DECR''"
| "method_name MDel = ''DEL''"
| "method_name MExists = ''EXISTS''"
| "method_name MGet = ''GET''"
| "method_name MSet = ''SET''"
| "method_name MSetNx = ''SETNX''"
| "method_name MKeys = ''KEYS''"
| "method_name MSAdd = ''SADD''"
| "method_name MSRem = ''SREM''"
| "method_name MSCard = ''SCARD''"
| "method_name MSMembers = ''SMEMBERS''"
| "method_name MSDiff = ''SDIFF''"
| "method_name MSIsMember = ''SISMEMBER''"
| "method_name MSInter = ''SINTER''"
| "method_name MSUnion = ''SUNION''"

lemma method_registered: "\<exists>c. (c, h) \<in> set stats_commands \<and> cmd_name c = method_name h"
  by (cases h) (simp_all add: stats_commands_def command_def)

lemma method_name_not_quit: "method_name h \<noteq> ''QUIT''"
  by (cases h) simp_all

lemma to_upper_method: "to_upper L (method_name h) = method_name h"
proof -
  obtain c where c: "(c, h) \<in> set stats_commands" "cmd_name c = method_name h" using method_registered by blast
  then have "(c, StatsM h) \<in> set (boot_commands (default_config\<lparr>cfg_stats := True\<rparr>))" by (force simp: boot_commands_def)
  from boot_command_upper [OF this, of L] c(2) show ?thesis by simp
qed

definition wire_request :: "request \<Rightarrow> bytes list" where
  "wire_request q = method_name (method_of q) # request_args q"

definition enc_requests :: "request list \<Rightarrow> bytes" where
  "enc_requests qs = concat (map (\<lambda>q. enc_bulk (wire_request q)) qs)"

definition sendable :: "request \<Rightarrow> bool" where
  "sendable q \<longleftrightarrow> request_ok q \<and> (\<forall>d \<in> set (wire_request q). blob_ok d) \<and> length (wire_request q) * 24 \<le> 2 ^ 48"

text \<open>The registry of a server that has the stats backend.\<close>

definition offers_stats :: "'f server \<Rightarrow> bool" where
  "offers_stats s \<longleftrightarrow> (\<forall>h. ctx_commands (app_ctx s) (method_name h) = Some (StatsM h))"

lemma boot_offers_stats: "boot bind rt L now cfg = Ok s \<Longrightarrow> cfg_stats cfg \<Longrightarrow> offers_stats s"
  unfolding offers_stats_def using stats_lookup method_registered by metis

section \<open>One iteration of a run loop\<close>

lemma request_handled:
  assumes "bw_ok w" and "bw_buf w = []" and "mem_ok m" and "request_ok q"
  shows "\<exists>m' w'. stats_run (method_of q) L (ABulk (request_args q)) (m, w) = (Ok (), m', w') \<and> mem_ok m' \<and>
    abs_store m' = new_store q (abs_store m) \<and> replied w (enc_answer L (answer_of q (abs_store m))) w'"
proof -
  from stats_run_implements [OF assms(1,3,4), of L] obtain m' w' where
    out: "stats_run (method_of q) L (ABulk (request_args q)) (m, w) = (Ok (), m', w')" "abs_store m' = new_store q (abs_store m)"
    and a: "if answer_of q (abs_store m) = No_answer then w' = w else replied w (enc_answer L (answer_of q (abs_store m))) w'"
    by (auto simp: implements_def serves_def)
  have "mem_ok m'"
    using stats_run_any(1) [of "method_of q" L "ABulk (request_args q)" m w] out mem_execs_ok [OF assms(3)] by auto
  moreover have "replied w (enc_answer L (answer_of q (abs_store m))) w'"
    using a assms(1,2) by (auto simp: replied_def bw_stream_def split: if_splits)
  ultimately show ?thesis using out by blast
qed

text \<open>A loop that finds a request, and one that finds the end of the input.\<close>

lemma request_iter:
  assumes "heap s c = Some n" and "nc_live n" and "br_size (nc_reader n) = 128"
    and "br_in (nc_reader n) = enc_bulk (wire_request q) @ rest" and "sendable q"
    and "bw_ok (nc_writer n)" and "bw_buf (nc_writer n) = []" and "mem_ok (stats_mem s)" and "offers_stats s"
  shows "\<exists>m' w'. client_iter PRedis L c s = (Again,
      s\<lparr>heap := (heap s)(c \<mapsto> n\<lparr>nc_reader := (nc_reader n)\<lparr>br_in := rest\<rparr>, nc_writer := w'\<rparr>), stats_mem := m'\<rparr>) \<and>
    mem_ok m' \<and> abs_store m' = new_store q (abs_store (stats_mem s)) \<and>
    replied (nc_writer n) (enc_answer L (answer_of q (abs_store (stats_mem s)))) w'"
proof -
  have q: "request_ok q" "\<forall>d \<in> set (wire_request q). blob_ok d" "length (wire_request q) * 24 \<le> 2 ^ 48"
    using assms(5) by (simp_all add: sendable_def)
  have "read_bulk_payload (nc_reader n) = (Ok (wire_request q), (nc_reader n)\<lparr>br_in := rest\<rparr>)"
    using decodesD [OF decodes_bulk [OF q(2,3)], of 128 "nc_reader n" rest] assms(3,4) by simp
  then have r: "client_read c read_bulk_payload s =
      (Ok (wire_request q), s\<lparr>heap := (heap s)(c \<mapsto> n\<lparr>nc_reader := (nc_reader n)\<lparr>br_in := rest\<rparr>\<rparr>)\<rparr>)"
    using assms(1) by (simp add: client_read_def)
  obtain m' w' where h: "stats_run (method_of q) L (ABulk (request_args q)) (stats_mem s, nc_writer n) = (Ok (), m', w')"
    "mem_ok m'" "abs_store m' = new_store q (abs_store (stats_mem s))"
    "replied (nc_writer n) (enc_answer L (answer_of q (abs_store (stats_mem s)))) w'"
    using request_handled [OF assms(6-8) q(1)] by blast
  let ?s = "s\<lparr>heap := (heap s)(c \<mapsto> n\<lparr>nc_reader := (nc_reader n)\<lparr>br_in := rest\<rparr>\<rparr>)\<rparr>"
  let ?t = "s\<lparr>heap := (heap s)(c \<mapsto> n\<lparr>nc_reader := (nc_reader n)\<lparr>br_in := rest\<rparr>, nc_writer := w'\<rparr>), stats_mem := m'\<rparr>"
  have run: "run_method L (StatsM (method_of q)) (ABulk (request_args q)) c ?s = (Ok (), ?t)"
    using h(1) by (simp add: put_writer_def)
  have cmd: "ctx_commands (app_ctx ?s) (to_upper L (method_name (method_of q))) = Some (StatsM (method_of q))"
    using assms(9) by (simp add: offers_stats_def to_upper_method)
  have live: "live_at c ?t" using assms(2) by (simp add: live_at_def nc_live_def)
  have "redis_act L c (wire_request q) ?s = (Again, ?t)"
    unfolding wire_request_def
    by (rule redis_act_ok [OF _ cmd run live]) (simp add: to_upper_method method_name_not_quit)
  with r h(2-4) show ?thesis by (auto simp: loop_iter_def)
qed

lemma end_iter:
  assumes "heap s c = Some n" and "br_size (nc_reader n) = 128" and "br_in (nc_reader n) = []" and "br_end (nc_reader n) = EOF"
  shows "client_iter PRedis L c s = (Return, s)"
proof -
  have "read_bulk_payload (nc_reader n) = (Err EOF, nc_reader n)"
    using assms(2-4) by (simp add: rproto.recv_end)
  with assms(1) show ?thesis by (simp add: loop_iter_def client_read_def read_failed_def fun_upd_idem)
qed


section \<open>The service\<close>

record service =
  svc_store :: store
  svc_todo :: "loc \<rightharpoonup> request list"    \<comment> \<open>what each client has sent and has not been served yet\<close>
  svc_got :: "loc \<rightharpoonup> answer list"      \<comment> \<open>the answers each client has been sent\<close>

definition new_service :: service where
  "new_service = \<lparr>svc_store = empty_store, svc_todo = Map.empty, svc_got = Map.empty\<rparr>"

text \<open>
  A client connects with the requests it is going to make; the next request of any client is served,
  which is atomic; the counters are reset every now and then.
\<close>

inductive service_step :: "service \<Rightarrow> service \<Rightarrow> bool" where
  connect:
    "svc_todo v c = None \<Longrightarrow>
     service_step v (v\<lparr>svc_todo := (svc_todo v)(c \<mapsto> qs), svc_got := (svc_got v)(c \<mapsto> [])\<rparr>)"
| serve_next:
    "svc_todo v c = Some (q # qs) \<Longrightarrow> svc_got v c = Some as \<Longrightarrow>
     service_step v (v\<lparr>svc_store := new_store q (svc_store v), svc_todo := (svc_todo v)(c \<mapsto> qs),
                       svc_got := (svc_got v)(c \<mapsto> as @ [answer_of q (svc_store v)])\<rparr>)"
| flush:
    "service_step v (v\<lparr>svc_store := (svc_store v)\<lparr>tallies := (\<lambda>k. map_option (\<lambda>_. 0) (tallies (svc_store v) k))\<rparr>\<rparr>)"

inductive_cases service_stepE: "service_step v v'"

text \<open>
  A connection object shows the requests \<open>qs\<close> and answers \<open>as\<close>: the unread bytes are the requests, the
  bytes sent are the answers.  A loop that has ended has served everything.
\<close>

definition displays :: "'f golib \<Rightarrow> bool \<Rightarrow> netclient \<Rightarrow> request list \<Rightarrow> answer list \<Rightarrow> bool" where
  "displays L active n qs as \<longleftrightarrow>
     (\<forall>q \<in> set qs. sendable q) \<and> br_in (nc_reader n) = enc_requests qs \<and>
     bw_sent (nc_writer n) = concat (map (enc_answer L) as) \<and> bw_buf (nc_writer n) = [] \<and>
     (if active then bw_ok (nc_writer n) \<and> br_size (nc_reader n) = 128 \<and> br_end (nc_reader n) = EOF
      else qs = [])"

definition refines_service :: "'f golib \<Rightarrow> 'f sys \<Rightarrow> service \<Rightarrow> bool" where
  "refines_service L x v \<longleftrightarrow>
     svc_store v = abs_store (stats_mem (srv x)) \<and>
     (\<forall>c. heap (srv x) c = None \<longrightarrow> svc_todo v c = None) \<and>
     (\<forall>c n. heap (srv x) c = Some n \<longrightarrow>
        (\<exists>qs as. svc_todo v c = Some qs \<and> svc_got v c = Some as \<and> displays L (c \<in> running x) n qs as))"

definition serving :: "'f sys \<Rightarrow> bool" where
  "serving x \<longleftrightarrow> open_ok x \<and> app_protocol (srv x) = PRedis \<and> pending (srv x) = [] \<and> offers_stats (srv x)"

text \<open>
  Runs of the process in which every client that connects only makes requests of the stats backend that need
  one method of the store each.  For these \<open>Concurrent\<close> shows that executing a request in one step, as \<open>work\<close>
  does, loses no behaviour.
\<close>

definition brings_requests :: "'f sys \<Rightarrow> 'f sys \<Rightarrow> bool" where
  "brings_requests x y \<longleftrightarrow>
     (\<forall>c n. heap (srv x) c = None \<and> heap (srv y) c = Some n \<longrightarrow>
        (\<exists>qs. (\<forall>q \<in> set qs. sendable q \<and> one_call q \<noteq> None) \<and> br_in (nc_reader n) = enc_requests qs))"

inductive service_run :: "'f golib \<Rightarrow> 'f sys \<Rightarrow> 'f sys \<Rightarrow> bool" for L where
  started: "service_run L x x"
| goes_on: "service_run L x y \<Longrightarrow> step L y z \<Longrightarrow> brings_requests y z \<Longrightarrow> \<not> app_closed (srv z) \<Longrightarrow> service_run L x z"

section \<open>The simulation\<close>

lemma serving_live:
  assumes "serving x" and "c \<in> running x"
  obtains n where "heap (srv x) c = Some n" "nc_live n"
  using assms by (auto simp: serving_def open_ok_def sys_ok_def clients_ok_def live_at_def)

lemma refines_at:
  assumes "refines_service L x v" and "heap (srv x) c = Some n"
  obtains qs as where "svc_todo v c = Some qs" "svc_got v c = Some as" "displays L (c \<in> running x) n qs as"
  using assms unfolding refines_service_def by blast

lemma refines_update:
  assumes "refines_service L x v" and "displays L r n qs as"
    and "heap (srv y) = (heap (srv x))(c \<mapsto> n)" and "r = (c \<in> running y)" and "\<And>d. d \<noteq> c \<Longrightarrow> (d \<in> running y) = (d \<in> running x)"
    and "svc_store v' = abs_store (stats_mem (srv y))"
    and "svc_todo v' = (svc_todo v)(c \<mapsto> qs)" and "svc_got v' = (svc_got v)(c \<mapsto> as)"
  shows "refines_service L y v'"
  using assms unfolding refines_service_def by auto

text \<open>A run loop: it serves the next request, or it has served all of them and ends.\<close>

lemma simulate_iter:
  assumes "serving x" and "refines_service L x v" and "c \<in> running x"
    and "client_iter (app_protocol (srv x)) L c (srv x) = (out, s)"
  shows "(out = Again \<and> pending s = [] \<and> (\<exists>v'. service_step v v' \<and> refines_service L (x\<lparr>srv := s\<rparr>) v')) \<or>
    (out = Return \<and> s = srv x \<and> (\<forall>n. heap (srv x) c = Some n \<longrightarrow> nc_live n \<and> svc_todo v c = Some []))"
proof -
  obtain n where n: "heap (srv x) c = Some n" "nc_live n" by (rule serving_live [OF assms(1,3)])
  obtain qs as where v: "svc_todo v c = Some qs" "svc_got v c = Some as" and sh: "displays L (c \<in> running x) n qs as"
    by (rule refines_at [OF assms(2) n(1)])
  from sh assms(3) have r: "\<forall>q \<in> set qs. sendable q" "br_in (nc_reader n) = enc_requests qs"
    "bw_sent (nc_writer n) = concat (map (enc_answer L) as)" "bw_buf (nc_writer n) = []"
    "bw_ok (nc_writer n)" "br_size (nc_reader n) = 128" "br_end (nc_reader n) = EOF"
    by (simp_all add: displays_def)
  have x: "app_protocol (srv x) = PRedis" "pending (srv x) = []" "offers_stats (srv x)" "mem_ok (stats_mem (srv x))"
    using assms(1) by (auto simp: serving_def open_ok_def sys_ok_def backends_ok_def)
  show ?thesis
  proof (cases qs)
    case Nil
    then have "client_iter PRedis L c (srv x) = (Return, srv x)"
      using r by (intro end_iter [OF n(1)]) (simp_all add: enc_requests_def)
    with assms(4) x(1) n v(1) Nil show ?thesis by auto
  next
    case (Cons q rest)
    then have inp: "br_in (nc_reader n) = enc_bulk (wire_request q) @ enc_requests rest" and q: "sendable q"
      using r(1,2) by (simp_all add: enc_requests_def)
    let ?st = "abs_store (stats_mem (srv x))"
    obtain m' w' where it: "client_iter PRedis L c (srv x) = (Again, (srv x)\<lparr>heap := (heap (srv x))
        (c \<mapsto> n\<lparr>nc_reader := (nc_reader n)\<lparr>br_in := enc_requests rest\<rparr>, nc_writer := w'\<rparr>), stats_mem := m'\<rparr>)"
      "abs_store m' = new_store q ?st" "replied (nc_writer n) (enc_answer L (answer_of q ?st)) w'"
      using request_iter [OF n r(6) inp q r(5,4) x(4,3), of L] by blast
    from it(1) assms(4) x(1) have out: "out = Again" "s = (srv x)\<lparr>heap := (heap (srv x))
        (c \<mapsto> n\<lparr>nc_reader := (nc_reader n)\<lparr>br_in := enc_requests rest\<rparr>, nc_writer := w'\<rparr>), stats_mem := m'\<rparr>" by simp_all
    let ?n = "n\<lparr>nc_reader := (nc_reader n)\<lparr>br_in := enc_requests rest\<rparr>, nc_writer := w'\<rparr>"
    let ?v = "v\<lparr>svc_store := new_store q (svc_store v), svc_todo := (svc_todo v)(c \<mapsto> rest),
        svc_got := (svc_got v)(c \<mapsto> as @ [answer_of q (svc_store v)])\<rparr>"
    have st: "svc_store v = ?st" using assms(2) by (simp add: refines_service_def)
    have "service_step v ?v" using v Cons by (intro service_step.serve_next) simp_all
    moreover have "displays L True ?n rest (as @ [answer_of q (svc_store v)])"
      using it(3) r Cons st by (simp add: displays_def replied_def bw_stream_def)
    then have "refines_service L (x\<lparr>srv := s\<rparr>) ?v"
      by (rule refines_update [OF assms(2)]) (use out assms(3) it(2) st in simp_all)
    ultimately show ?thesis using out x(2) by auto
  qed
qed


lemma serving_keeps:
  assumes "serving x" and "step L x y" and "\<not> app_closed (srv y)"
    and "app_protocol (srv y) = app_protocol (srv x)" and "ctx_commands (app_ctx (srv y)) = ctx_commands (app_ctx (srv x))"
    and "pending (srv y) = []"
  shows "serving y"
  using assms step_sys_ok [OF assms(2)] by (simp add: serving_def open_ok_def offers_stats_def)

lemma abs_flush_counters:
  "abs_store (flush_counters L now m) =
     (abs_store m)\<lparr>tallies := (\<lambda>k. map_option (\<lambda>_. 0) (tallies (abs_store m) k))\<rparr>"
  by (simp add: abs_store_def flush_counters_def flush_counter_def Let_def fun_eq_iff option.map_comp comp_def)

lemma simulate_work:
  assumes "serving x" and "refines_service L x v" and "work L x y" and "\<not> app_closed (srv y)"
  shows "serving y \<and> (\<exists>v'. service_step\<^sup>=\<^sup>= v v' \<and> refines_service L y v')"
  using assms(3)
proof cases
  case (request c s)
  have "calm (srv x) s" using client_iter_calm [of "srv x" "app_protocol (srv x)" L c] request(4) by simp
  then have "serving y" if "pending s = []"
    using serving_keeps [OF assms(1) step.work [OF assms(3)] assms(4)] that request(1) by (simp add: calm_def same_app_def)
  with simulate_iter [OF assms(1,2) request(3,4)] request(1) show ?thesis by blast
next
  case (finish c out s d s')
  from simulate_iter [OF assms(1,2) finish(3,4)] finish(5)
  have out: "out = Return" "s = srv x" "\<forall>n. heap (srv x) c = Some n \<longrightarrow> nc_live n \<and> svc_todo v c = Some []" by blast+
  obtain n where n: "heap (srv x) c = Some n" by (rule serving_live [OF assms(1) finish(3)])
  with out(3) have live: "nc_live n" and todo: "svc_todo v c = Some []" by blast+
  obtain as where as: "svc_got v c = Some as" "displays L (c \<in> running x) n [] as"
    using refines_at [OF assms(2) n] todo by (metis option.inject)
  let ?n = "(conn_close n)\<lparr>nc_quit_closed := True, nc_reqerr_closed := True\<rparr>"
  have "run_deferred c (Return, srv x) = (None, (srv x)\<lparr>heap := (heap (srv x))(c \<mapsto> ?n)\<rparr>)"
    using n live by (simp add: run_deferred_def close_client_def nc_close_live)
  with finish(6) out have s': "d = None" "s' = (srv x)\<lparr>heap := (heap (srv x))(c \<mapsto> ?n)\<rparr>" by simp_all
  have y: "srv y = s'" "running y = running x - {c}" using finish(1) by simp_all
  have "displays L False ?n [] as" using as(2) by (simp add: displays_def conn_close_def)
  then have "refines_service L y v"
    by (rule refines_update [OF assms(2)])
       (use y s' todo as(1) assms(2) in \<open>auto simp: refines_service_def fun_upd_idem\<close>)
  moreover have "serving y"
    using serving_keeps [OF assms(1) step.work [OF assms(3)] assms(4)] y s' assms(1) by (simp add: serving_def)
  ultimately show ?thesis by blast
next
  case (reap c n)
  have y: "srv y = reap_client c (srv x)" "running y = running x" using reap(1) by simp_all
  then have "refines_service L y v"
    using assms(2) reap(4) by (simp add: refines_service_def reap_client_def)
  moreover have "serving y"
    using serving_keeps [OF assms(1) step.work [OF assms(3)] assms(4)] y reap(4) assms(1) by (simp add: serving_def reap_client_def)
  ultimately show ?thesis by blast
next
  case (send i c d)
  then show ?thesis using assms(1) by (simp add: serving_def)
qed

lemma simulate_step:
  assumes "serving x" and "refines_service L x v" and "step L x y" and "brings_requests x y" and "\<not> app_closed (srv y)"
  shows "serving y \<and> (\<exists>v'. service_step\<^sup>=\<^sup>= v v' \<and> refines_service L y v')"
  using assms(3)
proof cases
  case work
  then show ?thesis by (rule simulate_work [OF assms(1,2) _ assms(5)])
next
  case (accept c addr input)
  let ?n = "nc_initialize addr input 128"
  have y: "heap (srv y) = (heap (srv x))(c \<mapsto> ?n)" "running y = insert c (running x)" "stats_mem (srv y) = stats_mem (srv x)"
    using accept(1) by (simp_all add: accept_connection_def handle_connection_eq Let_def)
  have "br_in (nc_reader ?n) = input" by (simp add: nc_initialize_def new_reader_def)
  have "heap (srv x) c = None \<and> heap (srv y) c = Some ?n" using y(1) accept(5) by simp
  with assms(4) have "\<exists>qs. (\<forall>q \<in> set qs. sendable q \<and> one_call q \<noteq> None) \<and> br_in (nc_reader ?n) = enc_requests qs"
    unfolding brings_requests_def by blast
  then obtain qs where qs: "\<forall>q \<in> set qs. sendable q" "input = enc_requests qs"
    by (auto simp: nc_initialize_def new_reader_def)
  let ?v = "v\<lparr>svc_todo := (svc_todo v)(c \<mapsto> qs), svc_got := (svc_got v)(c \<mapsto> [])\<rparr>"
  have "svc_todo v c = None" using assms(2) accept(5) by (simp add: refines_service_def)
  then have "service_step v ?v" by (rule service_step.connect)
  moreover have "displays L True ?n qs []"
    using qs by (simp add: displays_def nc_initialize_def new_reader_def new_writer_def bw_ok_def)
  then have "refines_service L y ?v"
    by (rule refines_update [OF assms(2)]) (use y assms(2) in \<open>auto simp: refines_service_def\<close>)
  moreover have "serving y"
    using serving_keeps [OF assms(1,3,5)] accept(1) assms(1)
    by (simp add: serving_def accept_connection_def Let_def)
  ultimately show ?thesis by blast
next
  case (tick now)
  let ?v = "v\<lparr>svc_store := (svc_store v)\<lparr>tallies := (\<lambda>k. map_option (\<lambda>_. 0) (tallies (svc_store v) k))\<rparr>\<rparr>"
  have "refines_service L y ?v"
    using assms(2) tick(1) by (simp add: refines_service_def abs_flush_counters)
  moreover have "serving y"
    using serving_keeps [OF assms(1,3,5)] tick(1) assms(1) by (simp add: serving_def)
  ultimately show ?thesis using service_step.flush by blast
next
  case (shutdown d s k)
  then show ?thesis using app_close_rest(2) [OF shutdown(4)] assms(5) by (simp add: cut_inputs_def)
qed

lemma service_run_refines:
  assumes "service_run L x y" and "serving x" and "refines_service L x v"
  shows "serving y \<and> (\<exists>v'. service_step\<^sup>*\<^sup>* v v' \<and> refines_service L y v')"
  using assms
proof (induction rule: service_run.induct)
  case (goes_on x y z)
  then obtain v1 where v1: "serving y" "service_step\<^sup>*\<^sup>* v v1" "refines_service L y v1" by blast
  obtain v2 where v2: "serving z" "service_step\<^sup>=\<^sup>= v1 v2" "refines_service L z v2"
    using simulate_step [OF v1(1,3) goes_on(2-4)] by blast
  from v1(2) v2(2) have "service_step\<^sup>*\<^sup>* v v2" by auto
  with v2 show ?case by blast
qed blast

lemma start_serving:
  assumes "boot bind rt L now cfg = Ok s" and "cfg_stats cfg" and "cfg_bprotocol cfg = ''redis''"
  shows "serving (start s)" "refines_service L (start s) new_service"
proof -
  note b = boot_Ok [OF assms(1)]
  have "offers_stats s" using boot_offers_stats [OF assms(1,2)] .
  then show "serving (start s)"
    using boot_sys_ok [OF assms(1)] b assms(3) by (simp add: serving_def open_ok_def start_def offers_stats_def main_protocol_def)
  show "refines_service L (start s) new_service"
    using b assms(2) by (simp add: refines_service_def start_def new_service_def abs_store_new)
qed


section \<open>One client alone\<close>

lemma run_requests:
  assumes "heap s c = Some n" and "nc_live n" and "displays L True n qs as" and "mem_ok (stats_mem s)" and "offers_stats s"
    and "length qs < k"
  shows "\<exists>m w. run_loop (client_iter PRedis L c) k s = (Return,
      s\<lparr>heap := (heap s)(c \<mapsto> n\<lparr>nc_reader := (nc_reader n)\<lparr>br_in := []\<rparr>, nc_writer := w\<rparr>), stats_mem := m\<rparr>) \<and>
    bw_sent w = bw_sent (nc_writer n) @ concat (map (enc_answer L) (answers qs (abs_store (stats_mem s)))) \<and>
    abs_store m = final_store qs (abs_store (stats_mem s))"
  using assms
proof (induction qs arbitrary: s n as k)
  case Nil
  then obtain j where k: "k = Suc j" by (cases k) auto
  have "client_iter PRedis L c s = (Return, s)"
    using Nil by (intro end_iter [OF Nil.prems(1)]) (simp_all add: displays_def enc_requests_def)
  moreover have "nc_reader n = (nc_reader n)\<lparr>br_in := []\<rparr>" using Nil.prems(3) by (simp add: displays_def enc_requests_def)
  ultimately show ?case using Nil.prems(1) k by (intro exI [of _ "stats_mem s"] exI [of _ "nc_writer n"]) (simp add: fun_upd_idem)
next
  case (Cons q qs)
  then obtain j where k: "k = Suc j" "length qs < j" by (cases k) auto
  from Cons.prems(3) have d: "\<forall>q \<in> set qs. sendable q" "sendable q" "bw_sent (nc_writer n) = concat (map (enc_answer L) as)"
    "bw_buf (nc_writer n) = []" "bw_ok (nc_writer n)" "br_size (nc_reader n) = 128" "br_end (nc_reader n) = EOF"
    "br_in (nc_reader n) = enc_bulk (wire_request q) @ enc_requests qs" by (simp_all add: displays_def enc_requests_def)
  let ?st = "abs_store (stats_mem s)"
  obtain m w where it: "client_iter PRedis L c s = (Again,
      s\<lparr>heap := (heap s)(c \<mapsto> n\<lparr>nc_reader := (nc_reader n)\<lparr>br_in := enc_requests qs\<rparr>, nc_writer := w\<rparr>), stats_mem := m\<rparr>)"
    "mem_ok m" "abs_store m = new_store q ?st" "replied (nc_writer n) (enc_answer L (answer_of q ?st)) w"
    using request_iter [OF Cons.prems(1,2) d(6,8,2,5,4) Cons.prems(4,5), of L] by blast
  let ?n = "n\<lparr>nc_reader := (nc_reader n)\<lparr>br_in := enc_requests qs\<rparr>, nc_writer := w\<rparr>"
  let ?s = "s\<lparr>heap := (heap s)(c \<mapsto> ?n), stats_mem := m\<rparr>"
  have sh: "displays L True ?n qs (as @ [answer_of q ?st])"
    using d it(4) by (simp add: displays_def replied_def bw_stream_def)
  have s: "heap ?s c = Some ?n" "nc_live ?n" "mem_ok (stats_mem ?s)" "offers_stats ?s"
    using Cons.prems(2,5) it(2) by (simp_all add: nc_live_def offers_stats_def)
  from Cons.IH [OF s(1,2) sh s(3,4) k(2)] obtain m' w' where "run_loop (client_iter PRedis L c) j ?s = (Return,
      ?s\<lparr>heap := (heap ?s)(c \<mapsto> ?n\<lparr>nc_reader := (nc_reader ?n)\<lparr>br_in := []\<rparr>, nc_writer := w'\<rparr>), stats_mem := m'\<rparr>)"
    "bw_sent w' = bw_sent (nc_writer ?n) @ concat (map (enc_answer L) (answers qs (abs_store (stats_mem ?s))))"
    "abs_store m' = final_store qs (abs_store (stats_mem ?s))"
    by blast
  with it k show ?case
    by (intro exI [of _ m'] exI [of _ w']) (simp add: replied_def bw_stream_def d(4) del: fun_upd_apply)
qed

lemma length_enc_requests: "length qs \<le> length (enc_requests qs)"
  by (induction qs) (auto simp: enc_requests_def enc_bulk_def enc_line_def)

text \<open>
  \<open>asks L q cmd\<close>: the call \<open>WriteCommand(cmd, args)\<close> of a client sends the request \<open>q\<close>; the name may be in any
  case, and numbers may be given as integers or as text.
\<close>

definition asks :: "'f golib \<Rightarrow> request \<Rightarrow> 'f command_call \<Rightarrow> bool" where
  "asks L q cmd \<longleftrightarrow> sendable q \<and> bulk_request L cmd = wire_request q"

lemma client_sends_requests:
  assumes "list_all2 (asks L) qs cmds"
  shows "client_sends (\<lambda>q. redis_write_command L (fst q) (snd q)) cmds = enc_requests qs" "\<forall>q \<in> set qs. sendable q"
proof -
  have "concat (map (\<lambda>q. enc_bulk (bulk_request L q)) cmds) = enc_requests qs"
    using assms by induction (simp_all add: enc_requests_def asks_def)
  then show "client_sends (\<lambda>q. redis_write_command L (fst q) (snd q)) cmds = enc_requests qs"
    unfolding client_sends_emits [OF rcmd.send_emits] .
  show "\<forall>q \<in> set qs. sendable q" using assms by induction (simp_all add: asks_def)
qed

lemma session_answers:
  assumes "boot bind rt L now cfg = Ok s" and "cfg_stats cfg" and "cfg_bprotocol cfg = ''redis''"
    and "\<forall>q \<in> set qs. sendable q"
  shows "\<exists>t n. run_client PRedis L 0 (srv (first_connection addr (enc_requests qs) s)) = (None, t) \<and> heap t 0 = Some n \<and>
    nc_quit_closed n \<and> bw_sent (nc_writer n) = concat (map (enc_answer L) (answers qs empty_store)) \<and>
    abs_store (stats_mem t) = final_store qs empty_store"
proof -
  let ?x = "srv (first_connection addr (enc_requests qs) s)" and ?n = "nc_initialize addr (enc_requests qs) 128"
  note b = boot_Ok [OF assms(1)]
  have x: "heap ?x 0 = Some ?n" "stats_mem ?x = new_memory_backend now" "offers_stats ?x"
    using b boot_offers_stats [OF assms(1,2)] assms(2)
    by (simp_all add: first_connection_def accept_connection_def handle_connection_eq offers_stats_def Let_def)
  have live: "nc_live ?n" by simp
  have d: "displays L True ?n qs []"
    using assms(4) by (simp add: displays_def nc_initialize_def new_reader_def new_writer_def bw_ok_def)
  have "length qs < Suc (input_left 0 ?x)"
    using length_enc_requests [of qs] x(1) by (simp add: input_left_def nc_initialize_def new_reader_def)
  from run_requests [OF x(1) live d _ x(3) this] x(2) obtain m w where
    run: "run_loop (client_iter PRedis L 0) (Suc (input_left 0 ?x)) ?x = (Return,
        ?x\<lparr>heap := (heap ?x)(0 \<mapsto> ?n\<lparr>nc_reader := (nc_reader ?n)\<lparr>br_in := []\<rparr>, nc_writer := w\<rparr>), stats_mem := m\<rparr>)"
    and w: "bw_sent w = concat (map (enc_answer L) (answers qs empty_store))" "abs_store m = final_store qs empty_store"
    by (auto simp: abs_store_new nc_initialize_def new_writer_def)
  have "nc_live (?n\<lparr>nc_reader := (nc_reader ?n)\<lparr>br_in := []\<rparr>, nc_writer := w\<rparr>)" using live by (simp add: nc_live_def)
  with run w show ?thesis
    by (simp add: run_client_def run_deferred_def close_client_def nc_close_live conn_close_def del: run_loop.simps)
qed


section \<open>Properties\<close>



lemma first_connection_run:
  assumes "boot bind rt L now cfg = Ok s" and "\<forall>q \<in> set qs. sendable q \<and> one_call q \<noteq> None"
  shows "service_run L (start s) (first_connection addr (enc_requests qs) s)"
proof -
  let ?y = "first_connection addr (enc_requests qs) s"
  note b = boot_Ok [OF assms(1)]
  have "step L (start s) ((start s)\<lparr>srv := accept_connection addr (enc_requests qs) 0 (srv (start s)),
      running := insert 0 (running (start s)), watching := insert 0 (watching (start s))\<rparr>)"
    using b by (intro step.accept) (simp_all add: start_def addr_free_def)
  then have "step L (start s) ?y" by (simp add: start_def first_connection_def)
  moreover have "brings_requests (start s) ?y"
    unfolding brings_requests_def
  proof (intro allI impI)
    fix c n assume "heap (srv (start s)) c = None \<and> heap (srv ?y) c = Some n"
    then have "n = nc_initialize addr (enc_requests qs) 128"
      using b by (simp add: start_def first_connection_def accept_connection_def handle_connection_eq Let_def split: if_splits)
    with assms(2) show "\<exists>qs. (\<forall>q \<in> set qs. sendable q \<and> one_call q \<noteq> None) \<and> br_in (nc_reader n) = enc_requests qs"
      by (auto simp: nc_initialize_def new_reader_def)
  qed
  moreover have "\<not> app_closed (srv ?y)" using b by (simp add: first_connection_def accept_connection_def Let_def)
  ultimately show ?thesis by (blast intro: service_run.intros)
qed

definition stats_config_on :: config where
  "stats_config_on = default_config\<lparr>cfg_stats := True\<rparr>"

lemma boot_stats: "\<exists>s. boot (\<lambda>_. None) rt_idle plain_lib 0 stats_config_on = Ok s"
  by (rule boot_total [of _ PRedis]) (simp add: stats_config_on_def default_config_def main_protocol_def)

lemma stats_config_on: "cfg_stats stats_config_on" "cfg_bprotocol stats_config_on = ''redis''"
  by (simp_all add: stats_config_on_def default_config_def)

lemma sendable_set_get: "sendable (Set_number ''k'' 7)" "sendable (Get_number ''k'')"
  using length_append_int [of 7] by (simp_all add: sendable_def wire_request_def blob_ok_def)


end
