(* ===== verification/GoClient.thy ===== *)
theory GoClient
  imports Protocols
begin

text \<open>
  \<open>client/go/broadcast/client.go\<close>: the pooled client.  A \<open>ClientConnection\<close> is an object that the pool
  and a caller may both hold, so connections live in a store; the pool is the list of the idle ones.
  What a new TCP connection brings (an error of \<open>net.DialTCP\<close>, or the address and the bytes the server
  is going to send on it) is an argument of the operations that may dial.
\<close>

section \<open>Connections\<close>

record connection =
  cc_bprotocol :: bytes
  cc_addr :: address
  cc_net :: "netclient option"      \<comment> \<open>\<open>netClient\<close>; \<open>None\<close> is nil\<close>
  cc_last_active :: int

definition nil_panic :: string where
  "nil_panic = ''runtime error: invalid memory address or nil pointer dereference''"

type_synonym dial = "gerr + address \<times> bytes"

text \<open>\<open>newClient\<close>: every protocol's client is a \<open>NetworkClient\<close> with 128-byte buffers.\<close>

definition cc_new_client :: "bytes \<Rightarrow> address \<times> bytes \<Rightarrow> netclient" where
  "cc_new_client bprotocol peer =
     (if bprotocol = ''redis'' then new_redis_client (fst peer) (snd peer)
      else if bprotocol = ''line'' then new_line_client (fst peer) (snd peer)
      else new_network_client (fst peer) (snd peer))"

definition cc_connect :: "dial \<Rightarrow> connection \<Rightarrow> gerr option \<times> connection" where
  "cc_connect d c =
     (case cc_net c of
        Some _ \<Rightarrow> (None, c)
      | None \<Rightarrow>
          (case d of
             Inl e \<Rightarrow> (Some e, c)
           | Inr peer \<Rightarrow> (None, c\<lparr>cc_net := Some (cc_new_client (cc_bprotocol c) peer)\<rparr>)))"

text \<open>\<open>finalize\<close>; the first component is a panic of \<open>Close\<close>.\<close>

definition cc_finalize :: "connection \<Rightarrow> string option \<times> connection" where
  "cc_finalize c =
     (case cc_net c of
        None \<Rightarrow> (None, c)
      | Some n \<Rightarrow>
          (case fst (nc_close n) of
             Panic p \<Rightarrow> (Some p, c\<lparr>cc_net := Some (snd (nc_close n))\<rparr>)
           | _ \<Rightarrow> (None, c\<lparr>cc_net := None\<rparr>)))"

text \<open>\<open>WriteCommand\<close> of the client that \<open>newClient\<close> makes.\<close>

definition net_write_command :: "'f golib \<Rightarrow> bytes \<Rightarrow> bytes \<Rightarrow> 'f gval list \<Rightarrow> bufwriter \<Rightarrow>
    gerr option \<times> bufwriter" where
  "net_write_command L bprotocol =
     (if bprotocol = ''redis'' then redis_write_command L
      else if bprotocol = ''line'' then line_write_command L
      else write_command L)"

text \<open>An error that makes a method call \<open>finalize\<close> and return it; a panic there wins.\<close>

definition fail_with :: "gerr \<Rightarrow> connection \<Rightarrow> 'a res \<times> connection" where
  "fail_with e c = (case cc_finalize c of (None, c') \<Rightarrow> (Err e, c') | (Some p, c') \<Rightarrow> (Panic p, c'))"

definition cc_do_async :: "'f golib \<Rightarrow> dial \<Rightarrow> bytes \<Rightarrow> 'f gval list \<Rightarrow> connection \<Rightarrow> unit res \<times> connection"
where
  "cc_do_async L d cmd args c =
     (case cc_connect d c of
        (Some e, c1) \<Rightarrow> (Err e, c1)
      | (None, c1) \<Rightarrow>
          (case cc_net c1 of
             None \<Rightarrow> (Panic nil_panic, c1)
           | Some n \<Rightarrow>
               (case net_write_command L (cc_bprotocol c1) cmd args (nc_writer n) of
                  (Some e, w) \<Rightarrow> fail_with e (c1\<lparr>cc_net := Some (n\<lparr>nc_writer := w\<rparr>)\<rparr>)
                | (None, w) \<Rightarrow>
                    (case bw_flush w of
                       (Some e, w') \<Rightarrow> fail_with e (c1\<lparr>cc_net := Some (n\<lparr>nc_writer := w'\<rparr>)\<rparr>)
                     | (None, w') \<Rightarrow> (Ok (), c1\<lparr>cc_net := Some (n\<lparr>nc_writer := w'\<rparr>)\<rparr>)))))"

definition cc_read :: "'f golib \<Rightarrow> connection \<Rightarrow> 'f gval res \<times> connection" where
  "cc_read L c =
     (case cc_net c of
        None \<Rightarrow> (Panic nil_panic, c)
      | Some n \<Rightarrow>
          (case read_interface L (nc_reader n) of
             (Ok v, r) \<Rightarrow> (Ok v, c\<lparr>cc_net := Some (n\<lparr>nc_reader := r\<rparr>)\<rparr>)
           | (Err e, r) \<Rightarrow> fail_with e (c\<lparr>cc_net := Some (n\<lparr>nc_reader := r\<rparr>)\<rparr>)
           | (Panic p, r) \<Rightarrow> (Panic p, c\<lparr>cc_net := Some (n\<lparr>nc_reader := r\<rparr>)\<rparr>)))"

definition cc_do :: "'f golib \<Rightarrow> dial \<Rightarrow> bytes \<Rightarrow> 'f gval list \<Rightarrow> connection \<Rightarrow> 'f gval res \<times> connection" where
  "cc_do L d cmd args c =
     (case cc_do_async L d cmd args c of
        (Err e, c') \<Rightarrow> (Err e, c')
      | (Panic p, c') \<Rightarrow> (Panic p, c')
      | (Ok _, c') \<Rightarrow> cc_read L c')"

section \<open>The pool\<close>

record pool =
  pl_bprotocol :: bytes
  pl_addr :: address
  pl_max_idle :: int
  pl_idle :: "loc list"                  \<comment> \<open>\<open>connections\<close>, front first\<close>
  pl_store :: "loc \<rightharpoonup> connection"
  pl_next :: loc                         \<comment> \<open>where the next connection is allocated\<close>

text \<open>The struct that \<open>NewClient\<close> fills.\<close>

definition new_pool :: "int64 \<Rightarrow> bytes \<Rightarrow> int \<Rightarrow> bytes \<Rightarrow> pool" where
  "new_pool port host max_idle bprotocol =
     \<lparr>pl_bprotocol = bprotocol, pl_addr = host @ '':'' @ append_int port, pl_max_idle = max_idle,
      pl_idle = [], pl_store = Map.empty, pl_next = 0\<rparr>"

text \<open>\<open>NewClient\<close>; \<open>resolve\<close> is the outcome of \<open>net.ResolveTCPAddr\<close> on the address.\<close>

definition new_client :: "(address \<Rightarrow> gerr option) \<Rightarrow> int64 \<Rightarrow> bytes \<Rightarrow> int \<Rightarrow> bytes \<Rightarrow> pool res" where
  "new_client resolve port host max_idle bprotocol =
     (case resolve (host @ '':'' @ append_int port) of
        Some e \<Rightarrow> Err e
      | None \<Rightarrow> Ok (new_pool port host max_idle bprotocol))"

definition pool_get :: "pool \<Rightarrow> loc \<times> pool" where
  "pool_get p =
     (case pl_idle p of
        [] \<Rightarrow>
          (pl_next p,
           p\<lparr>pl_store := (pl_store p)(pl_next p \<mapsto>
               \<lparr>cc_bprotocol = pl_bprotocol p, cc_addr = pl_addr p, cc_net = None, cc_last_active = 0\<rparr>),
             pl_next := pl_next p + 1\<rparr>)
      | c # cs \<Rightarrow> (c, p\<lparr>pl_idle := cs\<rparr>))"

text \<open>\<open>put\<close>; \<open>now\<close> is the time of the call.  The first component is a panic of \<open>finalize\<close>.\<close>

definition pool_put :: "int \<Rightarrow> loc \<Rightarrow> pool \<Rightarrow> string option \<times> pool" where
  "pool_put now c p =
     (case pl_store p c of
        None \<Rightarrow> (None, p)
      | Some x \<Rightarrow>
          if int (length (pl_idle p)) \<ge> pl_max_idle p then
            (case cc_finalize x of (r, x') \<Rightarrow> (r, p\<lparr>pl_store := (pl_store p)(c \<mapsto> x')\<rparr>))
          else
            (None, p\<lparr>pl_store := (pl_store p)(c \<mapsto> x\<lparr>cc_last_active := now\<rparr>), pl_idle := c # pl_idle p\<rparr>))"

text \<open>A method call on the connection at a location.\<close>

definition with_conn :: "(connection \<Rightarrow> 'a res \<times> connection) \<Rightarrow> loc \<Rightarrow> pool \<Rightarrow> 'a res \<times> pool" where
  "with_conn f c p =
     (case pl_store p c of
        None \<Rightarrow> (Panic nil_panic, p)
      | Some x \<Rightarrow> (case f x of (r, x') \<Rightarrow> (r, p\<lparr>pl_store := (pl_store p)(c \<mapsto> x')\<rparr>)))"

definition client_do :: "'f golib \<Rightarrow> dial \<Rightarrow> int \<Rightarrow> bytes \<Rightarrow> 'f gval list \<Rightarrow> pool \<Rightarrow> 'f gval res \<times> pool" where
  "client_do L d now cmd args p =
     (let (c, p1) = pool_get p;
          (reply, p2) = with_conn (cc_do L d cmd args) c p1
      in case reply of
           Panic q \<Rightarrow> (Panic q, p2)
         | _ \<Rightarrow>
             (case pool_put now c p2 of
                (Some q, p3) \<Rightarrow> (Panic q, p3)
              | (None, p3) \<Rightarrow> (reply, p3)))"

text \<open>\<open>Client.DoAsync\<close> takes a connection from the pool and does not put it back.\<close>

definition client_do_async :: "'f golib \<Rightarrow> dial \<Rightarrow> bytes \<Rightarrow> 'f gval list \<Rightarrow> pool \<Rightarrow> unit res \<times> pool" where
  "client_do_async L d cmd args p =
     (let (c, p1) = pool_get p in with_conn (cc_do_async L d cmd args) c p1)"

text \<open>\<open>Client.Close\<close>: finalize and drop every idle connection.\<close>

fun close_idle :: "loc list \<Rightarrow> pool \<Rightarrow> string option \<times> pool" where
  "close_idle [] p = (None, p\<lparr>pl_idle := []\<rparr>)"
| "close_idle (c # cs) p =
     (let p1 = p\<lparr>pl_idle := cs\<rparr> in
      case pl_store p1 c of
        None \<Rightarrow> close_idle cs p1
      | Some x \<Rightarrow>
          (case cc_finalize x of
             (Some q, x') \<Rightarrow> (Some q, p1\<lparr>pl_store := (pl_store p1)(c \<mapsto> x')\<rparr>)
           | (None, x') \<Rightarrow> close_idle cs (p1\<lparr>pl_store := (pl_store p1)(c \<mapsto> x')\<rparr>)))"

definition client_close :: "pool \<Rightarrow> string option \<times> pool" where
  "client_close p = close_idle (pl_idle p) p"

section \<open>The invariant of the pool\<close>

text \<open>
  The idle connections are distinct, exist, are at most \<open>maxIdle\<close>, and every connection that has a
  network client has a live one; nothing has been allocated at the next location.
\<close>

definition conn_ok :: "connection \<Rightarrow> bool" where
  "conn_ok x \<longleftrightarrow> (\<forall>n. cc_net x = Some n \<longrightarrow> nc_live n)"

definition pool_ok :: "pool \<Rightarrow> bool" where
  "pool_ok p \<longleftrightarrow>
     distinct (pl_idle p) \<and> set (pl_idle p) \<subseteq> dom (pl_store p) \<and>
     (pl_idle p = [] \<or> int (length (pl_idle p)) \<le> pl_max_idle p) \<and>
     (\<forall>c x. pl_store p c = Some x \<longrightarrow> conn_ok x) \<and> (\<forall>c. pl_next p \<le> c \<longrightarrow> pl_store p c = None)"

lemma pool_ok_new: "pool_ok (new_pool port host k b)"
  by (simp add: pool_ok_def new_pool_def)

lemma conn_ok_finalize:
  assumes "conn_ok x"
  shows "cc_finalize x = (None, x\<lparr>cc_net := None\<rparr>)"
proof (cases "cc_net x")
  case (Some n)
  with assms have "nc_live n" by (simp add: conn_ok_def)
  with Some nc_close_live [of n] show ?thesis by (simp add: cc_finalize_def)
qed (simp add: cc_finalize_def)

lemma conn_ok_net [simp]: "conn_ok (x\<lparr>cc_net := None\<rparr>)" "conn_ok (x\<lparr>cc_last_active := t\<rparr>) = conn_ok x"
  "conn_ok (x\<lparr>cc_net := Some n\<rparr>) = nc_live n"
  by (simp_all add: conn_ok_def)

lemma fail_with_ok: "conn_ok x \<Longrightarrow> fail_with e x = (Err e, x\<lparr>cc_net := None\<rparr>)"
  by (simp add: fail_with_def conn_ok_finalize)

lemma live_fields [simp]: "nc_live (n\<lparr>nc_writer := w\<rparr>) = nc_live n" "nc_live (n\<lparr>nc_reader := r\<rparr>) = nc_live n"
  by (simp_all add: nc_live_def)

lemma cc_connect_ok: "conn_ok x \<Longrightarrow> conn_ok (snd (cc_connect d x))"
  by (auto simp: cc_connect_def cc_new_client_def new_network_client_def split: option.split sum.split)

lemma cc_do_async_ok:
  assumes "conn_ok x"
  shows "conn_ok (snd (cc_do_async L d cmd args x))" "fst (cc_do_async L d cmd args x) \<noteq> Panic q"
proof -
  obtain r y where y: "cc_connect d x = (r, y)" by fastforce
  with cc_connect_ok [OF assms, of d] have ok: "conn_ok y" by simp
  have net: "r = None \<Longrightarrow> \<exists>n. cc_net y = Some n \<and> nc_live n"
    using y ok by (auto simp: cc_connect_def conn_ok_def split: option.splits sum.splits)
  show "conn_ok (snd (cc_do_async L d cmd args x))" "fst (cc_do_async L d cmd args x) \<noteq> Panic q"
    using y ok net by (cases r; auto simp: cc_do_async_def fail_with_ok split: prod.split option.split)+
qed


lemma cc_do_async_net:
  assumes "conn_ok x" and "cc_do_async L d cmd args x = (Ok u, y)"
  obtains n where "cc_net y = Some n" and "nc_live n"
proof -
  have "\<exists>n. cc_net y = Some n"
    using assms(2) by (auto simp: cc_do_async_def fail_with_def split: prod.splits option.splits)
  moreover have "conn_ok y" using cc_do_async_ok(1) [OF assms(1), of L d cmd args] assms(2) by simp
  ultimately show ?thesis using that by (auto simp: conn_ok_def)
qed

lemma cc_do_async_err:
  assumes "conn_ok x" and "cc_do_async L d cmd args x = (Err e, y)"
  shows "cc_net y = None"
proof -
  obtain r z where z: "cc_connect d x = (r, z)" by fastforce
  with cc_connect_ok [OF assms(1), of d] have ok: "conn_ok z" by simp
  have none: "r = Some f \<Longrightarrow> cc_net z = None" for f
    using z by (auto simp: cc_connect_def split: option.splits sum.splits)
  have live: "cc_net z = Some n \<Longrightarrow> nc_live n" for n using ok by (simp add: conn_ok_def)
  show ?thesis
    using assms(2) z none live by (cases r) (auto simp: cc_do_async_def fail_with_ok split: prod.splits option.splits)
qed

lemma cc_read_ok:
  assumes "conn_ok x"
  shows "conn_ok (snd (cc_read L x))"
  using assms by (auto simp: cc_read_def conn_ok_def fail_with_ok split: option.split prod.split res.split)

lemma cc_read_err: "conn_ok x \<Longrightarrow> cc_read L x = (Err e, y) \<Longrightarrow> cc_net y = None"
  by (auto simp: cc_read_def conn_ok_def fail_with_ok split: option.splits prod.splits res.splits)

lemma cc_do_ok: "conn_ok x \<Longrightarrow> conn_ok (snd (cc_do L d cmd args x))"
  using cc_do_async_ok(1) [of x L d cmd args] cc_read_ok
  by (auto simp: cc_do_def split: prod.split res.split)

text \<open>A call that fails leaves the connection without a network client, so that the next one dials.\<close>

lemma cc_do_err:
  assumes "conn_ok x" and "cc_do L d cmd args x = (Err e, y)"
  shows "cc_net y = None"
proof -
  obtain r z where z: "cc_do_async L d cmd args x = (r, z)" by fastforce
  have "conn_ok z" using cc_do_async_ok(1) [OF assms(1), of L d cmd args] z by simp
  with z assms show ?thesis
    using cc_do_async_err [OF assms(1), of L d cmd args] cc_read_err [of z L e y]
    by (cases r) (auto simp: cc_do_def)
qed


section \<open>The pool as an interface\<close>

text \<open>
  What the callers of \<open>get\<close> and \<open>put\<close> rely on: a connection comes from the front of the idle list or is
  new, it belongs to the caller until it is put back, and working on it does not touch the list.
\<close>

locale idle_pool =
  fixes get :: "'p \<Rightarrow> 'c \<times> 'p"
    and put :: "'c \<Rightarrow> 'p \<Rightarrow> 'p"
    and work :: "'w \<Rightarrow> 'c \<Rightarrow> 'p \<Rightarrow> 'p"
    and idle :: "'p \<Rightarrow> 'c list"
    and made :: "'p \<Rightarrow> 'c set"
    and cap :: "'p \<Rightarrow> int"
    and inv :: "'p \<Rightarrow> bool"
  assumes get_front: "inv p \<Longrightarrow> idle p = c # cs \<Longrightarrow>
      fst (get p) = c \<and> idle (snd (get p)) = cs \<and> made (snd (get p)) = made p"
    and get_new: "inv p \<Longrightarrow> idle p = [] \<Longrightarrow>
      fst (get p) \<notin> made p \<and> idle (snd (get p)) = [] \<and> made (snd (get p)) = insert (fst (get p)) (made p)"
    and put_idle: "inv p \<Longrightarrow> c \<in> made p \<Longrightarrow> c \<notin> set (idle p) \<Longrightarrow>
      idle (put c p) = (if int (length (idle p)) < cap p then c # idle p else idle p) \<and> made (put c p) = made p"
    and work_frame: "idle (work w c p) = idle p" "inv p \<Longrightarrow> c \<in> made p \<Longrightarrow> made (work w c p) = made p"
      "cap (work w c p) = cap p"
    and caps: "cap (snd (get p)) = cap p" "cap (put c p) = cap p"
    and inv_ops: "inv p \<Longrightarrow> inv (snd (get p))" "inv p \<Longrightarrow> inv (work w c p)"
      "inv p \<Longrightarrow> c \<in> made p \<Longrightarrow> c \<notin> set (idle p) \<Longrightarrow> inv (put c p)"
    and inv_idle: "inv p \<Longrightarrow> distinct (idle p) \<and> set (idle p) \<subseteq> made p"
      "inv p \<Longrightarrow> idle p \<noteq> [] \<Longrightarrow> int (length (idle p)) \<le> cap p"
begin

lemma got:
  assumes "inv p"
  shows "fst (get p) \<notin> set (idle (snd (get p)))" "fst (get p) \<in> made (snd (get p))"
  using get_front [OF assms] get_new [OF assms] inv_idle(1) [OF assms] by (cases "idle p"; force)+

lemma lifo:
  assumes "inv p" and "c \<in> made p" and "c \<notin> set (idle p)" and "int (length (idle p)) < cap p"
  shows "fst (get (put c p)) = c \<and> idle (snd (get (put c p))) = idle p"
  using put_idle [OF assms(1-3)] assms(4) get_front [OF inv_ops(3) [OF assms(1-3)], of c "idle p"] by simp

text \<open>Taking a connection, working on it and putting it back.\<close>

lemma borrow:
  assumes "inv p"
  shows "inv (put (fst (get p)) (work w (fst (get p)) (snd (get p))))"
    "idle (put (fst (get p)) (work w (fst (get p)) (snd (get p)))) =
       (if idle p = [] \<and> 0 < cap p then [fst (get p)] else idle p)"
proof -
  let ?c = "fst (get p)" and ?q = "work w (fst (get p)) (snd (get p))"
  have q: "inv ?q" by (intro inv_ops assms)
  have c: "?c \<in> made ?q" "?c \<notin> set (idle ?q)"
    using got [OF assms] work_frame(2) [OF inv_ops(1) [OF assms], of ?c w] by (simp_all add: work_frame(1))
  show "inv (put ?c ?q)" by (rule inv_ops(3) [OF q c])
  show "idle (put ?c ?q) = (if idle p = [] \<and> 0 < cap p then [?c] else idle p)"
    using put_idle [OF q c] inv_idle(2) [OF assms] get_front [OF assms] get_new [OF assms]
    by (cases "idle p") (simp_all add: work_frame(1,3) caps(1))
qed

end

lemma pool_put_ok:
  assumes "pool_ok p" and "pl_store p c = Some x"
  shows "pool_put now c p =
    (None, if int (length (pl_idle p)) \<ge> pl_max_idle p
       then p\<lparr>pl_store := (pl_store p)(c \<mapsto> x\<lparr>cc_net := None\<rparr>)\<rparr>
       else p\<lparr>pl_store := (pl_store p)(c \<mapsto> x\<lparr>cc_last_active := now\<rparr>), pl_idle := c # pl_idle p\<rparr>)"
proof -
  have "conn_ok x" using assms by (auto simp: pool_ok_def)
  then show ?thesis using assms(2) by (simp add: pool_put_def conn_ok_finalize)
qed

lemma pool_ok_store:
  assumes "pool_ok p" and "c \<in> dom (pl_store p)" and "conn_ok x"
  shows "pool_ok (p\<lparr>pl_store := (pl_store p)(c \<mapsto> x)\<rparr>)"
proof -
  have "\<not> pl_next p \<le> c" using assms(1,2) by (auto simp: pool_ok_def)
  then show ?thesis using assms by (auto simp: pool_ok_def)
qed

lemma pool_put_invariant:
  assumes "pool_ok p" and "c \<in> dom (pl_store p)" and "c \<notin> set (pl_idle p)"
  shows "pool_ok (snd (pool_put now c p))"
proof -
  obtain x where x: "pl_store p c = Some x" using assms(2) by blast
  have "conn_ok x" using assms(1) x by (auto simp: pool_ok_def)
  then have "pool_ok (p\<lparr>pl_store := (pl_store p)(c \<mapsto> x\<lparr>cc_net := None\<rparr>)\<rparr>)"
    "pool_ok (p\<lparr>pl_store := (pl_store p)(c \<mapsto> x\<lparr>cc_last_active := now\<rparr>)\<rparr>)"
    using pool_ok_store [OF assms(1,2)] by simp_all
  with x assms show ?thesis by (auto simp: pool_put_ok [OF assms(1) x] pool_ok_def)
qed

lemma pool_get_invariant: "pool_ok p \<Longrightarrow> pool_ok (snd (pool_get p))"
  by (auto simp: pool_get_def pool_ok_def conn_ok_def split: list.split)

text \<open>Methods of a connection that keep it well formed.\<close>

definition keeps_conn :: "(connection \<Rightarrow> 'a res \<times> connection) \<Rightarrow> bool" where
  "keeps_conn f \<longleftrightarrow> (\<forall>x. conn_ok x \<longrightarrow> conn_ok (snd (f x)))"

lemma keeps_conn_calls: "keeps_conn (cc_do_async L d cmd args)" "keeps_conn (cc_do L d cmd args)" "keeps_conn (cc_read L)"
  by (simp_all add: keeps_conn_def cc_do_async_ok cc_do_ok cc_read_ok)

lemma with_conn_invariant:
  assumes "pool_ok p" and "keeps_conn f"
  shows "pool_ok (snd (with_conn f c p))"
proof (cases "pl_store p c")
  case (Some x)
  then have "conn_ok x" using assms(1) by (auto simp: pool_ok_def)
  with assms(2) have "conn_ok (snd (f x))" by (simp add: keeps_conn_def)
  moreover have "c \<in> dom (pl_store p)" using Some by blast
  ultimately have "pool_ok (p\<lparr>pl_store := (pl_store p)(c \<mapsto> snd (f x))\<rparr>)"
    using pool_ok_store [OF assms(1)] by blast
  with Some show ?thesis
    by (auto simp: with_conn_def split: prod.split)
qed (use assms in \<open>simp add: with_conn_def\<close>)

lemma with_conn_frame:
  "pl_idle (snd (with_conn f c p)) = pl_idle p" "pl_max_idle (snd (with_conn f c p)) = pl_max_idle p"
  "c \<in> dom (pl_store p) \<Longrightarrow> dom (pl_store (snd (with_conn f c p))) = dom (pl_store p)"
  by (auto simp: with_conn_def split: option.split prod.split)


lemma pool_put_frame:
  assumes "pool_ok p" and "c \<in> dom (pl_store p)"
  shows "fst (pool_put now c p) = None"
    "pl_idle (snd (pool_put now c p)) =
       (if int (length (pl_idle p)) < pl_max_idle p then c # pl_idle p else pl_idle p)"
    "dom (pl_store (snd (pool_put now c p))) = dom (pl_store p)"
proof -
  obtain x where x: "pl_store p c = Some x" using assms(2) by blast
  show "fst (pool_put now c p) = None"
    "pl_idle (snd (pool_put now c p)) =
       (if int (length (pl_idle p)) < pl_max_idle p then c # pl_idle p else pl_idle p)"
    "dom (pl_store (snd (pool_put now c p))) = dom (pl_store p)"
    using x by (auto simp: pool_put_ok [OF assms(1) x])
qed

interpretation conns: idle_pool pool_get "\<lambda>c p. snd (pool_put now c p)"
  "\<lambda>(d, cmd, args) c p. snd (with_conn (cc_do L d cmd args) c p)"
  pl_idle "\<lambda>p. dom (pl_store p)" pl_max_idle pool_ok
  for now L
proof unfold_locales
  fix p c cs
  show "pool_ok p \<Longrightarrow> pl_idle p = c # cs \<Longrightarrow> fst (pool_get p) = c \<and> pl_idle (snd (pool_get p)) = cs \<and>
      dom (pl_store (snd (pool_get p))) = dom (pl_store p)"
    by (simp add: pool_get_def)
  show "pool_ok p \<Longrightarrow> pl_idle p = [] \<Longrightarrow> fst (pool_get p) \<notin> dom (pl_store p) \<and> pl_idle (snd (pool_get p)) = [] \<and>
      dom (pl_store (snd (pool_get p))) = insert (fst (pool_get p)) (dom (pl_store p))"
    by (auto simp: pool_get_def pool_ok_def)
  show "pl_max_idle (snd (pool_get p)) = pl_max_idle p" by (simp add: pool_get_def split: list.split)
  show "pl_max_idle (snd (pool_put now c p)) = pl_max_idle p"
    by (auto simp: pool_put_def split: option.split prod.split)
  show "pool_ok p \<Longrightarrow> distinct (pl_idle p) \<and> set (pl_idle p) \<subseteq> dom (pl_store p)"
    "pool_ok p \<Longrightarrow> pl_idle p \<noteq> [] \<Longrightarrow> int (length (pl_idle p)) \<le> pl_max_idle p"
    by (simp_all add: pool_ok_def)
qed (simp_all add: pool_put_frame with_conn_frame pool_get_invariant pool_put_invariant with_conn_invariant
    keeps_conn_calls split_beta)

text \<open>\<open>Client.Do\<close> is \<open>get\<close>, the call, and \<open>put\<close>.\<close>

lemma client_do_eq:
  assumes "pool_ok p" and "pool_get p = (c, p1)" and "with_conn (cc_do L d cmd args) c p1 = (reply, p2)"
  shows "client_do L d now cmd args p =
    (reply, case reply of Panic q \<Rightarrow> p2 | _ \<Rightarrow> snd (pool_put now c p2))"
proof -
  have p1: "pool_ok p1" using conns.inv_ops(1) [OF assms(1)] assms(2) by simp
  have c: "c \<in> dom (pl_store p1)" using conns.got(2) [OF assms(1)] assms(2) by simp
  have "pool_ok p2" using with_conn_invariant [OF p1 keeps_conn_calls(2), of L d cmd args c] assms(3) by simp
  moreover have "c \<in> dom (pl_store p2)"
    using with_conn_frame(3) [OF c, of "cc_do L d cmd args"] c assms(3) by simp
  ultimately have "fst (pool_put now c p2) = None" by (rule pool_put_frame)
  then show ?thesis using assms
    by (cases "pool_put now c p2") (simp add: client_do_def split: res.split)
qed


lemma client_do_invariant:
  assumes "pool_ok p"
  shows "pool_ok (snd (client_do L d now cmd args p))"
proof -
  obtain c p1 where g: "pool_get p = (c, p1)" by fastforce
  obtain reply p2 where w: "with_conn (cc_do L d cmd args) c p1 = (reply, p2)" by fastforce
  have "pool_ok p1" using conns.inv_ops(1) [OF assms] g by simp
  then have "pool_ok p2" using with_conn_invariant [OF _ keeps_conn_calls(2), of p1 L d cmd args c] w by simp
  moreover have "pool_ok (snd (pool_put now c p2))"
    using conns.borrow(1) [OF assms, of now L "(d, cmd, args)"] g w by simp
  ultimately show ?thesis by (simp add: client_do_eq [OF assms g w] split: res.split)
qed

lemma client_do_async_invariant: "pool_ok p \<Longrightarrow> pool_ok (snd (client_do_async L d cmd args p))"
  using pool_get_invariant [of p]
  by (auto simp: client_do_async_def with_conn_invariant keeps_conn_calls split: prod.split)

lemma pool_okD: "pool_ok p \<Longrightarrow> pl_store p c = Some x \<Longrightarrow> conn_ok x"
  unfolding pool_ok_def by blast

lemma pool_ok_Cons:
  assumes "pool_ok (p\<lparr>pl_idle := c # cs\<rparr>)"
  shows "pool_ok (p\<lparr>pl_idle := cs\<rparr>)" "c \<notin> set cs" "c \<in> dom (pl_store p)"
  using assms unfolding pool_ok_def by simp_all

lemma close_idle_ok:
  assumes "pool_ok (p\<lparr>pl_idle := cs\<rparr>)"
  shows "fst (close_idle cs p) = None \<and> pool_ok (snd (close_idle cs p)) \<and> pl_idle (snd (close_idle cs p)) = [] \<and>
    (\<forall>c x. pl_store (snd (close_idle cs p)) c = Some x \<longrightarrow>
       (if c \<in> set cs then cc_net x = None else pl_store p c = Some x))"
  using assms
proof (induction cs arbitrary: p)
  case (Cons c cs)
  note tl = pool_ok_Cons [OF Cons.prems]
  obtain x where x: "pl_store p c = Some x" using tl(3) by blast
  then have cx: "conn_ok x" using pool_okD [OF tl(1)] by simp
  let ?q = "p\<lparr>pl_idle := cs, pl_store := (pl_store p)(c \<mapsto> x\<lparr>cc_net := None\<rparr>)\<rparr>"
  have eq: "close_idle (c # cs) p = close_idle cs ?q"
    using x cx by (simp add: Let_def conn_ok_finalize)
  have "pool_ok (?q\<lparr>pl_idle := cs\<rparr>)"
    using pool_ok_store [OF tl(1), of c "x\<lparr>cc_net := None\<rparr>"] tl(3) by (cases p) simp
  note IH = Cons.IH [OF this]
  show ?case unfolding eq
  proof (intro conjI allI impI)
    fix d y assume y: "pl_store (snd (close_idle cs ?q)) d = Some y"
    with IH have "if d \<in> set cs then cc_net y = None else pl_store ?q d = Some y" by blast
    then show "if d \<in> set (c # cs) then cc_net y = None else pl_store p d = Some y"
      using tl(2) by (auto split: if_splits)
  qed (use IH in blast)+
qed simp

section \<open>Programs that use the client\<close>

text \<open>
  Any number of goroutines use one client: besides \<open>Do\<close> and \<open>DoAsync\<close> they may hold connections from
  \<open>Get\<close>, call their methods and hand them back with \<open>CloseConnection\<close>.  A state is the pool and the set
  of connections that are held.  \<open>Do\<close> of one goroutine while others run is \<open>get\<close>, calls and \<open>give\<close>.  The
  network may break any connection at any moment (\<open>fault\<close> replaces what its reader and writer meet).
  Assumed of the program, because \<open>CloseConnection\<close> does not check it: it hands a connection back only while it
  holds it, and once.
\<close>

inductive client_step :: "'f golib \<Rightarrow> pool \<times> loc set \<Rightarrow> pool \<times> loc set \<Rightarrow> bool" for L where
  do_call: "client_do L d now cmd args p = (r, p') \<Longrightarrow> client_step L (p, H) (p', H)"
| async_call: "client_do_async L d cmd args p = (r', p') \<Longrightarrow> client_step L (p, H) (p', H)"
| close_call: "client_close p = (e, p') \<Longrightarrow> client_step L (p, H) (p', H)"
| get: "pool_get p = (c, p') \<Longrightarrow> client_step L (p, H) (p', insert c H)"
| conn_do: "c \<in> H \<Longrightarrow> with_conn (cc_do L d cmd args) c p = (r, p') \<Longrightarrow> client_step L (p, H) (p', H)"
| conn_async: "c \<in> H \<Longrightarrow> with_conn (cc_do_async L d cmd args) c p = (r', p') \<Longrightarrow> client_step L (p, H) (p', H)"
| conn_read: "c \<in> H \<Longrightarrow> with_conn (cc_read L) c p = (r, p') \<Longrightarrow> client_step L (p, H) (p', H)"
| give: "c \<in> H \<Longrightarrow> pool_put now c p = (e, p') \<Longrightarrow> client_step L (p, H) (p', H - {c})"
| fault: "pl_store p c = Some x \<Longrightarrow> cc_net x = Some n \<Longrightarrow>
     client_step L (p, H)
       (p\<lparr>pl_store := (pl_store p)(c \<mapsto> x\<lparr>cc_net := Some (n\<lparr>nc_reader := rd, nc_writer := wr\<rparr>)\<rparr>)\<rparr>, H)"

inductive client_runs :: "'f golib \<Rightarrow> pool \<times> loc set \<Rightarrow> pool \<times> loc set \<Rightarrow> bool" for L where
  init: "client_runs L x x"
| further: "client_runs L x y \<Longrightarrow> client_step L y z \<Longrightarrow> client_runs L x z"

definition users_ok :: "pool \<times> loc set \<Rightarrow> bool" where
  "users_ok x \<longleftrightarrow> (case x of (p, H) \<Rightarrow> pool_ok p \<and> H \<subseteq> dom (pl_store p) \<and> H \<inter> set (pl_idle p) = {})"


lemma close_idle_frame:
  "dom (pl_store (snd (close_idle cs p))) = dom (pl_store p) \<and> pl_max_idle (snd (close_idle cs p)) = pl_max_idle p"
proof (induction cs arbitrary: p)
  case (Cons c cs)
  show ?case
  proof (cases "pl_store p c")
    case (Some x)
    obtain r y where y: "cc_finalize x = (r, y)" by fastforce
    let ?q = "p\<lparr>pl_idle := cs, pl_store := (pl_store p)(c \<mapsto> y)\<rparr>"
    have q: "dom (pl_store ?q) = dom (pl_store p)" "pl_max_idle ?q = pl_max_idle p" using Some by auto
    have "snd (close_idle (c # cs) p) = (case r of None \<Rightarrow> snd (close_idle cs ?q) | Some _ \<Rightarrow> ?q)"
      using Some y by (cases r) (simp_all add: Let_def)
    with Cons.IH [of ?q] q show ?thesis by (metis option.case_eq_if)
  qed (use Cons.IH [of "p\<lparr>pl_idle := cs\<rparr>"] in \<open>simp add: Let_def\<close>)
qed simp

lemma with_conn_users:
  assumes "users_ok (p, H)" and "keeps_conn f" and "c \<in> H"
  shows "users_ok (snd (with_conn f c p), H) \<and> pl_max_idle (snd (with_conn f c p)) = pl_max_idle p"
proof -
  have "pool_ok p" "c \<in> dom (pl_store p)" using assms by (auto simp: users_ok_def)
  with assms with_conn_invariant [of p f c] with_conn_frame(3) [of c p f] show ?thesis
    by (simp add: users_ok_def with_conn_frame(1,2))
qed

lemma pool_get_frame:
  assumes "pool_ok p" and "pool_get p = (c, p')"
  shows "pool_ok p'" "c \<in> dom (pl_store p')" "dom (pl_store p) \<subseteq> dom (pl_store p')"
    "set (pl_idle p') \<subseteq> set (pl_idle p)" "c \<notin> set (pl_idle p')"
    "c \<in> set (pl_idle p) \<or> c \<notin> dom (pl_store p)" "pl_max_idle p' = pl_max_idle p"
  using conns.inv_ops(1) [OF assms(1)] conns.got [OF assms(1)] conns.caps(1) [of p]
    conns.get_front [OF assms(1)] conns.get_new [OF assms(1)] assms(2)
  by (cases "pl_idle p"; force)+

lemma client_do_frame:
  assumes "pool_ok p" and "client_do L d now cmd args p = (r, p')"
  shows "dom (pl_store p) \<subseteq> dom (pl_store p')" "pl_max_idle p' = pl_max_idle p"
    "set (pl_idle p') \<subseteq> set (pl_idle p) \<union> - dom (pl_store p)"
proof -
  obtain c p1 where g: "pool_get p = (c, p1)" by fastforce
  obtain reply p2 where w: "with_conn (cc_do L d cmd args) c p1 = (reply, p2)" by fastforce
  note g' = pool_get_frame [OF assms(1) g]
  have p2: "pool_ok p2" "dom (pl_store p2) = dom (pl_store p1)" "pl_idle p2 = pl_idle p1" "pl_max_idle p2 = pl_max_idle p1"
    using with_conn_invariant [OF g'(1) keeps_conn_calls(2), of L d cmd args c]
      with_conn_frame(1,2) [of "cc_do L d cmd args" c p1] with_conn_frame(3) [OF g'(2), of "cc_do L d cmd args"] w by simp_all
  have c: "c \<in> dom (pl_store p2)" using p2(2) g'(2) by simp
  have p': "p' = (case reply of Panic q \<Rightarrow> p2 | _ \<Rightarrow> snd (pool_put now c p2))"
    using assms(2) by (auto simp: client_do_eq [OF assms(1) g w])
  note put = pool_put_frame(2,3) [OF p2(1) c, of now]
  show "dom (pl_store p) \<subseteq> dom (pl_store p')" "pl_max_idle p' = pl_max_idle p"
    using p' g'(3,7) p2 put conns.caps(2) [of now c p2] by (cases reply; auto)+
  have "set (pl_idle p') \<subseteq> insert c (set (pl_idle p1))"
    using p' p2(3) put by (cases reply) auto
  with g'(4,6) show "set (pl_idle p') \<subseteq> set (pl_idle p) \<union> - dom (pl_store p)" by auto
qed

lemma client_step_users:
  assumes "client_step L x y" and "users_ok x"
  shows "users_ok y \<and> pl_max_idle (fst y) = pl_max_idle (fst x)"
  using assms
proof cases
  case (do_call d now cmd args p r p' H)
  with assms(2) have p: "pool_ok p" "H \<subseteq> dom (pl_store p)" "H \<inter> set (pl_idle p) = {}" by (simp_all add: users_ok_def)
  have "pool_ok p'" using client_do_invariant [OF p(1), of L d now cmd args] do_call(3) by simp
  with p client_do_frame [OF p(1) do_call(3)] do_call(1,2) show ?thesis by (simp add: users_ok_def) blast
next
  case (async_call d cmd args p r p' H)
  with assms(2) have p: "pool_ok p" "H \<subseteq> dom (pl_store p)" "H \<inter> set (pl_idle p) = {}" by (simp_all add: users_ok_def)
  obtain c p1 where g: "pool_get p = (c, p1)" by fastforce
  note g' = pool_get_frame [OF p(1) g]
  have p': "p' = snd (with_conn (cc_do_async L d cmd args) c p1)"
    using async_call(3) g by (simp add: client_do_async_def)
  have "pool_ok p'" unfolding p' by (rule with_conn_invariant [OF g'(1) keeps_conn_calls(1)])
  moreover have "dom (pl_store p') = dom (pl_store p1)" unfolding p' by (rule with_conn_frame(3) [OF g'(2)])
  moreover have "pl_idle p' = pl_idle p1" "pl_max_idle p' = pl_max_idle p1"
    unfolding p' by (simp_all add: with_conn_frame(1,2))
  ultimately show ?thesis using p g' async_call(1,2) by (simp add: users_ok_def) blast
next
  case (close_call p e p' H)
  with assms(2) have p: "pool_ok p" "H \<subseteq> dom (pl_store p)" "H \<inter> set (pl_idle p) = {}" by (simp_all add: users_ok_def)
  from p(1) have "pool_ok (p\<lparr>pl_idle := pl_idle p\<rparr>)" by simp
  from close_idle_ok [OF this] close_idle_frame [of "pl_idle p" p] close_call p show ?thesis
    by (simp add: users_ok_def client_close_def)
next
  case (get p c p' H)
  with assms(2) have p: "pool_ok p" "H \<subseteq> dom (pl_store p)" "H \<inter> set (pl_idle p) = {}" by (simp_all add: users_ok_def)
  from pool_get_frame [OF p(1) get(3)] p get(1,2) show ?thesis by (simp add: users_ok_def) blast
next
  case (conn_do c H d cmd args p r p')
  then show ?thesis using assms(2) with_conn_users [OF _ keeps_conn_calls(2), of p H c L d cmd args] by simp
next
  case (conn_async c H d cmd args p r p')
  then show ?thesis using assms(2) with_conn_users [OF _ keeps_conn_calls(1), of p H c L d cmd args] by simp
next
  case (conn_read c H p r p')
  then show ?thesis using assms(2) with_conn_users [OF _ keeps_conn_calls(3), of p H c L] by simp
next
  case (give c H now p e p')
  with assms(2) have p: "pool_ok p" "H \<subseteq> dom (pl_store p)" "H \<inter> set (pl_idle p) = {}" by (simp_all add: users_ok_def)
  with give(3) have c: "c \<in> dom (pl_store p)" "c \<notin> set (pl_idle p)" by auto
  from pool_put_invariant [OF p(1) c, of now] pool_put_frame [OF p(1) c(1), of now] conns.caps(2) [of now c p] p give
  show ?thesis by (simp add: users_ok_def) blast
next
  case (fault p c x n H wr rd)
  with assms(2) have p: "pool_ok p" "H \<subseteq> dom (pl_store p)" "H \<inter> set (pl_idle p) = {}" by (simp_all add: users_ok_def)
  have "nc_live n" using pool_okD [OF p(1) fault(3)] fault(4) by (simp add: conn_ok_def)
  then have "conn_ok (x\<lparr>cc_net := Some (n\<lparr>nc_reader := rd, nc_writer := wr\<rparr>)\<rparr>)" by simp
  from pool_ok_store [OF p(1) _ this, of c] fault p show ?thesis by (auto simp: users_ok_def)
qed


lemma client_runs_users:
  assumes "client_runs L x y" and "users_ok x"
  shows "users_ok y \<and> pl_max_idle (fst y) = pl_max_idle (fst x)"
  using assms by induction (auto dest: client_step_users)

lemma users_ok_new: "users_ok (new_pool port host k b, {})"
  by (simp add: users_ok_def pool_ok_new)

lemma client_close_ok:
  assumes "pool_ok p"
  shows "fst (client_close p) = None" "pool_ok (snd (client_close p))" "pl_idle (snd (client_close p)) = []"
    "pl_store (snd (client_close p)) c = Some x \<Longrightarrow>
       if c \<in> set (pl_idle p) then cc_net x = None else pl_store p c = Some x"
proof -
  from assms have "pool_ok (p\<lparr>pl_idle := pl_idle p\<rparr>)" by simp
  note ok = close_idle_ok [OF this]
  from ok show "fst (client_close p) = None" "pool_ok (snd (client_close p))" "pl_idle (snd (client_close p)) = []"
    unfolding client_close_def by blast+
  from ok show "pl_store (snd (client_close p)) c = Some x \<Longrightarrow>
       if c \<in> set (pl_idle p) then cc_net x = None else pl_store p c = Some x"
    unfolding client_close_def by blast
qed

section \<open>A connection that nobody holds\<close>

text \<open>
  \<open>stray c\<close>: the connection at \<open>c\<close> is connected, but neither idle nor held.  No operation reaches it
  again, so it stays connected.
\<close>

definition stray :: "loc \<Rightarrow> pool \<times> loc set \<Rightarrow> bool" where
  "stray c s \<longleftrightarrow> c \<notin> set (pl_idle (fst s)) \<and> c \<notin> snd s \<and>
     (\<exists>x n. pl_store (fst s) c = Some x \<and> cc_net x = Some n \<and> nc_live n)"

lemma store_elsewhere:
  "pool_ok p \<Longrightarrow> d \<in> dom (pl_store p) \<Longrightarrow> pl_store (snd (pool_get p)) d = pl_store p d"
  "d \<noteq> c \<Longrightarrow> pl_store (snd (with_conn f c p)) d = pl_store p d"
  "d \<noteq> c \<Longrightarrow> pl_store (snd (pool_put now c p)) d = pl_store p d"
  by (auto simp: pool_get_def with_conn_def pool_put_def pool_ok_def split: list.split option.split prod.split)

lemma pool_get_other:
  assumes "pool_ok p" and "pool_get p = (c, p')" and "d \<in> dom (pl_store p)" and "d \<notin> set (pl_idle p)"
  shows "d \<noteq> c" "pl_store p' d = pl_store p d" "d \<notin> set (pl_idle p')"
  using pool_get_frame [OF assms(1,2)] store_elsewhere(1) [OF assms(1,3)] assms by auto

lemma client_do_other:
  assumes "pool_ok p" and "d \<in> dom (pl_store p)" and "d \<notin> set (pl_idle p)"
  shows "pl_store (snd (client_do L e now cmd args p)) d = pl_store p d"
    "pl_store (snd (client_do_async L e cmd args p)) d = pl_store p d"
    "d \<notin> set (pl_idle (snd (client_do_async L e cmd args p)))"
proof -
  obtain c p1 where g: "pool_get p = (c, p1)" by fastforce
  obtain reply p2 where w: "with_conn (cc_do L e cmd args) c p1 = (reply, p2)" by fastforce
  note o = pool_get_other [OF assms(1) g assms(2,3)]
  have "pl_store p2 d = pl_store p d"
    using o store_elsewhere(2) [OF o(1), of "cc_do L e cmd args" p1] w by simp
  then show "pl_store (snd (client_do L e now cmd args p)) d = pl_store p d"
    using store_elsewhere(3) [OF o(1), of now p2] by (simp add: client_do_eq [OF assms(1) g w] split: res.split)
  show "pl_store (snd (client_do_async L e cmd args p)) d = pl_store p d"
    "d \<notin> set (pl_idle (snd (client_do_async L e cmd args p)))"
    using o g store_elsewhere(2) [OF o(1), of "cc_do_async L e cmd args" p1]
    by (simp_all add: client_do_async_def with_conn_frame(1))
qed

lemma client_step_stray:
  assumes "client_step L x y" and "users_ok x" and "stray c x"
  shows "stray c y"
proof -
  obtain p H where x: "x = (p, H)" by fastforce
  have p: "pool_ok p" using assms(2) x by (simp add: users_ok_def)
  from assms(3) x have c: "c \<notin> set (pl_idle p)" "c \<notin> H" "c \<in> dom (pl_store p)" by (auto simp: stray_def)
  have same: "stray c (p', H')" if "pl_store p' c = pl_store p c" "c \<notin> set (pl_idle p')" "c \<notin> H'" for p' H'
    using that assms(3) x by (simp add: stray_def)
  note do_other = client_do_other [OF p c(3,1)]
  from assms(1) show ?thesis unfolding x
  proof cases
    case (do_call d now cmd args r p')
    then show ?thesis
      using same [of p' H] do_other(1) [of L d now cmd args] client_do_frame(3) [OF p do_call(2)] c by auto
  next
    case (async_call d cmd args r p')
    then show ?thesis using same [of p' H] do_other(2,3) [of L d cmd args] c by simp
  next
    case (close_call e p')
    have "c \<in> dom (pl_store p')"
      using close_call c(3) close_idle_frame [of "pl_idle p" p] by (simp add: client_close_def)
    then obtain z where z: "pl_store p' c = Some z" by blast
    with client_close_ok(4) [OF p, of c z] close_call c(1) have "pl_store p c = Some z" by simp
    with z close_call c client_close_ok(3) [OF p] show ?thesis by (simp add: same)
  next
    case (get d p')
    from pool_get_other [OF p get(2) c(3,1)] get(1) c show ?thesis by (simp add: same)
  next
    case (conn_do d e cmd args r p')
    then have "c \<noteq> d" using c by blast
    from store_elsewhere(2) [OF this, of "cc_do L e cmd args" p] conn_do c show ?thesis
      using with_conn_frame(1) [of "cc_do L e cmd args" d p] by (simp add: same)
  next
    case (conn_async d e cmd args r p')
    then have "c \<noteq> d" using c by blast
    from store_elsewhere(2) [OF this, of "cc_do_async L e cmd args" p] conn_async c show ?thesis
      using with_conn_frame(1) [of "cc_do_async L e cmd args" d p] by (simp add: same)
  next
    case (conn_read d r p')
    then have "c \<noteq> d" using c by blast
    from store_elsewhere(2) [OF this, of "cc_read L" p] conn_read c show ?thesis
      using with_conn_frame(1) [of "cc_read L" d p] by (simp add: same)
  next
    case (give d now e p')
    then have cd: "c \<noteq> d" using c by blast
    have "d \<in> dom (pl_store p)" using give assms(2) x by (auto simp: users_ok_def)
    from store_elsewhere(3) [OF cd, of now p] pool_put_frame(2) [OF p this, of now] give c cd show ?thesis
      by (simp add: same split: if_splits)
  next
    case (fault d z n wr rd)
    then show ?thesis using assms(3) x by (auto simp: stray_def)
  qed
qed

lemma client_runs_stray:
  assumes "client_runs L x y" and "users_ok x" and "stray c x"
  shows "users_ok y \<and> stray c y"
  using assms by induction (auto dest: client_step_users client_step_stray)


section \<open>A call that is answered\<close>

text \<open>
  \<open>wired n sent input\<close>: a healthy network client with nothing buffered that has sent \<open>sent\<close> and is going
  to receive \<open>input\<close>.
\<close>

definition wired :: "netclient \<Rightarrow> bytes \<Rightarrow> bytes \<Rightarrow> bool" where
  "wired n sent input \<longleftrightarrow>
     bw_ok (nc_writer n) \<and> bw_buf (nc_writer n) = [] \<and> bw_sent (nc_writer n) = sent \<and>
     br_size (nc_reader n) = 128 \<and> br_in (nc_reader n) = input"

lemma wired_new: "wired (cc_new_client b peer) [] (snd peer)"
  by (simp add: wired_def cc_new_client_def new_network_client_def nc_initialize_def new_reader_def)
     (simp add: new_writer_def)

lemma cc_do_answered:
  assumes "cc_net x = Some n" and "wired n sent (b @ rest)" and "decodes 128 (read_interface L) b v"
    and "emits (net_write_command L (cc_bprotocol x) cmd args) e"
  shows "\<exists>m. cc_do L d cmd args x = (Ok v, x\<lparr>cc_net := Some m\<rparr>) \<and> wired m (sent @ e) rest \<and> conn_state m = conn_state n"
proof -
  let ?f = "net_write_command L (cc_bprotocol x) cmd args"
  obtain r w where w: "?f (nc_writer n) = (r, w)" by fastforce
  have nok: "bw_ok (nc_writer n)" "bw_stream (nc_writer n) = sent" using assms(2) by (simp_all add: wired_def bw_stream_def)
  from emitsD [OF assms(4) nok(1)] w have r: "r = None" and ok: "bw_ok w" and st: "bw_stream w = sent @ e"
    by (simp_all add: nok(2))
  obtain r' w' where w': "bw_flush w = (r', w')" by fastforce
  from bw_flush_ok [OF ok] w' st have f: "r' = None" "bw_ok w'" "bw_buf w' = []" "bw_sent w' = sent @ e" by simp_all
  have rd: "read_interface L (nc_reader n) = (Ok v, (nc_reader n)\<lparr>br_in := rest\<rparr>)"
    using decodesD [OF assms(3), of "nc_reader n" rest] assms(2) by (simp add: wired_def)
  let ?m = "n\<lparr>nc_writer := w', nc_reader := (nc_reader n)\<lparr>br_in := rest\<rparr>\<rparr>"
  have "cc_do L d cmd args x = (Ok v, x\<lparr>cc_net := Some ?m\<rparr>)"
    using assms(1) w r w' f(1) rd by (simp add: cc_do_def cc_do_async_def cc_connect_def cc_read_def)
  moreover have "wired ?m (sent @ e) rest" using assms(2) f by (simp add: wired_def)
  ultimately show ?thesis by (auto simp: conn_state_def)
qed

lemma cc_do_connect:
  "cc_connect d x = (None, y) \<Longrightarrow> cc_do L d cmd args x = cc_do L d' cmd args y"
  by (auto simp: cc_do_def cc_do_async_def cc_connect_def split: option.splits sum.splits)

text \<open>The first call of a pool that may keep a connection, and a later one that finds it idle.\<close>

lemma first_do_answered:
  assumes "pl_idle p = []" and "0 < pl_max_idle p" and "pool_ok p"
    and "decodes 128 (read_interface L) b v"
    and "emits (net_write_command L (pl_bprotocol p) cmd args) e"
  shows "\<exists>p' x m. client_do L (Inr (a, b @ rest)) now cmd args p = (Ok v, p') \<and> pl_idle p' = [pl_next p] \<and>
    pl_store p' (pl_next p) = Some x \<and> cc_net x = Some m \<and> wired m e rest \<and>
    cc_bprotocol x = pl_bprotocol p \<and> pl_max_idle p' = pl_max_idle p \<and> pool_ok p'"
proof -
  let ?x = "\<lparr>cc_bprotocol = pl_bprotocol p, cc_addr = pl_addr p, cc_net = None, cc_last_active = 0\<rparr>"
  let ?n = "cc_new_client (pl_bprotocol p) (a, b @ rest)"
  let ?y = "?x\<lparr>cc_net := Some ?n\<rparr>"
  have "cc_connect (Inr (a, b @ rest)) ?x = (None, ?y)" by (simp add: cc_connect_def)
  note con = cc_do_connect [OF this, of L cmd args "Inr (a, b @ rest)"]
  obtain m where m: "cc_do L (Inr (a, b @ rest)) cmd args ?y = (Ok v, ?y\<lparr>cc_net := Some m\<rparr>)" "wired m ([] @ e) rest"
    using cc_do_answered [of ?y ?n "[]" b rest L v cmd args e "Inr (a, b @ rest)"] wired_new [of "pl_bprotocol p" "(a, b @ rest)"]
      assms(4,5) by auto
  let ?p1 = "snd (pool_get p)" and ?p2 = "snd (with_conn (cc_do L (Inr (a, b @ rest)) cmd args) (pl_next p) (snd (pool_get p)))"
  have g: "pool_get p = (pl_next p, ?p1)" "pl_store ?p1 (pl_next p) = Some ?x"
    using assms(1) by (simp_all add: pool_get_def)
  have w: "with_conn (cc_do L (Inr (a, b @ rest)) cmd args) (pl_next p) ?p1 = (Ok v, ?p2)"
    using g(2) con m by (simp add: with_conn_def)
  have p2: "pl_store ?p2 (pl_next p) = Some (?y\<lparr>cc_net := Some m\<rparr>)"
    using g(2) con m by (simp add: with_conn_def)
  note g' = pool_get_frame [OF assms(3) g(1)]
  have ok2: "pool_ok ?p2" by (rule with_conn_invariant [OF g'(1) keeps_conn_calls(2)])
  have i2: "pl_idle ?p2 = []" "pl_max_idle ?p2 = pl_max_idle p"
    using assms(1) g'(4,7) by (simp_all add: with_conn_frame(1,2))
  have "client_do L (Inr (a, b @ rest)) now cmd args p = (Ok v, snd (pool_put now (pl_next p) ?p2))"
    by (simp add: client_do_eq [OF assms(3) g(1) w])
  moreover have "pool_ok (snd (pool_put now (pl_next p) ?p2))"
    by (rule pool_put_invariant [OF ok2]) (use p2 i2 in auto)
  ultimately show ?thesis using pool_put_ok [OF ok2 p2, of now] m(2) i2 assms(2) by simp
qed

lemma next_do_answered:
  assumes "pl_idle p = [c]" and "pool_ok p" and "pl_store p c = Some x" and "cc_net x = Some n"
    and "wired n sent (b @ rest)" and "decodes 128 (read_interface L) b v"
    and "emits (net_write_command L (cc_bprotocol x) cmd args) e"
  shows "\<exists>p' y m. client_do L d now cmd args p = (Ok v, p') \<and> pl_idle p' = [c] \<and>
    pl_store p' c = Some y \<and> cc_net y = Some m \<and> wired m (sent @ e) rest \<and> cc_bprotocol y = cc_bprotocol x \<and>
    pl_max_idle p' = pl_max_idle p \<and> pool_ok p'"
proof -
  obtain m where m: "cc_do L d cmd args x = (Ok v, x\<lparr>cc_net := Some m\<rparr>)" "wired m (sent @ e) rest"
    using cc_do_answered [OF assms(4-7)] by blast
  have cap: "0 < pl_max_idle p" using assms(1,2) by (simp add: pool_ok_def)
  let ?p1 = "p\<lparr>pl_idle := []\<rparr>" and ?p2 = "p\<lparr>pl_idle := [], pl_store := (pl_store p)(c \<mapsto> x\<lparr>cc_net := Some m\<rparr>)\<rparr>"
  have g: "pool_get p = (c, ?p1)" using assms(1) by (simp add: pool_get_def)
  have w: "with_conn (cc_do L d cmd args) c ?p1 = (Ok v, ?p2)" using assms(3) m(1) by (simp add: with_conn_def)
  have ok1: "pool_ok ?p1" using pool_get_frame(1) [OF assms(2) g] .
  have ok2: "pool_ok ?p2" using with_conn_invariant [OF ok1 keeps_conn_calls(2), of L d cmd args c] w by simp
  have "client_do L d now cmd args p = (Ok v, snd (pool_put now c ?p2))"
    by (simp add: client_do_eq [OF assms(2) g w])
  moreover have "pool_ok (snd (pool_put now c ?p2))" by (rule pool_put_invariant [OF ok2]) auto
  ultimately show ?thesis
    using pool_put_ok [OF ok2, of c "x\<lparr>cc_net := Some m\<rparr>" now] m(2) cap by simp
qed


section \<open>Properties\<close>

text \<open>
C18. The pool of a client, in every state that any program can bring it to, whatever the network does:
the idle connections are distinct, at most \<open>maxIdle\<close>, and none of them is held by a caller; every
connection that has a network client has one that has not been closed, so that neither \<open>put\<close> nor
\<open>Close\<close> panics by closing a connection twice.
\<close>

theorem client_pool_invariant:
  assumes "client_runs L (new_pool port host k b, {}) (p, H)"
  shows "distinct (pl_idle p) \<and> set (pl_idle p) \<inter> H = {} \<and> int (length (pl_idle p)) \<le> max 0 k \<and>
    (\<forall>c x n. pl_store p c = Some x \<and> cc_net x = Some n \<longrightarrow> nc_conn_open n \<and> \<not> nc_quit_closed n) \<and>
    (\<forall>c \<in> H. fst (pool_put now c p) = None) \<and> fst (client_close p) = None"
proof -
  from client_runs_users [OF assms users_ok_new]
  have u: "pool_ok p" "H \<subseteq> dom (pl_store p)" "H \<inter> set (pl_idle p) = {}" and k: "pl_max_idle p = k"
    by (simp_all add: users_ok_def new_pool_def)
  have "int (length (pl_idle p)) \<le> max 0 k" using u(1) k by (auto simp: pool_ok_def)
  moreover have "\<forall>c x n. pl_store p c = Some x \<and> cc_net x = Some n \<longrightarrow> nc_conn_open n \<and> \<not> nc_quit_closed n"
    using pool_okD [OF u(1)] by (auto simp: conn_ok_def nc_live_def)
  moreover have "\<forall>c \<in> H. fst (pool_put now c p) = None" using pool_put_frame(1) [OF u(1)] u(2) by blast
  moreover have "distinct (pl_idle p)" using u(1) by (simp add: pool_ok_def)
  ultimately show ?thesis using u(3) client_close_ok(1) [OF u(1)] by blast
qed

theorem client_pool_invariant_witness:
  "\<exists>p. client_do plain_lib (Inl (ErrText ''refused'')) 5 ''ping'' [] (new_pool 7331 ''127.0.0.1'' 2 ''redis'') =
      (Err (ErrText ''refused''), p) \<and> int (length (pl_idle p)) \<le> 2"
proof -
  obtain r p where p: "client_do plain_lib (Inl (ErrText ''refused'')) 5 ''ping'' []
      (new_pool 7331 ''127.0.0.1'' 2 ''redis'') = (r, p)" by fastforce
  have "client_runs plain_lib (new_pool 7331 ''127.0.0.1'' 2 ''redis'', {}) (p, {})"
    by (rule client_runs.further [OF client_runs.init client_step.do_call [OF p]])
  from client_pool_invariant [OF this, of 0] have "int (length (pl_idle p)) \<le> 2" by simp
  moreover have "r = Err (ErrText ''refused'')"
    using p by (simp add: client_do_def pool_get_def new_pool_def with_conn_def cc_do_def cc_do_async_def
        cc_connect_def pool_put_def)
  ultimately show ?thesis using p by blast
qed

text \<open>
C31. A call that fails does not poison the pool: when \<open>Do\<close> returns an error, the connection goes back to
the front of the idle list without a network client, so the next call dials again instead of reading
the rest of a broken conversation.
\<close>

theorem failed_call_redials:
  assumes "client_runs L (new_pool port host k b, {}) (p, H)" and "0 < k"
    and "client_do L d now cmd args p = (Err e, p')"
  shows "\<exists>c cs x. pl_idle p' = c # cs \<and> pl_store p' c = Some x \<and> cc_net x = None \<and>
    fst (client_do L (Inl f) now' cmd' args' p') = Err f \<and>
    cc_connect (Inr peer) x = (None, x\<lparr>cc_net := Some (cc_new_client (cc_bprotocol x) peer)\<rparr>)"
proof -
  from client_runs_users [OF assms(1) users_ok_new] have ok: "pool_ok p" and k: "pl_max_idle p = k"
    by (simp_all add: users_ok_def new_pool_def)
  obtain c p1 where g: "pool_get p = (c, p1)" by fastforce
  note g' = pool_get_frame [OF ok g]
  obtain y where y: "pl_store p1 c = Some y" using g'(2) by blast
  have cy: "conn_ok y" using pool_okD [OF g'(1) y] .
  obtain r z where z: "cc_do L d cmd args y = (r, z)" by fastforce
  let ?p2 = "p1\<lparr>pl_store := (pl_store p1)(c \<mapsto> z)\<rparr>"
  have w: "with_conn (cc_do L d cmd args) c p1 = (r, ?p2)" using y z by (simp add: with_conn_def)
  from assms(3) have r: "r = Err e" and p': "p' = snd (pool_put now c ?p2)"
    by (auto simp: client_do_eq [OF ok g w])
  have none: "cc_net z = None" using cc_do_err [OF cy] z r by blast
  have ok2: "pool_ok ?p2" using with_conn_invariant [OF g'(1) keeps_conn_calls(2), of L d cmd args c] w by simp
  have "int (length (pl_idle p1)) < k"
    using ok k assms(2) conns.get_front [OF ok] conns.get_new [OF ok] g by (cases "pl_idle p") (auto simp: pool_ok_def)
  with p' pool_put_ok [OF ok2, of c z now] g'(7) k
  have q: "pl_idle p' = c # pl_idle p1" "pl_store p' c = Some (z\<lparr>cc_last_active := now\<rparr>)" by simp_all
  have ok': "pool_ok p'" using client_do_invariant [OF ok, of L d now cmd args] assms(3) by simp
  have "pool_get p' = (c, p'\<lparr>pl_idle := pl_idle p1\<rparr>)" using q(1) by (simp add: pool_get_def)
  moreover have "\<exists>t. with_conn (cc_do L (Inl f) cmd' args') c (p'\<lparr>pl_idle := pl_idle p1\<rparr>) = (Err f, t)"
    using q(2) none by (simp add: with_conn_def cc_do_def cc_do_async_def cc_connect_def)
  ultimately have "fst (client_do L (Inl f) now' cmd' args' p') = Err f"
    using client_do_eq [OF ok'] by fastforce
  then show ?thesis using q none by (simp add: cc_connect_def)
qed

theorem failed_call_redials_witness:
  "\<exists>p' c x. client_do plain_lib (Inl (ErrText ''refused'')) 5 ''ping'' [] (new_pool 7331 ''127.0.0.1'' 1 ''redis'') =
      (Err (ErrText ''refused''), p') \<and> pl_idle p' = [c] \<and> pl_store p' c = Some x \<and> cc_net x = None \<and>
    fst (client_do plain_lib (Inl EOF) 6 ''ping'' [] p') = Err EOF"
proof -
  obtain p' where p': "client_do plain_lib (Inl (ErrText ''refused'')) 5 ''ping'' [] (new_pool 7331 ''127.0.0.1'' 1 ''redis'') =
      (Err (ErrText ''refused''), p')" "length (pl_idle p') = 1"
    by (simp add: client_do_def pool_get_def new_pool_def with_conn_def cc_do_def cc_do_async_def
        cc_connect_def pool_put_def)
  from failed_call_redials [OF client_runs.init _ p'(1), of EOF 6 "''ping''" "[]" "([], [])"] p' show ?thesis by auto
qed



end
