(* ===== verification/Cli.thy ===== *)
theory Cli
  imports GoClient
begin

text \<open>
  \<open>cmd/broadcast-cli/main.go\<close>: the interactive client.  The words of a command line and their types,
  the table of commands that the server's reply to \<open>CMDS\<close> fills, the printing of replies, and the loop
  of \<open>main\<close> over the lines that the user types.  What the line editor returns is a
  list of lines here; \<open>Linenoise\<close> has the editor's side.
\<close>

section \<open>Words of a command line\<close>

abbreviation APOS :: char where "APOS \<equiv> CHR 0x27"
abbreviation QUOT :: char where "QUOT \<equiv> CHR 0x22"

text \<open>The class \<open>\s\<close> of package \<open>regexp\<close>.\<close>

definition re_space :: "char \<Rightarrow> bool" where
  "re_space c \<longleftrightarrow> c \<in> {CHR 0x09, CHR 0x0A, CHR 0x0C, CHR 0x0D, CHR '' ''}"

text \<open>
  The rest of \<open>'.*?'\<close> (or of \<open>".*?"\<close>) behind its first quote: up to the next quote, which has to come
  before the line ends, because a dot does not match a line feed.
\<close>

fun quoted :: "char \<Rightarrow> bytes \<Rightarrow> (bytes \<times> bytes) option" where
  "quoted q [] = None"
| "quoted q (c # cs) =
     (if c = q then Some ([c], cs)
      else if c = LF then None
      else map_option (apfst ((#) c)) (quoted q cs))"

text \<open>
  \<open>FindAllString\<close> of the expression \<open>'.*?'|".*?"|\S+\<close>: at each position the alternatives are tried in
  order; where none matches, the search goes on behind that byte.
\<close>

lemma quoted_length: "quoted q cs = Some (t, r) \<Longrightarrow> length r < length cs"
  by (induction cs arbitrary: t r) (auto split: if_splits)

function tokens :: "bytes \<Rightarrow> bytes list" where
  "tokens [] = []"
| "tokens (c # cs) =
     (case if c = APOS \<or> c = QUOT then quoted c cs else None of
        Some (t, r) \<Rightarrow> (c # t) # tokens r
      | None \<Rightarrow>
          if re_space c then tokens cs
          else (c # takeWhile (\<lambda>d. \<not> re_space d) cs) # tokens (dropWhile (\<lambda>d. \<not> re_space d) cs))"
  by pat_completeness auto
termination
  by (relation "measure length")
     (auto dest: quoted_length simp: length_dropWhile_le less_Suc_eq_le split: if_splits)

declare tokens.simps(2) [simp del]

text \<open>\<open>strconv.ParseBool\<close>.\<close>

definition parse_bool_word :: "bytes \<Rightarrow> bool option" where
  "parse_bool_word s =
     (if s \<in> {''1'', ''t'', ''T'', ''TRUE'', ''true'', ''True''} then Some True
      else if s \<in> {''0'', ''f'', ''F'', ''FALSE'', ''false'', ''False''} then Some False
      else None)"

text \<open>The typed argument for a word: an integer, a float, a truth value or a string.\<close>

definition cli_arg :: "'f golib \<Rightarrow> bytes \<Rightarrow> 'f gval" where
  "cli_arg L word =
     (let item = trim word [QUOT, APOS] in
      case parse_int item of
        Ok a \<Rightarrow> VInt a
      | _ \<Rightarrow>
          (case gl_fparse L item of
             Inr x \<Rightarrow> VFloat x
           | Inl _ \<Rightarrow>
               (case parse_bool_word item of
                  Some b \<Rightarrow> VBool b
                | None \<Rightarrow>
                    if length item = 1 then VString (rune_string (of_char (hd item))) else VString item)))"


section \<open>The table of commands\<close>

text \<open>An entry of \<open>helpCommands\<close>: the slice of name, usage, description and \<open>"true"\<close> or \<open>"false"\<close>.\<close>

record help_entry =
  he_name :: bytes
  he_usage :: bytes
  he_desc :: bytes
  he_async :: bytes

text \<open>The global variables of the program, and what it has printed.\<close>

record cli =
  help_commands :: "help_entry list"
  help_commands_map :: "bytes \<rightharpoonup> nat"
  cli_out :: bytes

definition cli_start :: cli where
  "cli_start = \<lparr>help_commands = [], help_commands_map = Map.empty, cli_out = []\<rparr>"

definition cli_print :: "bytes \<Rightarrow> cli \<Rightarrow> cli" where
  "cli_print b s = s\<lparr>cli_out := cli_out s @ b\<rparr>"

definition is_cmd_async :: "bytes \<Rightarrow> cli \<Rightarrow> bool" where
  "is_cmd_async cmd s \<longleftrightarrow> list_ex (\<lambda>v. he_name v = cmd \<and> he_async v = ''true'') (help_commands s)"

definition completion_handler :: "'f golib \<Rightarrow> bytes \<Rightarrow> cli \<Rightarrow> bytes list" where
  "completion_handler L inp s =
     map he_name (filter (\<lambda>i. has_prefix (he_name i) (to_upper L inp)) (help_commands s))"

definition entry_text :: "help_entry \<Rightarrow> bytes" where
  "entry_text e =
     he_name e @ [LF] @ '' '' @ he_desc e @
     (if 0 < length (he_usage e) then [LF] @ '' usage: '' @ he_usage e else []) @ [LF, LF]"

definition print_command_help :: "help_entry \<Rightarrow> cli \<Rightarrow> cli" where
  "print_command_help e s = cli_print (entry_text e) s"

definition print_generic_help :: "cli \<Rightarrow> cli" where
  "print_generic_help =
     cli_print (''broadcast-cli'' @ [LF] @ ''Type:   '' @ [QUOT] @ ''help <command>'' @ [QUOT] @
       '' for help on <command>'' @ [LF] @ ''    '' @ [LF])"

text \<open>\<open>printHelp\<close>; \<open>cmds\<close> are all the words of the line, \<open>help\<close> the first of them.\<close>

definition print_help :: "'f golib \<Rightarrow> bytes list \<Rightarrow> cli \<Rightarrow> cli" where
  "print_help L cmds s =
     (let args = tl cmds in
      if length args = 0 then print_generic_help s
      else if 1 < length args then cli_print [LF] s
      else foldl (\<lambda>s e. print_command_help e s) s
             (filter (\<lambda>e. he_name e = to_upper L (hd args)) (help_commands s)))"

text \<open>\<open>printCmds\<close>; a name that is missing in the map has index 0, as Go's zero value.\<close>

fun print_names :: "bytes list \<Rightarrow> cli \<Rightarrow> unit res \<times> cli" where
  "print_names [] s = (Ok (), s)"
| "print_names (v # vs) s =
     (let i = (case help_commands_map s v of Some i \<Rightarrow> i | None \<Rightarrow> 0)
      in if i < length (help_commands s) then print_names vs (print_command_help (help_commands s ! i) s)
         else (Panic index_panic, s))"

definition print_cmds :: "cli \<Rightarrow> unit res \<times> cli" where
  "print_cmds s = print_names (sort (map he_name (help_commands s))) s"

section \<open>Printing a reply\<close>

definition assert_panic :: string where
  "assert_panic = ''interface conversion''"

text \<open>The text that \<open>printReply\<close> prints for a reply to any command but \<open>CMDS\<close>.\<close>

fun is_map :: "'f gval \<Rightarrow> bool" where
  "is_map (VMap _) = True" | "is_map _ = False"

fun is_array :: "'f gval \<Rightarrow> bool" where
  "is_array (VArray _) = True" | "is_array _ = False"

lemma size_map_of: "map_of kvs k = Some v \<Longrightarrow> size v < Suc (size_list (size_prod (\<lambda>_. 0) size) kvs)"
  by (induction kvs) (auto split: if_splits)

lemma size_enumerate: "(i, v) \<in> set (enumerate n (take m vs)) \<Longrightarrow> size v < Suc (size_list size vs)"
proof -
  assume "(i, v) \<in> set (enumerate n (take m vs))"
  then have "snd (i, v) \<in> set (map snd (enumerate n (take m vs)))" unfolding set_map by (rule imageI)
  then have "v \<in> set (take m vs)" unfolding map_snd_enumerate by (simp only: snd_conv)
  then have "v \<in> set vs" by (rule in_set_takeD)
  then show ?thesis by (induction vs) auto
qed

function reply_text :: "'f golib \<Rightarrow> bytes \<Rightarrow> 'f gval \<Rightarrow> bytes" where
  "reply_text L indent (VInt64 n) = ''(integer) '' @ append_int n @ [LF]"
| "reply_text L indent (VFloat x) = ''(float) '' @ gl_fixed L x @ [LF]"
| "reply_text L indent (VString s) = s @ [LF]"
| "reply_text L indent (VBytes b) = gl_quote L b @ [LF]"
| "reply_text L indent VNil = ''(nil)'' @ [LF]"
| "reply_text L indent (VBool b) = (if b then ''true'' else ''false'') @ [LF]"
| "reply_text L indent (VError e) = e @ [LF]"
| "reply_text L indent (VMap kvs) =
     concat (map (\<lambda>k.
         case map_of kvs k of
           None \<Rightarrow> []
         | Some v \<Rightarrow>
             if v = VNil then []
             else indent @ k @ '': '' @ (if is_array v then [LF] else []) @ reply_text L [] v)
       (sort (remdups (map fst kvs))))"
| "reply_text L indent (VArray vs) =
     concat (map (\<lambda>(i, v). dec_nat i @ '') '' @ (if is_map v then [LF] else []) @ reply_text L '' '' v)
       (enumerate 1 (take 10 vs)))"
| "reply_text L indent (VInt n) = []"
| "reply_text L indent (VByte b) = []"
  by pat_completeness auto
termination
  by (relation "measure (\<lambda>(L, indent, v). size v)") (auto dest: size_map_of size_enumerate)

text \<open>
  The branch for \<open>CMDS\<close>: the entry for one command, with the type assertions of the source, and the
  loop over the map.
\<close>

definition help_entry_of :: "bytes \<Rightarrow> 'f gval \<Rightarrow> help_entry res" where
  "help_entry_of k v =
     (case v of
        VMap cmd \<Rightarrow>
          (case (map_of cmd ''Description'', map_of cmd ''Usage'', map_of cmd ''FireForget'') of
             (Some (VString desc), Some (VString usage), Some (VBool async)) \<Rightarrow>
               Ok \<lparr>he_name = k, he_usage = usage, he_desc = desc,
                   he_async = (if async then ''true'' else ''false'')\<rparr>
           | _ \<Rightarrow> Panic assert_panic)
      | _ \<Rightarrow> Panic assert_panic)"

fun print_cmds_reply :: "(bytes \<times> 'f gval) list \<Rightarrow> bool \<Rightarrow> bytes list \<Rightarrow> cli \<Rightarrow> unit res \<times> cli" where
  "print_cmds_reply r help_reply [] s = (Ok (), s)"
| "print_cmds_reply r help_reply (k # ks) s =
     (case help_entry_of k (the (map_of r k)) of
        Ok e \<Rightarrow>
          if help_reply then
            print_cmds_reply r help_reply ks
              (s\<lparr>help_commands := help_commands s @ [e],
                 help_commands_map := (help_commands_map s)(k \<mapsto> length (help_commands s))\<rparr>)
          else print_cmds_reply r help_reply ks (print_command_help e s)
      | Err x \<Rightarrow> (Err x, s)
      | Panic p \<Rightarrow> (Panic p, s))"

definition print_reply :: "'f golib \<Rightarrow> bytes \<Rightarrow> 'f gval \<Rightarrow> bytes \<Rightarrow> cli \<Rightarrow> unit res \<times> cli" where
  "print_reply L cmd reply indent s =
     (if to_lower L cmd = ''cmds'' then
        (case reply of
           VMap r \<Rightarrow> print_cmds_reply r (help_commands s = []) (gl_range L (fst ` set r)) s
         | VError e \<Rightarrow> (Ok (), cli_print (e @ [LF]) s)
         | _ \<Rightarrow> (Panic assert_panic, s))
      else (Ok (), cli_print (reply_text L indent reply) s))"


section \<open>The main loop\<close>

text \<open>A command that is answered: \<open>Do\<close>, then the error or the reply is printed.\<close>

definition do_and_print :: "'f golib \<Rightarrow> dial \<Rightarrow> int \<Rightarrow> bytes \<Rightarrow> 'f gval list \<Rightarrow> pool \<times> cli \<Rightarrow>
    unit res \<times> pool \<times> cli" where
  "do_and_print L d now cmd args ps =
     (case client_do L d now cmd args (fst ps) of
        (Ok reply, p) \<Rightarrow> (case print_reply L cmd reply [] (snd ps) of (r, s) \<Rightarrow> (r, p, s))
      | (Err e, p) \<Rightarrow> (Ok (), p, cli_print (err_text L e) (snd ps))
      | (Panic q, p) \<Rightarrow> (Panic q, p, snd ps))"

text \<open>
  The endless loop behind \<open>SUBSCRIBE\<close>, with fuel: it only ends by a panic, which is the result.  An
  error of \<open>Read\<close> is printed and the loop goes on.
\<close>

fun subscribe_loop :: "'f golib \<Rightarrow> bytes \<Rightarrow> nat \<Rightarrow> connection \<Rightarrow> cli \<Rightarrow> (string \<times> connection \<times> cli) option" where
  "subscribe_loop L cmd 0 x s = None"
| "subscribe_loop L cmd (Suc k) x s =
     (case cc_read L x of
        (Ok v, x') \<Rightarrow>
          (case print_reply L cmd v [] s of
             (Panic q, s') \<Rightarrow> Some (q, x', s')
           | (_, s') \<Rightarrow> subscribe_loop L cmd k x' s')
      | (Err e, x') \<Rightarrow> subscribe_loop L cmd k x' (cli_print (err_text L e) s)
      | (Panic q, x') \<Rightarrow> Some (q, x', s))"

text \<open>What is still to arrive on a connection.\<close>

definition conn_input :: "connection \<Rightarrow> nat" where
  "conn_input x = (case cc_net x of None \<Rightarrow> 0 | Some n \<Rightarrow> length (br_in (nc_reader n)))"

definition cli_subscribe :: "'f golib \<Rightarrow> dial \<Rightarrow> bytes \<Rightarrow> 'f gval list \<Rightarrow> pool \<times> cli \<Rightarrow> unit res \<times> pool \<times> cli" where
  "cli_subscribe L d cmd args ps =
     (let (c, p1) = pool_get (fst ps);
          (r, p2) = with_conn (cc_do_async L d cmd args) c p1
      in case (r, pl_store p2 c) of
           (Panic q, _) \<Rightarrow> (Panic q, p2, snd ps)
         | (_, None) \<Rightarrow> (Ok (), p2, snd ps)
         | (_, Some x) \<Rightarrow>
             (case subscribe_loop L cmd (Suc (Suc (conn_input x))) x (snd ps) of
                Some (q, x', s) \<Rightarrow> (Panic q, p2\<lparr>pl_store := (pl_store p2)(c \<mapsto> x')\<rparr>, s)
              | None \<Rightarrow> (Ok (), p2, snd ps)))"

text \<open>The body of the loop of \<open>main\<close> for a line; \<open>d\<close> and \<open>now\<close> belong to the network call it makes.\<close>

definition cli_line :: "'f golib \<Rightarrow> dial \<Rightarrow> int \<Rightarrow> bytes \<Rightarrow> pool \<times> cli \<Rightarrow> unit res \<times> pool \<times> cli" where
  "cli_line L d now input ps =
     (let cmds = tokens input in
      if cmds = [] then (Ok (), ps)
      else
        let args = map (cli_arg L) (tl cmds); cmd = to_upper L (hd cmds) in
        if to_lower L cmd = ''help'' \<or> cmd = ''?'' then (Ok (), fst ps, print_help L cmds (snd ps))
        else if cmd = ''CMDS'' then (case print_cmds (snd ps) of (r, s) \<Rightarrow> (r, fst ps, s))
        else if cmd = ''SUBSCRIBE'' then cli_subscribe L d cmd args ps
        else
          (case (if is_cmd_async cmd (snd ps)
                 then (case client_do_async L d cmd args (fst ps) of
                         (Panic q, p) \<Rightarrow> (Panic q, p, snd ps) | (_, p) \<Rightarrow> (Ok (), p, snd ps))
                 else do_and_print L d now cmd args ps) of
             (Ok _, p, s) \<Rightarrow> (Ok (), p, cli_print [LF] s)
           | out \<Rightarrow> out))"

text \<open>
  The loop over what the line editor returns: an error, by its text, or a line.
\<close>

fun cli_loop :: "'f golib \<Rightarrow> ((bytes + bytes) \<times> dial \<times> int) list \<Rightarrow> pool \<times> cli \<Rightarrow> unit res \<times> pool \<times> cli" where
  "cli_loop L [] ps = (Ok (), ps)"
| "cli_loop L ((Inl e, d, now) # evs) ps = (Ok (), fst ps, cli_print (e @ [LF]) (snd ps))"
| "cli_loop L ((Inr input, d, now) # evs) ps =
     (case cli_line L d now input ps of
        (Ok _, ps') \<Rightarrow> cli_loop L evs ps'
      | out \<Rightarrow> out)"

text \<open>\<open>main\<close> behind the flags: the client, the first \<open>CMDS\<close>, and the loop.\<close>

definition cli_main :: "(address \<Rightarrow> gerr option) \<Rightarrow> 'f golib \<Rightarrow> int64 \<Rightarrow> bytes \<Rightarrow> int \<Rightarrow> bytes \<Rightarrow> bool \<Rightarrow>
    dial \<times> int \<Rightarrow> ((bytes + bytes) \<times> dial \<times> int) list \<Rightarrow> unit res \<times> pool option \<times> cli" where
  "cli_main resolve L port ip max_idle bprotocol skip_cmd d0 evs =
     (case new_client resolve port ip max_idle bprotocol of
        Ok p \<Rightarrow>
          (case (if skip_cmd then (Ok (), p, cli_start) else do_and_print L (fst d0) (snd d0) ''cmds'' [] (p, cli_start)) of
             (Ok _, ps) \<Rightarrow> (case cli_loop L evs ps of (r, p', s) \<Rightarrow> (r, Some p', s))
           | (r, p', s) \<Rightarrow> (r, Some p', s))
      | Err e \<Rightarrow> (Err e, None, cli_print (err_text L e) cli_start)
      | Panic q \<Rightarrow> (Panic q, None, cli_start))"


section \<open>Reading a line\<close>

lemma quoted_stop: "q \<notin> set w \<Longrightarrow> LF \<notin> set w \<Longrightarrow> quoted q (w @ q # rest) = Some (w @ [q], rest)"
  by (induction w) auto

lemma tokens_quoted:
  assumes "q = APOS \<or> q = QUOT" and "q \<notin> set w" and "LF \<notin> set w"
  shows "tokens (q # w @ q # rest) = (q # w @ [q]) # tokens rest"
  using assms quoted_stop [OF assms(2,3), of rest] by (subst tokens.simps(2)) simp

lemma tokens_blank: "tokens (CHR '' '' # rest) = tokens rest"
  by (simp add: re_space_def tokens.simps(2))

text \<open>A word that needs no quotes.\<close>

definition plain_word :: "bytes \<Rightarrow> bool" where
  "plain_word w \<longleftrightarrow> w \<noteq> [] \<and> hd w \<noteq> APOS \<and> hd w \<noteq> QUOT \<and> list_all (\<lambda>c. \<not> re_space c) w"

lemma tokens_plain:
  assumes "plain_word w" and "rest = [] \<or> re_space (hd rest)"
  shows "tokens (w @ rest) = w # tokens rest"
proof (cases w)
  case (Cons c cs)
  with assms(1) have w: "c \<noteq> APOS" "c \<noteq> QUOT" "\<not> re_space c" "\<forall>d \<in> set cs. \<not> re_space d"
    by (simp_all add: plain_word_def list_all_iff)
  have "takeWhile (\<lambda>d. \<not> re_space d) rest = []" "dropWhile (\<lambda>d. \<not> re_space d) rest = rest"
    using assms(2) by (cases rest; simp)+
  with w(4) have "takeWhile (\<lambda>d. \<not> re_space d) (cs @ rest) = cs" "dropWhile (\<lambda>d. \<not> re_space d) (cs @ rest) = rest"
    by (simp_all add: takeWhile_append2 dropWhile_append2)
  with Cons w(1-3) show ?thesis by (simp add: tokens.simps(2))
qed (use assms in \<open>simp add: plain_word_def\<close>)

text \<open>An argument as a user quotes it.\<close>

definition quote_word :: "char \<times> bytes \<Rightarrow> bytes" where
  "quote_word a = fst a # snd a @ [fst a]"

definition quotable :: "char \<times> bytes \<Rightarrow> bool" where
  "quotable a \<longleftrightarrow> (fst a = APOS \<or> fst a = QUOT) \<and> APOS \<notin> set (snd a) \<and> QUOT \<notin> set (snd a) \<and> LF \<notin> set (snd a)"

lemma tokens_args:
  "\<forall>a \<in> set args. quotable a \<Longrightarrow> tokens (concat (map (\<lambda>a. CHR '' '' # quote_word a) args)) = map quote_word args"
proof (induction args)
  case (Cons a args)
  then have "quotable a" by simp
  then have a: "fst a = APOS \<or> fst a = QUOT" "fst a \<notin> set (snd a)" "LF \<notin> set (snd a)"
    by (auto simp: quotable_def)
  from tokens_quoted [OF a] Cons show ?case
    by (simp add: tokens_blank quote_word_def)
qed simp

lemma trim_left_no: "set s \<inter> set cs = {} \<Longrightarrow> trim_left s cs = s"
  by (cases s) (auto simp: trim_left_def)

lemma trim_quote_word: "quotable a \<Longrightarrow> trim (quote_word a) [QUOT, APOS] = snd a"
proof -
  assume a: "quotable a"
  have "trim_left (quote_word a) [QUOT, APOS] = trim_left (snd a @ [fst a]) [QUOT, APOS]"
    using a by (auto simp: quotable_def quote_word_def trim_left_def)
  moreover have "trim_left (snd a @ [fst a]) [QUOT, APOS] = (if snd a = [] then [] else snd a @ [fst a])"
    using a by (cases "snd a") (auto simp: quotable_def trim_left_def)
  moreover have "trim_left (rev (snd a @ [fst a])) [QUOT, APOS] = rev (snd a)"
    using a trim_left_no [of "rev (snd a)" "[QUOT, APOS]"] by (auto simp: quotable_def trim_left_def)
  ultimately show ?thesis by (simp add: trim_def trim_left_def)
qed

lemma cli_arg_quoted: "quotable a \<Longrightarrow> cli_arg L (quote_word a) = cli_arg L (snd a)"
proof -
  assume a: "quotable a"
  have "trim (snd a) [QUOT, APOS] = snd a"
    using a trim_left_no [of "snd a" "[QUOT, APOS]"] trim_left_no [of "rev (snd a)" "[QUOT, APOS]"]
    by (simp add: trim_def quotable_def)
  then show ?thesis using trim_quote_word [OF a] by (simp add: cli_arg_def)
qed

text \<open>What a line does that calls an ordinary command: the arguments are those typed.\<close>

lemma cli_line_words:
  assumes "plain_word name" and "\<forall>a \<in> set args. quotable a"
  shows "tokens (name @ concat (map (\<lambda>a. CHR '' '' # quote_word a) args)) = name # map quote_word args"
  using tokens_plain [OF assms(1), of "concat (map (\<lambda>a. CHR '' '' # quote_word a) args)"] tokens_args [OF assms(2)]
  by (cases args) (simp_all add: re_space_def)


section \<open>The loop behind SUBSCRIBE\<close>

definition reads_left :: "connection \<Rightarrow> nat" where
  "reads_left x = (case cc_net x of None \<Rightarrow> 0 | Some _ \<Rightarrow> Suc (conn_input x))"

lemma cc_read_shrinks:
  assumes "conn_ok x" and "cc_read L x = (r, y)" and "\<forall>q. r \<noteq> Panic q"
  shows "reads_left y < reads_left x"
proof (cases "cc_net x")
  case (Some n)
  obtain t rd where t: "read_interface L (nc_reader n) = (t, rd)" by fastforce
  have len: "t = Ok v \<Longrightarrow> length (br_in rd) < length (br_in (nc_reader n))" for v
    using progress_read_interface t by (auto simp: progress_def)
  have live: "nc_live n" using assms(1) Some by (simp add: conn_ok_def)
  show ?thesis
    using assms(2,3) t Some len live
    by (cases t) (auto simp: cc_read_def fail_with_ok reads_left_def conn_input_def)
qed (use assms in \<open>auto simp: cc_read_def\<close>)

lemma subscribe_loop_ends:
  assumes "conn_ok x" and "to_lower L cmd \<noteq> ''cmds''" and "reads_left x < k"
  shows "\<exists>q y t. subscribe_loop L cmd k x s = Some (q, y, t)"
  using assms(1,3)
proof (induction k arbitrary: x s)
  case (Suc k)
  obtain r y where y: "cc_read L x = (r, y)" by fastforce
  have ok: "conn_ok y" using cc_read_ok [OF Suc.prems(1), of L] y by simp
  show ?case
  proof (cases r)
    case (Panic q)
    with y show ?thesis by simp
  next
    case (Ok v)
    with cc_read_shrinks [OF Suc.prems(1) y] Suc.prems(2) have "reads_left y < k" by simp
    from Suc.IH [OF ok this] y Ok assms(2) show ?thesis by (simp add: print_reply_def)
  next
    case (Err e)
    with cc_read_shrinks [OF Suc.prems(1) y] Suc.prems(2) have "reads_left y < k" by simp
    from Suc.IH [OF ok this] y Err show ?thesis by simp
  qed
qed simp

lemma reads_left_bound: "reads_left x < Suc (Suc (conn_input x))"
  by (simp add: reads_left_def split: option.split)

lemma to_lower_names: "to_lower L ''SUBSCRIBE'' = ''subscribe''" "to_lower L ''cmds'' = ''cmds''"
proof -
  have "is_ascii ''SUBSCRIBE''" "is_ascii ''cmds''" by code_simp+
  moreover have "map lower_char ''SUBSCRIBE'' = ''subscribe''" "map lower_char ''cmds'' = ''cmds''" by code_simp+
  ultimately show "to_lower L ''SUBSCRIBE'' = ''subscribe''" "to_lower L ''cmds'' = ''cmds''"
    by (simp_all add: to_lower_def)
qed

lemma cli_subscribe_panics:
  assumes "pool_ok p"
  shows "\<exists>q p' s'. cli_subscribe L d ''SUBSCRIBE'' args (p, s) = (Panic q, p', s')"
proof -
  obtain c p1 where g: "pool_get p = (c, p1)" by fastforce
  note g' = pool_get_frame [OF assms g]
  obtain x where x: "pl_store p1 c = Some x" using g'(2) by blast
  have ok: "conn_ok x" using pool_okD [OF g'(1) x] .
  obtain r y where y: "cc_do_async L d ''SUBSCRIBE'' args x = (r, y)" by fastforce
  have oky: "conn_ok y" using cc_do_async_ok(1) [OF ok, of L d "''SUBSCRIBE''" args] y by simp
  have np: "\<forall>q. r \<noteq> Panic q" using cc_do_async_ok(2) [OF ok, of L d "''SUBSCRIBE''" args] y by auto
  obtain q z t where z: "subscribe_loop L ''SUBSCRIBE'' (Suc (Suc (conn_input y))) y s = Some (q, z, t)"
    using subscribe_loop_ends [OF oky _ reads_left_bound, of L "''SUBSCRIBE''" s] by (auto simp: to_lower_names)
  show ?thesis using g x y z np by (cases r) (simp_all add: cli_subscribe_def with_conn_def del: subscribe_loop.simps)
qed

section \<open>The table of commands after CMDS\<close>

definition entry_of :: "bytes \<Rightarrow> command \<Rightarrow> help_entry" where
  "entry_of k c =
     \<lparr>he_name = k, he_usage = cmd_usage c, he_desc = cmd_description c,
      he_async = (if cmd_fire_forget c then ''true'' else ''false'')\<rparr>"

lemma help_entry_command: "help_entry_of k (command_value c) = Ok (entry_of k c)"
  by (simp add: help_entry_of_def command_value_def entry_of_def)

text \<open>The table and its index agree.\<close>

definition table_ok :: "cli \<Rightarrow> bool" where
  "table_ok s \<longleftrightarrow>
     distinct (map he_name (help_commands s)) \<and>
     help_commands_map s = map_of (zip (map he_name (help_commands s)) [0 ..< length (help_commands s)])"

lemma table_ok_start: "table_ok cli_start"
  by (simp add: table_ok_def cli_start_def)

lemma table_ok_add:
  assumes "table_ok s" and "he_name e \<notin> set (map he_name (help_commands s))"
  shows "table_ok (s\<lparr>help_commands := help_commands s @ [e],
    help_commands_map := (help_commands_map s)(he_name e \<mapsto> length (help_commands s))\<rparr>)"
proof -
  let ?xs = "map he_name (help_commands s)" and ?n = "length (help_commands s)"
  have "he_name e \<notin> fst ` set (zip ?xs [0 ..< ?n])" using assms(2) by (auto dest: set_zip_leftD)
  then have "map_of (zip ?xs [0 ..< ?n] @ [(he_name e, ?n)]) = (map_of (zip ?xs [0 ..< ?n]))(he_name e \<mapsto> ?n)"
    by (rule map_of_snoc)
  with assms show ?thesis by (simp add: table_ok_def)
qed

lemma print_cmds_reply_fill:
  assumes "\<forall>k \<in> set ks. \<exists>c. help k = Some c \<and> map_of r k = Some (command_value c)" and "distinct ks" and "table_ok s"
    and "set ks \<inter> set (map he_name (help_commands s)) = {}"
  shows "\<exists>t. print_cmds_reply r True ks s = (Ok (), t) \<and> table_ok t \<and> cli_out t = cli_out s \<and>
    help_commands t = help_commands s @ map (\<lambda>k. entry_of k (the (help k))) ks"
  using assms
proof (induction ks arbitrary: s)
  case (Cons k ks)
  then obtain c where c: "help k = Some c" "map_of r k = Some (command_value c)" by auto
  let ?s = "s\<lparr>help_commands := help_commands s @ [entry_of k c],
    help_commands_map := (help_commands_map s)(k \<mapsto> length (help_commands s))\<rparr>"
  have "table_ok ?s" using table_ok_add [OF Cons.prems(3), of "entry_of k c"] Cons.prems(4) by (simp add: entry_of_def)
  moreover have "set ks \<inter> set (map he_name (help_commands ?s)) = {}"
    using Cons.prems(2,4) by (auto simp: entry_of_def)
  ultimately obtain t where t: "print_cmds_reply r True ks ?s = (Ok (), t)" "table_ok t" "cli_out t = cli_out s"
    "help_commands t = help_commands ?s @ map (\<lambda>k. entry_of k (the (help k))) ks"
    using Cons.IH [of ?s] Cons.prems(1,2) by auto
  with c show ?case by (simp add: help_entry_command)
qed simp


lemma cli_print_fields [simp]:
  "help_commands (cli_print b s) = help_commands s" "help_commands_map (cli_print b s) = help_commands_map s"
  "cli_print b (cli_print a s) = cli_print (a @ b) s" "cli_print [] s = s"
  by (simp_all add: cli_print_def)

lemma print_names_known:
  assumes "\<forall>v \<in> set vs. \<exists>i. help_commands_map s v = Some i \<and> i < length (help_commands s)"
  shows "print_names vs s =
    (Ok (), cli_print (concat (map (\<lambda>v. entry_text (help_commands s ! the (help_commands_map s v))) vs)) s)"
  using assms
proof (induction vs arbitrary: s)
  case (Cons v vs)
  then obtain i where "help_commands_map s v = Some i" "i < length (help_commands s)" by auto
  with Cons.IH [of "print_command_help (help_commands s ! i) s"] Cons.prems show ?case
    by (simp add: print_command_help_def)
qed simp

lemma table_lookup:
  assumes "table_ok s" and "i < length (help_commands s)"
  shows "help_commands_map s (he_name (help_commands s ! i)) = Some i"
  using assms map_of_zip_nth [of "map he_name (help_commands s)" "[0 ..< length (help_commands s)]" i]
  by (simp add: table_ok_def)

lemma print_cmds_table:
  assumes "table_ok s" and "\<forall>e \<in> set (help_commands s). entry (he_name e) = e"
  shows "print_cmds s =
    (Ok (), cli_print (concat (map (\<lambda>v. entry_text (entry v)) (sort (map he_name (help_commands s))))) s)"
proof -
  have look: "\<exists>i. help_commands_map s v = Some i \<and> i < length (help_commands s) \<and> help_commands s ! i = entry v"
    if "v \<in> he_name ` set (help_commands s)" for v
  proof -
    from that obtain i where i: "i < length (help_commands s)" "v = he_name (help_commands s ! i)"
      by (auto simp: in_set_conv_nth)
    with table_lookup [OF assms(1) i(1)] assms(2) show ?thesis by force
  qed
  then have "print_names (sort (map he_name (help_commands s))) s =
    (Ok (), cli_print (concat (map (\<lambda>v. entry_text (help_commands s ! the (help_commands_map s v)))
      (sort (map he_name (help_commands s))))) s)"
    by (intro print_names_known) fastforce
  moreover have "map (\<lambda>v. entry_text (help_commands s ! the (help_commands_map s v))) (sort (map he_name (help_commands s))) =
      map (\<lambda>v. entry_text (entry v)) (sort (map he_name (help_commands s)))"
    using look by (intro map_cong) fastforce+
  ultimately show ?thesis by (simp add: print_cmds_def)
qed

lemma emits_net_command: "\<exists>e. emits (net_write_command L b cmd args) e"
  using emits_redis_command emits_line_command emits_client_command
  unfolding net_write_command_def by (cases "b = ''redis''"; cases "b = ''line''") fastforce+

text \<open>The values that the server marshals for \<open>CMDS\<close>.\<close>

definition help_pairs :: "'f golib \<Rightarrow> (bytes \<rightharpoonup> command) \<Rightarrow> (bytes \<times> 'f gval) list" where
  "help_pairs L help = map (\<lambda>k. (k, command_value (the (help k)))) (gl_range L (dom help))"

lemma help_pairs_lookup:
  assumes "range_ok L" and "finite (dom help)" and "help k = Some c"
  shows "map_of (help_pairs L help) k = Some (command_value c)"
  using assms range_okD(2) [OF assms(1,2)] by (auto simp: help_pairs_def map_of_map_restrict restrict_map_def)

lemma help_pairs_keys: "range_ok L \<Longrightarrow> finite (dom help) \<Longrightarrow> fst ` set (help_pairs L help) = dom help"
  using range_okD(2) [of L "dom help"] by (force simp: help_pairs_def)

section \<open>Properties\<close>

text \<open>
C20. The command table of the interactive client is the server's: when the reply to the first \<open>CMDS\<close> is
what the server's handler writes (and JSON gives the map of commands back), the table holds exactly the
registered commands; a command is called asynchronously iff the server registered it as
fire-and-forget; completion offers exactly the commands with the typed prefix; and \<open>CMDS\<close> prints every
command once, in alphabetical order.
\<close>

theorem cli_table_is_registry:
  assumes "range_ok L" and "finite (dom (ctx_help ctx))" and "0 < k"
    and "gl_json L (help_value L (ctx_help ctx)) = Inr j" and "blob_ok j"
    and "gl_unjson L j = Inr (help_pairs L (ctx_help ctx))"
    and "out = bw_sent (snd (bd_help L ctx (new_writer 128)))"
  shows "\<exists>p s. do_and_print L (Inr (a, out)) now ''cmds'' [] (new_pool port host k b, cli_start) = (Ok (), p, s) \<and>
    (\<forall>cmd. is_cmd_async cmd s \<longleftrightarrow> (\<exists>c. ctx_help ctx cmd = Some c \<and> cmd_fire_forget c)) \<and>
    (\<forall>inp. set (completion_handler L inp s) = {n \<in> dom (ctx_help ctx). has_prefix n (to_upper L inp)}) \<and>
    print_cmds s = (Ok (), cli_print (concat (map (\<lambda>n. entry_text (entry_of n (the (ctx_help ctx n))))
      (sorted_list_of_set (dom (ctx_help ctx))))) s)"
proof -
  let ?hlp = "ctx_help ctx" and ?p = "new_pool port host k b"
  let ?ks = "gl_range L (dom ?hlp)"
  note rng = range_okD [OF assms(1,2)]
  have out: "out = enc_json j"
    using json_replied [of "new_writer 128" L "help_value L ?hlp"] assms(4,7)
    by (simp add: bd_help_def ctx_help_map_def replied_def)
  obtain e where "emits (net_write_command L (pl_bprotocol ?p) ''cmds'' []) e" using emits_net_command by blast
  from first_do_answered [OF _ _ pool_ok_new json_decodes [OF assms(5) _ assms(6)] this, of a "[]" now] assms(3) out
  obtain p where p: "client_do L (Inr (a, out)) now ''cmds'' [] ?p = (Ok (VMap (help_pairs L ?hlp)), p)"
    by (auto simp: new_pool_def)
  have "\<forall>n \<in> set ?ks. \<exists>c. ?hlp n = Some c \<and> map_of (help_pairs L ?hlp) n = Some (command_value c)"
    using rng(2) help_pairs_lookup [OF assms(1,2)] by blast
  from print_cmds_reply_fill [OF this rng(1) table_ok_start] obtain s where
    s: "print_cmds_reply (help_pairs L ?hlp) True ?ks cli_start = (Ok (), s)" "table_ok s"
    "help_commands s = map (\<lambda>n. entry_of n (the (?hlp n))) ?ks" by (auto simp: cli_start_def)
  have "print_reply L ''cmds'' (VMap (help_pairs L ?hlp)) [] cli_start = (Ok (), s)"
    using s(1) help_pairs_keys [OF assms(1,2)] by (simp add: print_reply_def to_lower_names cli_start_def)
  with p have run: "do_and_print L (Inr (a, out)) now ''cmds'' [] (?p, cli_start) = (Ok (), p, s)"
    by (simp add: do_and_print_def)
  have async: "is_cmd_async cmd s \<longleftrightarrow> (\<exists>c. ?hlp cmd = Some c \<and> cmd_fire_forget c)" for cmd
    using rng(2) by (auto simp: is_cmd_async_def s(3) list_ex_iff entry_of_def domIff split: if_splits)
  have compl: "set (completion_handler L inp s) = {n \<in> dom ?hlp. has_prefix n (to_upper L inp)}" for inp
    by (simp add: completion_handler_def s(3) filter_map comp_def entry_of_def rng(2))
  have "sort (map he_name (help_commands s)) = sorted_list_of_set (dom ?hlp)"
    using rng(1,2) sorted_list_of_set_sort_remdups [of ?ks]
    by (simp add: s(3) entry_of_def comp_def distinct_remdups_id)
  moreover have "\<forall>e \<in> set (help_commands s). entry_of (he_name e) (the (?hlp (he_name e))) = e"
    by (auto simp: s(3) entry_of_def)
  ultimately show ?thesis using run async compl print_cmds_table [OF s(2), of "\<lambda>n. entry_of n (the (?hlp n))"] by auto
qed


definition table_lib :: "int64 golib" where
  "table_lib = plain_lib\<lparr>gl_json := (\<lambda>v. Inr ''{..}''),
     gl_unjson := (\<lambda>_. Inr (help_pairs plain_lib [''PING'' \<mapsto> command ''PING'' ''ping'' [] False,
       ''COUNT'' \<mapsto> command ''COUNT'' ''count'' [] True]))\<rparr>"

theorem cli_table_is_registry_witness:
  "\<exists>(ctx :: unit bcontext) out p s. do_and_print table_lib (Inr (''127.0.0.1:7331'', out)) 1 ''cmds'' []
      (new_pool 7331 ''127.0.0.1'' 1 ''redis'', cli_start) = (Ok (), p, s) \<and>
    out = bw_sent (snd (bd_help table_lib ctx (new_writer 128))) \<and> is_cmd_async ''COUNT'' s \<and> \<not> is_cmd_async ''PING'' s"
proof -
  let ?hlp = "[''PING'' \<mapsto> command ''PING'' ''ping'' [] False, ''COUNT'' \<mapsto> command ''COUNT'' ''count'' [] True]"
  let ?ctx = "(new_broadcast_context :: unit bcontext)\<lparr>ctx_help := ?hlp\<rparr>"
  have r: "range_ok table_lib" and j: "gl_json table_lib (help_value table_lib (ctx_help ?ctx)) = Inr ''{..}''" and b: "blob_ok ''{..}''"
    using plain_lib_range_ok by (simp_all add: table_lib_def range_ok_def blob_ok_def)
  have u: "gl_unjson table_lib ''{..}'' = Inr (help_pairs table_lib (ctx_help ?ctx))"
    by (simp add: table_lib_def help_pairs_def)
  have f: "finite (dom (ctx_help ?ctx))" by simp
  from cli_table_is_registry [OF r f _ j b u refl, of 1 "''127.0.0.1:7331''" 1 7331 "''127.0.0.1''" "''redis''"]
  obtain p s where run: "do_and_print table_lib (Inr (''127.0.0.1:7331'', bw_sent (snd (bd_help table_lib ?ctx (new_writer 128))))) 1 ''cmds'' []
      (new_pool 7331 ''127.0.0.1'' 1 ''redis'', cli_start) = (Ok (), p, s)"
    and a: "\<forall>cmd. is_cmd_async cmd s \<longleftrightarrow> (\<exists>c. ctx_help ?ctx cmd = Some c \<and> cmd_fire_forget c)" by auto
  from a have "is_cmd_async ''COUNT'' s \<and> \<not> is_cmd_async ''PING'' s" by (simp add: command_def)
  with run show ?thesis by blast
qed

text \<open>
C32. A command line is read as it was meant: a plain command name followed by arguments in single or
double quotes, with any blanks inside, is split into exactly these words, and each argument gets the
type and value of its text without the quotes.
\<close>

theorem cli_reads_line:
  assumes "plain_word name" and "\<forall>a \<in> set args. quotable a"
    and "input = name @ concat (map (\<lambda>a. CHR '' '' # quote_word a) args)"
  shows "hd (tokens input) = name \<and>
    map (cli_arg L) (tl (tokens input)) = map (\<lambda>a. cli_arg L (snd a)) args"
  unfolding assms(3) cli_line_words [OF assms(1,2)] using assms(2) by (simp add: cli_arg_quoted)

theorem cli_reads_line_witness:
  "map (cli_arg plain_lib) (tl (tokens (''set'' @ [CHR '' ''] @ quote_word (QUOT, ''a b'') @ [CHR '' ''] @ quote_word (APOS, ''x''))))
    = [VString ''a b'', VString ''x'']"
proof -
  have x: "rune_string 120 = ''x''" by code_simp
  have "plain_word ''set''" by (simp add: plain_word_def re_space_def)
  moreover have "\<forall>a \<in> set [(QUOT, ''a b''), (APOS, ''x'')]. quotable a" by (simp add: quotable_def)
  moreover have "cli_arg plain_lib ''a b'' = VString ''a b''" "cli_arg plain_lib ''x'' = VString ''x''"
    by (simp_all add: cli_arg_def trim_def trim_left_def parse_int_def parse_uint_def is_digit_def plain_lib_def
        parse_bool_word_def x)
  ultimately show ?thesis using cli_reads_line [OF _ _ refl, of "''set''" "[(QUOT, ''a b''), (APOS, ''x'')]" plain_lib] by simp
qed

text \<open>
\<open>SUBSCRIBE\<close> in the interactive client cannot end well: the loop that prints the messages ignores
the errors of \<open>DoAsync\<close> and \<open>Read\<close>, and reads on with the network client that the error has removed.
Whatever the server sends, once the connection has ended (or could not be opened) the program dies of a
panic.
\<close>

theorem cli_subscribe_crashes:
  assumes "client_runs L (new_pool port host k b, {}) (p, H)"
    and "tokens input = name # words" and "to_upper L name = ''SUBSCRIBE''"
  shows "\<exists>q p' s'. cli_line L d now input (p, s) = (Panic q, p', s')"
proof -
  from client_runs_users [OF assms(1) users_ok_new] have "pool_ok p" by (simp add: users_ok_def)
  with cli_subscribe_panics [OF this, of L d "map (cli_arg L) words" s] assms(2,3) show ?thesis
    by (simp add: cli_line_def to_lower_names)
qed

theorem cli_subscribe_crashes_witness:
  "\<exists>q p' s'. cli_line plain_lib (Inr (''127.0.0.1:7331'', [])) 1 ''subscribe t''
      (new_pool 7331 ''127.0.0.1'' 1 ''redis'', cli_start) = (Panic q, p', s')"
proof -
  have "tokens ''subscribe t'' = [''subscribe'', ''t'']" by (simp add: tokens.simps re_space_def)
  moreover have "is_ascii ''subscribe''" "map upper_char ''subscribe'' = ''SUBSCRIBE''" by code_simp+
  then have "to_upper plain_lib ''subscribe'' = ''SUBSCRIBE''" by (simp add: to_upper_ascii)
  ultimately show ?thesis by (intro cli_subscribe_crashes [OF client_runs.init])
qed

text \<open>
  The interactive client prints something for every reply that it can get but a single byte, an empty
  array and a map without values.
\<close>

lemma reply_text_shown:
  assumes "wire_type v"
  shows "reply_text L indent v \<noteq> [] \<or> (\<exists>b. v = VByte b) \<or> v = VArray [] \<or>
    (\<exists>kvs. v = VMap kvs \<and> (\<forall>k w. map_of kvs k = Some w \<longrightarrow> w = VNil))"
proof (cases v)
  case (VArray vs)
  then show ?thesis by (cases vs) (auto simp: reply_text.simps)
next
  case (VMap kvs)
  show ?thesis
  proof (cases "\<forall>k w. map_of kvs k = Some w \<longrightarrow> w = VNil")
    case False
    then obtain k w where w: "map_of kvs k = Some w" "w \<noteq> VNil" by blast
    then have k: "k \<in> set (sort (remdups (map fst kvs)))" by (force dest: map_of_SomeD)
    let ?f = "\<lambda>k. case map_of kvs k of None \<Rightarrow> [] | Some v \<Rightarrow>
      if v = VNil then [] else indent @ k @ '': '' @ (if is_array v then [LF] else []) @ reply_text L [] v"
    have "?f k \<noteq> []" using w by simp
    with k have "concat (map ?f (sort (remdups (map fst kvs)))) \<noteq> []" unfolding concat_eq_Nil_conv by force
    with VMap show ?thesis by (simp add: reply_text.simps)
  qed (use VMap in blast)
qed (use assms in \<open>auto simp: reply_text.simps\<close>)

end
