(* ===== verification/Programs.thy ===== *)
theory Programs
  imports Service Cli
begin

text \<open>
  The other programs of the repository: the load generator of \<open>cmd/broadcast-benchmark/main.go\<close> over the
  pooled client, the start-up of \<open>cmd/broadcast-stats/main.go\<close>, and what both servers do around the
  accept loop (configuration file, start-up events, log lines).
\<close>

section \<open>The load generator\<close>

text \<open>
  The loops of \<open>waitBenchAsync\<close> and \<open>waitBench\<close> on the connection a worker holds: \<open>DoAsync\<close> or \<open>Do\<close> up to
  the first error, and the reads of the pipelined variant, whose errors are ignored.
\<close>

fun bench_async :: "'f golib \<Rightarrow> dial \<Rightarrow> bytes \<Rightarrow> 'f gval list \<Rightarrow> nat \<Rightarrow> connection \<Rightarrow> unit res \<times> connection" where
  "bench_async L d cmd args 0 x = (Ok (), x)"
| "bench_async L d cmd args (Suc n) x =
     (case cc_do_async L d cmd args x of
        (Ok _, x') \<Rightarrow> bench_async L d cmd args n x'
      | out \<Rightarrow> out)"

fun bench_sync :: "'f golib \<Rightarrow> dial \<Rightarrow> bytes \<Rightarrow> 'f gval list \<Rightarrow> nat \<Rightarrow> connection \<Rightarrow> unit res \<times> connection" where
  "bench_sync L d cmd args 0 x = (Ok (), x)"
| "bench_sync L d cmd args (Suc n) x =
     (case cc_do L d cmd args x of
        (Ok _, x') \<Rightarrow> bench_sync L d cmd args n x'
      | (Err e, x') \<Rightarrow> (Err e, x')
      | (Panic q, x') \<Rightarrow> (Panic q, x'))"

fun bench_reads :: "'f golib \<Rightarrow> nat \<Rightarrow> connection \<Rightarrow> unit res \<times> connection" where
  "bench_reads L 0 x = (Ok (), x)"
| "bench_reads L (Suc n) x =
     (case cc_read L x of
        (Panic q, x') \<Rightarrow> (Panic q, x')
      | (_, x') \<Rightarrow> bench_reads L n x')"

definition bench_pipelined :: "'f golib \<Rightarrow> dial \<Rightarrow> bytes \<Rightarrow> 'f gval list \<Rightarrow> nat \<Rightarrow> connection \<Rightarrow> unit res \<times> connection"
where
  "bench_pipelined L d cmd args n x =
     (case bench_async L d cmd args n x of
        (Ok _, x') \<Rightarrow> bench_reads L n x'
      | out \<Rightarrow> out)"

text \<open>
  A worker around such a loop: \<open>Get\<close>, the loop, the error message, and the deferred \<open>CloseConnection\<close>,
  which also runs when the loop panics.  The last component is what has been printed.
\<close>

definition bench_worker :: "'f golib \<Rightarrow> int \<Rightarrow> bytes \<Rightarrow> (connection \<Rightarrow> unit res \<times> connection) \<Rightarrow> pool \<times> bytes \<Rightarrow>
    unit res \<times> pool \<times> bytes" where
  "bench_worker L now cmd body po =
     (let (c, p1) = pool_get (fst po);
          (r, p2) = with_conn body c p1;
          out = snd po @ (case r of Err e \<Rightarrow> ''do '' @ cmd @ '' error '' @ err_text L e | _ \<Rightarrow> []);
          (e, p3) = pool_put now c p2
      in (case r of
            Panic q \<Rightarrow> Panic q
          | _ \<Rightarrow> (case e of Some q \<Rightarrow> Panic q | None \<Rightarrow> Ok ()), p3, out))"

definition wait_bench_async :: "'f golib \<Rightarrow> nat \<Rightarrow> dial \<Rightarrow> int \<Rightarrow> bytes \<Rightarrow> 'f gval list \<Rightarrow> pool \<times> bytes \<Rightarrow>
    unit res \<times> pool \<times> bytes" where
  "wait_bench_async L loop d now cmd args = bench_worker L now cmd (bench_async L d cmd args loop)"

definition wait_bench :: "'f golib \<Rightarrow> bool \<Rightarrow> nat \<Rightarrow> dial \<Rightarrow> int \<Rightarrow> bytes \<Rightarrow> 'f gval list \<Rightarrow> pool \<times> bytes \<Rightarrow>
    unit res \<times> pool \<times> bytes" where
  "wait_bench L pipelined loop d now cmd args =
     bench_worker L now cmd
       (if pipelined then bench_pipelined L d cmd args loop else bench_sync L d cmd args loop)"

definition setup_bench :: "'f golib \<Rightarrow> dial \<Rightarrow> int \<Rightarrow> bytes \<Rightarrow> 'f gval list \<Rightarrow> pool \<times> bytes \<Rightarrow> unit res \<times> pool \<times> bytes"
where
  "setup_bench L d now cmd args = bench_worker L now cmd (bench_sync L d cmd args 1)"

text \<open>The requests per worker, from the flags \<open>-n\<close> and \<open>-c\<close>.\<close>

definition bench_loop :: "int64 \<Rightarrow> int64 \<Rightarrow> int64 res" where
  "bench_loop number clients =
     (if sint number \<le> 0 then Panic ''invalid number''
      else if sint clients \<le> 0 \<or> sint number < sint clients then Panic ''invalid client number''
      else Ok (word_of_int (sint number div sint clients)))"

text \<open>The rate that \<open>bench\<close> prints, from the times (in nanoseconds) before and after the workers.\<close>

definition bench_rate :: "'f golib \<Rightarrow> int64 \<Rightarrow> int64 \<Rightarrow> int64 \<Rightarrow> 'f" where
  "bench_rate L number t1 t2 =
     gl_fdiv L (gl_fint L number) (gl_fdiv L (gl_fint L (t2 - t1)) (gl_fint L 1000000000))"

text \<open>
  The commands of the benchmarks; \<open>n\<close> is the number of \<open>rand.Int()\<close>.  The slice of strings of \<open>benchSRem\<close> is
  an array here, which is formatted in the same way.
\<close>

definition bench_set :: "int64 \<Rightarrow> 'f command_call" where
  "bench_set n = (''SET'', [VString (rune_string (sint n)), VInt n])"

definition bench_ping :: "'f command_call" where
  "bench_ping = (''PING'', [])"

definition bench_incr :: "int64 \<Rightarrow> 'f command_call" where
  "bench_incr n = (''INCR'', [VString (rune_string (sint n)), VInt 1])"

definition bench_decr :: "int64 \<Rightarrow> 'f command_call" where
  "bench_decr n = (''DECR'', [VString (rune_string (sint n)), VInt 1])"

definition bench_get :: "'f command_call" where
  "bench_get = (''GET'', [VString ''foo''])"

definition bench_del :: "'f command_call" where
  "bench_del = (''DEL'', [VString ''foo''])"

definition bench_count :: "'f command_call" where
  "bench_count = (''COUNT'', [VString ''foo'', VInt 1])"

definition bench_setnx :: "int64 \<Rightarrow> 'f command_call" where
  "bench_setnx n = (''SETNX'', [VString (rune_string (sint n)), VInt n])"

definition bench_sadd :: "int64 \<Rightarrow> 'f command_call" where
  "bench_sadd n = (''SADD'', [VString (rune_string (sint n)), VInt n])"

definition bench_srem :: "int64 list \<Rightarrow> int64 \<Rightarrow> 'f command_call \<times> 'f command_call" where
  "bench_srem rs n =
     (let results = map (\<lambda>r. VString (rune_string (sint r))) rs
      in ((''SADD'', [VString (rune_string (sint n)), VArray results]),
          (''SREM'', [VString (rune_string (sint n)), VArray results])))"

definition bench_scard :: "int64 \<Rightarrow> 'f command_call" where
  "bench_scard n = (''SCARD'', [VString (rune_string (sint n)), VInt n])"

definition bench_sdiff :: "int64 \<Rightarrow> 'f command_call" where
  "bench_sdiff n = (''SDIFF'', [VString (rune_string (sint n)), VString (rune_string (sint n))])"

definition bench_sismember :: "int64 \<Rightarrow> 'f command_call" where
  "bench_sismember n = (''SISMEMBER'', [VString (rune_string (sint n)), VString (rune_string (sint n))])"

definition bench_smembers :: "int64 \<Rightarrow> 'f command_call" where
  "bench_smembers n = (''SMEMBERS'', [VString (rune_string (sint n))])"


text \<open>
  \<open>main\<close>: the checks of the flags, the requests per worker, and the benchmarks in their order, each with
  its command and whether it is sent asynchronously; \<open>rand\<close> gives the successive random numbers.
\<close>

definition bench_plan :: "(nat \<Rightarrow> int64) \<Rightarrow> (bool \<times> 'f command_call) list" where
  "bench_plan rand =
     [(False, bench_set (rand 0)), (False, bench_ping), (False, bench_get), (False, bench_del),
      (False, bench_incr (rand 1)), (False, bench_decr (rand 2)), (True, bench_count),
      (False, bench_setnx (rand 3)), (False, bench_sadd (rand 4)),
      (False, snd (bench_srem (map rand [5 ..< 15]) (rand 15))), (False, bench_scard (rand 16)),
      (False, bench_sdiff (rand 17)), (False, bench_sismember (rand 18))]"

definition bench_main :: "int64 \<Rightarrow> int64 \<Rightarrow> (nat \<Rightarrow> int64) \<Rightarrow> (nat \<times> (bool \<times> 'f command_call) list) res" where
  "bench_main number clients rand =
     (case bench_loop number clients of
        Ok n \<Rightarrow> Ok (nat (sint n), bench_plan rand)
      | Err e \<Rightarrow> Err e
      | Panic q \<Rightarrow> Panic q)"

section \<open>What a worker sends and reads\<close>

lemma cc_do_async_sends:
  assumes "cc_net x = Some n" and "wired n sent input" and "emits (net_write_command L (cc_bprotocol x) cmd args) e"
  shows "\<exists>m. cc_do_async L d cmd args x = (Ok (), x\<lparr>cc_net := Some m\<rparr>) \<and> wired m (sent @ e) input \<and>
    conn_state m = conn_state n \<and> br_end (nc_reader m) = br_end (nc_reader n)"
proof -
  let ?f = "net_write_command L (cc_bprotocol x) cmd args"
  obtain r w where w: "?f (nc_writer n) = (r, w)" by fastforce
  have nok: "bw_ok (nc_writer n)" "bw_stream (nc_writer n) = sent" using assms(2) by (simp_all add: wired_def bw_stream_def)
  from emitsD [OF assms(3) nok(1)] w have r: "r = None" and ok: "bw_ok w" and st: "bw_stream w = sent @ e"
    by (simp_all add: nok(2))
  obtain r' w' where w': "bw_flush w = (r', w')" by fastforce
  from bw_flush_ok [OF ok] w' st have f: "r' = None" "bw_ok w'" "bw_buf w' = []" "bw_sent w' = sent @ e" by simp_all
  let ?m = "n\<lparr>nc_writer := w'\<rparr>"
  have "cc_do_async L d cmd args x = (Ok (), x\<lparr>cc_net := Some ?m\<rparr>)"
    using assms(1) w r w' f(1) by (simp add: cc_do_async_def cc_connect_def)
  then show ?thesis using assms(2) f by (auto simp: wired_def conn_state_def)
qed

lemma cc_read_answered:
  assumes "cc_net x = Some n" and "wired n sent (b @ rest)" and "decodes 128 (read_interface L) b v"
  shows "\<exists>m. cc_read L x = (Ok v, x\<lparr>cc_net := Some m\<rparr>) \<and> wired m sent rest \<and>
    conn_state m = conn_state n \<and> br_end (nc_reader m) = br_end (nc_reader n)"
proof -
  have rd: "read_interface L (nc_reader n) = (Ok v, (nc_reader n)\<lparr>br_in := rest\<rparr>)"
    using decodesD [OF assms(3), of "nc_reader n" rest] assms(2) by (simp add: wired_def)
  let ?m = "n\<lparr>nc_reader := (nc_reader n)\<lparr>br_in := rest\<rparr>\<rparr>"
  have "cc_read L x = (Ok v, x\<lparr>cc_net := Some ?m\<rparr>)" using assms(1) rd by (simp add: cc_read_def)
  then show ?thesis using assms(2) by (auto simp: wired_def conn_state_def)
qed

lemma bench_async_sends:
  assumes "cc_net x = Some n" and "wired n sent input" and "emits (net_write_command L (cc_bprotocol x) cmd args) e"
  shows "\<exists>m. bench_async L d cmd args k x = (Ok (), x\<lparr>cc_net := Some m\<rparr>) \<and>
    wired m (sent @ concat (replicate k e)) input \<and> conn_state m = conn_state n \<and> br_end (nc_reader m) = br_end (nc_reader n)"
  using assms
proof (induction k arbitrary: x n sent)
  case 0
  then show ?case by (auto intro: exI [of _ n])
next
  case (Suc k)
  obtain m where m: "cc_do_async L d cmd args x = (Ok (), x\<lparr>cc_net := Some m\<rparr>)" "wired m (sent @ e) input"
    "conn_state m = conn_state n" "br_end (nc_reader m) = br_end (nc_reader n)"
    using cc_do_async_sends [OF Suc.prems] by blast
  from Suc.IH [of "x\<lparr>cc_net := Some m\<rparr>" m "sent @ e"] m Suc.prems(3) show ?case by auto
qed

lemma bench_reads_answered:
  assumes "cc_net x = Some n" and "wired n sent (concat (replicate k b) @ rest)" and "decodes 128 (read_interface L) b v"
  shows "\<exists>m. bench_reads L (k + j) x = bench_reads L j (x\<lparr>cc_net := Some m\<rparr>) \<and> wired m sent rest \<and>
    conn_state m = conn_state n \<and> br_end (nc_reader m) = br_end (nc_reader n)"
  using assms
proof (induction k arbitrary: x n)
  case 0
  then have e: "x\<lparr>cc_net := Some n\<rparr> = x" by (cases x) simp
  show ?case by (rule exI [of _ n], unfold e) (use 0 in simp)
next
  case (Suc k)
  then have w: "wired n sent (b @ concat (replicate k b) @ rest)" by simp
  obtain m where m: "cc_read L x = (Ok v, x\<lparr>cc_net := Some m\<rparr>)" "wired m sent (concat (replicate k b) @ rest)"
    "conn_state m = conn_state n" "br_end (nc_reader m) = br_end (nc_reader n)"
    using cc_read_answered [OF Suc.prems(1) w Suc.prems(3)] by blast
  from Suc.IH [of "x\<lparr>cc_net := Some m\<rparr>" m] m Suc.prems(3) show ?case by auto
qed

lemma bench_sync_answered:
  assumes "cc_net x = Some n" and "wired n sent (concat (replicate k b) @ rest)" and "decodes 128 (read_interface L) b v"
    and "emits (net_write_command L (cc_bprotocol x) cmd args) e"
  shows "\<exists>m. bench_sync L d cmd args k x = (Ok (), x\<lparr>cc_net := Some m\<rparr>) \<and>
    wired m (sent @ concat (replicate k e)) rest"
  using assms
proof (induction k arbitrary: x n sent)
  case 0
  then show ?case by (auto intro: exI [of _ n])
next
  case (Suc k)
  then have w: "wired n sent (b @ concat (replicate k b) @ rest)" by simp
  obtain m where m: "cc_do L d cmd args x = (Ok v, x\<lparr>cc_net := Some m\<rparr>)" "wired m (sent @ e) (concat (replicate k b) @ rest)"
    using cc_do_answered [OF Suc.prems(1) w Suc.prems(3,4)] by blast
  from Suc.IH [of "x\<lparr>cc_net := Some m\<rparr>" m "sent @ e"] m Suc.prems(3,4) show ?case by auto
qed

lemma bench_pipelined_answered:
  assumes "cc_net x = Some n" and "wired n sent (concat (replicate k b) @ rest)" and "decodes 128 (read_interface L) b v"
    and "emits (net_write_command L (cc_bprotocol x) cmd args) e"
  shows "\<exists>m. bench_pipelined L d cmd args k x = (Ok (), x\<lparr>cc_net := Some m\<rparr>) \<and>
    wired m (sent @ concat (replicate k e)) rest"
proof -
  obtain m where m: "bench_async L d cmd args k x = (Ok (), x\<lparr>cc_net := Some m\<rparr>)"
    "wired m (sent @ concat (replicate k e)) (concat (replicate k b) @ rest)"
    using bench_async_sends [OF assms(1,2,4)] by blast
  from bench_reads_answered [OF _ m(2) assms(3), of "x\<lparr>cc_net := Some m\<rparr>" 0] m(1) show ?thesis
    by (auto simp: bench_pipelined_def)
qed

text \<open>A pipelined worker whose replies run out.\<close>

lemma bench_reads_dry:
  assumes "cc_net x = Some n" and "wired n sent []" and "nc_live n"
  shows "fst (bench_reads L (Suc (Suc j)) x) = Panic nil_panic"
proof -
  have "read_interface L (nc_reader n) = (Err (br_end (nc_reader n)), nc_reader n)"
    using assms(2) by (intro recv_ends) (simp_all add: wired_def)
  then have "cc_read L x = (Err (br_end (nc_reader n)), x\<lparr>cc_net := None\<rparr>)"
    using assms(1,3) by (simp add: cc_read_def fail_with_ok)
  moreover have "cc_read L (x\<lparr>cc_net := None\<rparr>) = (Panic nil_panic, x\<lparr>cc_net := None\<rparr>)"
    by (simp add: cc_read_def)
  ultimately show ?thesis by simp
qed


section \<open>Around the accept loop\<close>

text \<open>
  The configuration of the server and the stats program: the flags, or the file that \<open>-config\<close> names, which
  both programs read with the same code into their own \<open>Configuration\<close>.  What reading the file gives and
  what \<open>toml.Decode\<close> makes of its text are parameters.
\<close>

definition load_config :: "(bytes \<Rightarrow> gerr + bytes) \<Rightarrow> (bytes \<Rightarrow> 'c \<Rightarrow> gerr + 'c) \<Rightarrow> bytes \<Rightarrow> 'c \<Rightarrow> 'c res" where
  "load_config read_file decode config_file cfg =
     (if length config_file = 0 then Ok cfg
      else
        case read_file config_file of
          Inl e \<Rightarrow> Err e
        | Inr data \<Rightarrow> (case decode data cfg of Inl e \<Rightarrow> Err e | Inr cfg' \<Rightarrow> Ok cfg'))"

definition server_main :: "(bytes \<Rightarrow> gerr + bytes) \<Rightarrow> (bytes \<Rightarrow> config \<Rightarrow> gerr + config) \<Rightarrow> (address \<Rightarrow> gerr option) \<Rightarrow>
    'f runtime \<Rightarrow> 'f golib \<Rightarrow> int \<Rightarrow> bytes \<Rightarrow> config \<Rightarrow> 'f server res" where
  "server_main read_file decode bind rt L now config_file cfg =
     (case load_config read_file decode config_file cfg of
        Ok cfg' \<Rightarrow> boot bind rt L now cfg'
      | Err e \<Rightarrow> Err e
      | Panic q \<Rightarrow> Panic q)"

text \<open>The line that the goroutine over \<open>app.Events\<close> prints; \<open>stamp\<close> is the formatted time.\<close>

definition event_line :: "'f golib \<Rightarrow> int64 \<Rightarrow> bytes \<Rightarrow> event \<Rightarrow> bytes" where
  "event_line L pid stamp ev =
     (let delim = (if ev_level ev = ''error'' then ''ERROR:'' else ''#'');
          msg = ''['' @ append_int pid @ ''] '' @ stamp @ '' '' @ delim @ '' '' @ ev_message ev
      in (case ev_err ev of None \<Rightarrow> msg | Some e \<Rightarrow> msg @ '' '' @ err_text L e) @ [LF])"

text \<open>
  The stats program: \<open>ListenProtocol\<close> with the redis protocol, then the fields of the application are set
  \<^emph>\<open>before\<close> the error is looked at, then the three backends are loaded.
\<close>

definition stats_header :: bytes where
  "stats_header =
     [LF, LF] @ ''  _                         _                  %s %s %s'' @ [LF] @
     ''   /_)__  _   _/_  _   __/_  /_'' @ [APOS] @ ''_/__ _/_ _'' @ [LF] @
     ''   /_)//_//_|/_//_ /_|_'' @ [CHR 0x5C] @ '' /   ._/ / /_|/ _'' @ [CHR 0x5C] @ ''     Port: %d'' @ [LF] @
     ''                                               PID: %d'' @ [LF, LF]"

definition stats_main :: "(address \<Rightarrow> gerr option) \<Rightarrow> 'f runtime \<Rightarrow> 'f golib \<Rightarrow> int \<Rightarrow> int64 \<Rightarrow> bytes \<Rightarrow> 'f server res" where
  "stats_main bind rt L now port host =
     (case listen_protocol bind rt port host PRedis of
        Ok s \<Rightarrow>
          (let s0 = s\<lparr>app_name := ''Broadcast Stats'', app_version := ''0.1'', app_header := stats_header\<rparr>;
               s1 = load_backend StatsBackend (register_stats L now s0);
               s2 = load_backend DefaultBackend (register_default L s1)
           in Ok (load_backend PubSubBackend (register_pubsub L s2)))
      | Err e \<Rightarrow> Panic nil_panic
      | Panic q \<Rightarrow> Panic q)"

record stats_config =
  scfg_port :: int64
  scfg_host :: bytes

definition default_stats_config :: stats_config where
  "default_stats_config = \<lparr>scfg_port = 7331, scfg_host = ''127.0.0.1''\<rparr>"

definition stats_program :: "(bytes \<Rightarrow> gerr + bytes) \<Rightarrow> (bytes \<Rightarrow> stats_config \<Rightarrow> gerr + stats_config) \<Rightarrow>
    (address \<Rightarrow> gerr option) \<Rightarrow> 'f runtime \<Rightarrow> 'f golib \<Rightarrow> int \<Rightarrow> bytes \<Rightarrow> stats_config \<Rightarrow> 'f server res" where
  "stats_program read_file decode bind rt L now config_file cfg =
     (case load_config read_file decode config_file cfg of
        Ok cfg' \<Rightarrow> stats_main bind rt L now (scfg_port cfg') (scfg_host cfg')
      | Err e \<Rightarrow> Err e
      | Panic q \<Rightarrow> Panic q)"


section \<open>Properties\<close>

text \<open>The quotient of the flags, as \<open>main\<close> computes it.\<close>

lemma bench_loop_Ok:
  assumes "bench_loop number clients = Ok k"
  shows "0 < sint k" "sint k * sint clients \<le> sint number" "sint number < (sint k + 1) * sint clients"
proof -
  from assms have n: "0 < sint number" "0 < sint clients" "sint clients \<le> sint number"
    and k: "k = word_of_int (sint number div sint clients)"
    by (auto simp: bench_loop_def split: if_splits)
  have "sint number div sint clients \<le> sint number" using zdiv_mono2 [of "sint number" 1 "sint clients"] n by simp
  moreover have "sint number < 2 ^ 63" using sint_lt [of number] by simp
  moreover have q: "0 < sint number div sint clients" using n by (simp add: pos_imp_zdiv_pos_iff)
  ultimately have s: "sint k = sint number div sint clients"
    unfolding k by (simp add: sint_sbintrunc' signed_take_bit_int_eq_self)
  show "0 < sint k" using q s by simp
  have m: "0 \<le> sint number mod sint clients" "sint number mod sint clients < sint clients" using n by simp_all
  have d: "sint number = (sint number div sint clients) * sint clients + sint number mod sint clients" by simp
  show "sint k * sint clients \<le> sint number" unfolding s using d m by linarith
  show "sint number < (sint k + 1) * sint clients" unfolding s distrib_right using d m by linarith
qed


lemma cc_do_async_connect:
  "cc_connect d x = (None, y) \<Longrightarrow> cc_do_async L d cmd args x = cc_do_async L d' cmd args y"
  by (auto simp: cc_do_async_def cc_connect_def split: option.splits sum.splits)

text \<open>A worker that finds the pool empty and whose loop succeeds on the new connection.\<close>

definition fresh_conn :: "pool \<Rightarrow> connection" where
  "fresh_conn p = \<lparr>cc_bprotocol = pl_bprotocol p, cc_addr = pl_addr p, cc_net = None, cc_last_active = 0\<rparr>"

lemma pool_get_fresh:
  "pl_idle p = [] \<Longrightarrow> pool_get p = (pl_next p, snd (pool_get p)) \<and>
     pl_store (snd (pool_get p)) (pl_next p) = Some (fresh_conn p)"
  by (simp add: pool_get_def fresh_conn_def)

lemma bench_worker_first:
  assumes "pl_idle p = []" and "0 < pl_max_idle p" and "pool_ok p" and "keeps_conn body"
    and "body (fresh_conn p) = (Ok (), y)"
  shows "\<exists>p' x. bench_worker L now cmd body (p, out) = (Ok (), p', out) \<and> pl_idle p' = [pl_next p] \<and>
    pl_store p' (pl_next p) = Some x \<and> cc_net x = cc_net y"
proof -
  let ?c = "pl_next p" and ?p1 = "snd (pool_get p)"
  have g: "pool_get p = (?c, ?p1)" "pl_store ?p1 ?c = Some (fresh_conn p)" using pool_get_fresh [OF assms(1)] by blast+
  note g' = pool_get_frame [OF assms(3) g(1)]
  let ?p2 = "?p1\<lparr>pl_store := (pl_store ?p1)(?c \<mapsto> y)\<rparr>"
  have w: "with_conn body ?c ?p1 = (Ok (), ?p2)" using g(2) assms(5) by (simp add: with_conn_def)
  have ok2: "pool_ok ?p2" using with_conn_invariant [OF g'(1) assms(4), of ?c] w by simp
  have i: "pl_idle ?p2 = []" "pl_max_idle ?p2 = pl_max_idle p" using assms(1) g'(4,7) by simp_all
  have put: "pool_put now ?c ?p2 =
      (None, ?p2\<lparr>pl_store := (pl_store ?p2)(?c \<mapsto> y\<lparr>cc_last_active := now\<rparr>), pl_idle := [?c]\<rparr>)"
    using pool_put_ok [OF ok2, of ?c y now] i assms(2) by simp
  have "bench_worker L now cmd body (p, out) =
      (Ok (), ?p2\<lparr>pl_store := (pl_store ?p2)(?c \<mapsto> y\<lparr>cc_last_active := now\<rparr>), pl_idle := [?c]\<rparr>, out)"
    using w put unfolding bench_worker_def fst_conv snd_conv by (subst g(1)) (simp del: fun_upd_apply)
  then show ?thesis by simp
qed

lemma keeps_bench:
  "keeps_conn (bench_async L d cmd args k)" "keeps_conn (bench_sync L d cmd args k)" "keeps_conn (bench_reads L k)"
  "keeps_conn (bench_pipelined L d cmd args k)"
proof -
  have a: "conn_ok x \<Longrightarrow> conn_ok (snd (bench_async L d cmd args k x))" for x
  proof (induction k arbitrary: x)
    case (Suc k)
    from cc_do_async_ok(1) [OF Suc.prems, of L d cmd args] Suc.IH show ?case by (auto split: prod.split res.split)
  qed simp
  have r: "conn_ok x \<Longrightarrow> conn_ok (snd (bench_reads L k x))" for x
  proof (induction k arbitrary: x)
    case (Suc k)
    from cc_read_ok [OF Suc.prems, of L] Suc.IH show ?case by (auto split: prod.split res.split)
  qed simp
  have s: "conn_ok x \<Longrightarrow> conn_ok (snd (bench_sync L d cmd args k x))" for x
  proof (induction k arbitrary: x)
    case (Suc k)
    from cc_do_ok [OF Suc.prems, of L d cmd args] Suc.IH show ?case by (auto split: prod.split res.split)
  qed simp
  show "keeps_conn (bench_async L d cmd args k)" "keeps_conn (bench_sync L d cmd args k)" "keeps_conn (bench_reads L k)"
    using a r s by (simp_all add: keeps_conn_def)
  show "keeps_conn (bench_pipelined L d cmd args k)"
    using a r unfolding keeps_conn_def bench_pipelined_def by (fastforce split: prod.split res.split)
qed

lemma bench_connect:
  assumes "cc_connect d x = (None, y)" and "0 < k"
  shows "bench_sync L d cmd args k x = bench_sync L d cmd args k y"
    "bench_async L d cmd args k x = bench_async L d cmd args k y"
    "bench_pipelined L d cmd args k x = bench_pipelined L d cmd args k y"
proof -
  from assms(2) obtain j where k: "k = Suc j" by (cases k) auto
  show s: "bench_sync L d cmd args k x = bench_sync L d cmd args k y"
    unfolding k using cc_do_connect [OF assms(1), of L cmd args d] by simp
  show a: "bench_async L d cmd args k x = bench_async L d cmd args k y"
    unfolding k using cc_do_async_connect [OF assms(1), of L cmd args d] by simp
  show "bench_pipelined L d cmd args k x = bench_pipelined L d cmd args k y"
    unfolding bench_pipelined_def a ..
qed


text \<open>
C38. The load generator sends what it says, up to rounding: with valid flags every worker has
\<open>number / clients\<close> requests, so that all workers together make at most \<open>number\<close> and fewer than \<open>clients\<close> less; and a
worker whose requests are answered sends its command exactly that often, reads exactly as many replies
and puts its connection back, pipelined or not.
\<close>

theorem bench_worker_requests:
  assumes "bench_loop number clients = Ok k" and "n = nat (sint k)" and "0 < max_idle"
    and "decodes 128 (read_interface L) b v" and "emits (net_write_command L bproto cmd args) e"
  shows "int n * sint clients \<le> sint number \<and> sint number < (int n + 1) * sint clients \<and>
    (\<exists>p x m. wait_bench L pipelined n (Inr (a, concat (replicate n b) @ rest)) now cmd args
        (new_pool port host max_idle bproto, out) = (Ok (), p, out) \<and>
      pl_idle p = [0] \<and> pl_store p 0 = Some x \<and> cc_net x = Some m \<and> wired m (concat (replicate n e)) rest)"
proof -
  note k = bench_loop_Ok [OF assms(1)]
  have n: "int n = sint k" "0 < n" using k(1) assms(2) by simp_all
  let ?p = "new_pool port host max_idle bproto" and ?d = "Inr (a, concat (replicate n b) @ rest)"
  let ?m = "cc_new_client bproto (a, concat (replicate n b) @ rest)"
  let ?y = "(fresh_conn ?p)\<lparr>cc_net := Some ?m\<rparr>"
  let ?body = "if pipelined then bench_pipelined L ?d cmd args n else bench_sync L ?d cmd args n"
  have p: "pl_idle ?p = []" "0 < pl_max_idle ?p" "pl_next ?p = 0" "cc_bprotocol ?y = bproto"
    using assms(3) by (simp_all add: new_pool_def fresh_conn_def)
  have "cc_connect ?d (fresh_conn ?p) = (None, ?y)" using p(4) by (simp add: cc_connect_def fresh_conn_def new_pool_def)
  note con = bench_connect(1,3) [OF this n(2), of L cmd args]
  have w: "wired ?m [] (concat (replicate n b) @ rest)" using wired_new [of bproto "(a, concat (replicate n b) @ rest)"] by simp
  have e: "emits (net_write_command L (cc_bprotocol ?y) cmd args) e" unfolding p(4) by (rule assms(5))
  have "\<exists>m. ?body (fresh_conn ?p) = (Ok (), ?y\<lparr>cc_net := Some m\<rparr>) \<and> wired m ([] @ concat (replicate n e)) rest"
  proof (cases pipelined)
    case True
    then show ?thesis using bench_pipelined_answered [OF _ w assms(4) e, of ?d] con(2) by simp
  next
    case False
    then show ?thesis using bench_sync_answered [OF _ w assms(4) e, of ?d] con(1) by simp
  qed
  then obtain m where m: "?body (fresh_conn ?p) = (Ok (), ?y\<lparr>cc_net := Some m\<rparr>)" "wired m (concat (replicate n e)) rest" by auto
  have "keeps_conn ?body" using keeps_bench by auto
  from bench_worker_first [OF p(1,2) pool_ok_new this m(1), of L now cmd out] m(2) p(3)
  have "\<exists>p x m. wait_bench L pipelined n ?d now cmd args (?p, out) = (Ok (), p, out) \<and>
      pl_idle p = [0] \<and> pl_store p 0 = Some x \<and> cc_net x = Some m \<and> wired m (concat (replicate n e)) rest"
    unfolding wait_bench_def by auto
  then show ?thesis using k n(1) by simp
qed

theorem bench_worker_requests_witness:
  "\<exists>p x m. wait_bench plain_lib True 2 (Inr (''127.0.0.1:7331'', enc_int 1 @ enc_int 1)) 9 ''PING'' []
      (new_pool 7331 ''127.0.0.1'' 1 ''redis'', []) = (Ok (), p, []) \<and> pl_store p 0 = Some x \<and> cc_net x = Some m \<and>
    bw_sent (nc_writer m) = enc_bulk [''PING''] @ enc_bulk [''PING'']"
proof -
  have k: "bench_loop 5 2 = Ok 2" by (simp add: bench_loop_def)
  have up: "to_upper plain_lib ''PING'' = ''PING''"
  proof -
    have "is_ascii ''PING''" "map upper_char ''PING'' = ''PING''" by code_simp+
    then show ?thesis by (simp add: to_upper_ascii)
  qed
  have e: "emits (net_write_command plain_lib ''redis'' ''PING'' []) (enc_bulk [''PING''])"
    using emits_redis_command [of plain_lib "''PING''" "[]"] up by (simp add: net_write_command_def bulk_request_def)
  have n: "2 = nat (sint (2 :: int64))" by simp
  from bench_worker_requests [OF k n _ int_decodes [of plain_lib 1] e, of 1 True "''127.0.0.1:7331''" "[]" 9 7331 "''127.0.0.1''" "[]"]
  show ?thesis by (auto simp: numeral_2_eq_2 wired_def)
qed

text \<open>
A pipelined worker does not survive a connection that ends early: the first \<open>Read\<close> that fails removes
the network client, its error is ignored, and the next \<open>Read\<close> dereferences nil.  If at least two replies
are missing, the program dies.
\<close>

lemma bench_pipelined_crash:
  assumes "decodes 128 (read_interface L) b v"
  shows "fst (wait_bench L True (k + Suc (Suc j)) (Inr (a, concat (replicate k b))) now cmd args
    (new_pool port host max_idle bproto, out)) = Panic nil_panic"
proof -
  let ?p = "new_pool port host max_idle bproto" and ?d = "Inr (a, concat (replicate k b))" and ?n = "k + Suc (Suc j)"
  let ?m = "cc_new_client bproto (a, concat (replicate k b))"
  let ?y = "(fresh_conn ?p)\<lparr>cc_net := Some ?m\<rparr>"
  have p: "pl_idle ?p = []" "cc_bprotocol ?y = bproto" by (simp_all add: new_pool_def fresh_conn_def)
  have "cc_connect ?d (fresh_conn ?p) = (None, ?y)" using p(2) by (simp add: cc_connect_def fresh_conn_def new_pool_def)
  note con = bench_connect(3) [OF this, of ?n L cmd args]
  have w: "wired ?m [] (concat (replicate k b) @ [])" using wired_new [of bproto "(a, concat (replicate k b))"] by simp
  obtain e where e: "emits (net_write_command L (cc_bprotocol ?y) cmd args) e" using emits_net_command by blast
  obtain m where m: "bench_async L ?d cmd args ?n ?y = (Ok (), ?y\<lparr>cc_net := Some m\<rparr>)"
    "wired m ([] @ concat (replicate ?n e)) (concat (replicate k b) @ [])" "conn_state m = conn_state ?m"
    using bench_async_sends [OF _ w e, of ?d ?n] by auto
  obtain m' where m': "bench_reads L ?n (?y\<lparr>cc_net := Some m\<rparr>) = bench_reads L (Suc (Suc j)) (?y\<lparr>cc_net := Some m, cc_net := Some m'\<rparr>)"
    "wired m' ([] @ concat (replicate ?n e)) []" "conn_state m' = conn_state m"
    using bench_reads_answered [OF _ m(2) assms(1), of "?y\<lparr>cc_net := Some m\<rparr>" "Suc (Suc j)"] by auto
  have "nc_live ?m" by (simp add: cc_new_client_def new_network_client_def)
  then have "nc_live m'" using conn_state_live m(3) m'(3) by metis
  then have "fst (bench_pipelined L ?d cmd args ?n (fresh_conn ?p)) = Panic nil_panic"
    using bench_reads_dry [OF _ m'(2), of "?y\<lparr>cc_net := Some m, cc_net := Some m'\<rparr>" L j] con m(1) m'(1)
    by (simp add: bench_pipelined_def)
  moreover have "pool_get ?p = (pl_next ?p, snd (pool_get ?p))"
    "pl_store (snd (pool_get ?p)) (pl_next ?p) = Some (fresh_conn ?p)" using pool_get_fresh [OF p(1)] by blast+
  ultimately show ?thesis
    unfolding wait_bench_def bench_worker_def fst_conv
    by (cases "bench_pipelined L ?d cmd args ?n (fresh_conn ?p)")
       (auto simp: with_conn_def Let_def split: prod.split)
qed

text \<open>The commands that the stats program registers, in its order.\<close>

definition stats_main_commands :: "(command \<times> handler_method) list" where
  "stats_main_commands =
     map (\<lambda>(cmd, h). (cmd, StatsM h)) stats_commands @ map (\<lambda>(cmd, h). (cmd, DefaultM h)) bdefault_commands @
     map (\<lambda>(cmd, h). (cmd, PubSubM h)) pubsub_commands"

lemma stats_main_commands_set: "set stats_main_commands = set all_commands"
  by (auto simp: stats_main_commands_def all_commands_def boot_commands_def)

lemma stats_main_commands_distinct: "distinct (map (\<lambda>p. cmd_name (fst p)) stats_main_commands)"
  by code_simp

lemma stats_main_Ok:
  assumes "stats_main bind rt L now port host = Ok s"
  shows "app_ctx s = register_commands L stats_main_commands new_broadcast_context \<and> app_protocol s = PRedis \<and>
    stats_mem s = new_memory_backend now \<and> pubsub_topics s = Map.empty \<and> stats_ticking s \<and> heap s = Map.empty \<and>
    app_clients s = Map.empty \<and> bind (host @ '':'' @ append_int port) = None"
  using assms
  by (auto simp: stats_main_def listen_protocol_def load_backend_def register_default_def register_stats_def
      register_pubsub_def foldl_register stats_main_commands_def register_commands_append Let_def
      split: option.splits)

lemma register_same_set:
  fixes cs ds :: "(command \<times> 'h) list"
  assumes "\<forall>(c, h) \<in> set cs. to_upper L (cmd_name c) = cmd_name c" and "set ds = set cs"
    and "distinct (map (\<lambda>p. cmd_name (fst p)) cs)" and "distinct (map (\<lambda>p. cmd_name (fst p)) ds)"
  shows "ctx_commands (register_commands L ds new_broadcast_context) = ctx_commands (register_commands L cs new_broadcast_context)"
    "ctx_help (register_commands L ds new_broadcast_context) = ctx_help (register_commands L cs new_broadcast_context)"
proof -
  let ?f = "\<lambda>xs. register_commands L xs (new_broadcast_context :: 'h bcontext)"
  have dom: "dom (ctx_commands (?f xs)) = (\<lambda>(c, h). to_upper L (cmd_name c)) ` set xs"
    "dom (ctx_help (?f xs)) = (\<lambda>(c, h). to_upper L (cmd_name c)) ` set xs" for xs
    using register_commands_dom [of L xs new_broadcast_context] by (simp_all add: new_broadcast_context_def)
  have look: "ctx_commands (?f ds) k = ctx_commands (?f cs) k \<and> ctx_help (?f ds) k = ctx_help (?f cs) k"
    if "k \<in> (\<lambda>(c, h). to_upper L (cmd_name c)) ` set cs" for k
  proof -
    from that obtain c h where c: "(c, h) \<in> set cs" "k = cmd_name c" using assms(1) by auto
    with registry_lookup [OF assms(1,3) c(1)] registry_lookup [OF _ assms(4), of L c h] assms(1,2) show ?thesis by simp
  qed
  show "ctx_commands (?f ds) = ctx_commands (?f cs)" "ctx_help (?f ds) = ctx_help (?f cs)"
  proof (rule_tac [!] ext)
    fix k
    show "ctx_commands (?f ds) k = ctx_commands (?f cs) k"
      using look [of k] dom(1) [of ds] dom(1) [of cs] assms(2) by (metis domIff)
    show "ctx_help (?f ds) k = ctx_help (?f cs) k"
      using look [of k] dom(2) [of ds] dom(2) [of cs] assms(2) by (metis domIff)
  qed
qed

text \<open>
C30. The stats program is the server program with the redis protocol and all three backends.  Let their
flags or configuration files give both the same host and port.  If the address can be bound, they
register the same handler and the same help for every command and start from the same store: the order
in which they load the backends does not matter.  If not, the server program reports the error, while
the stats program sets fields of the nil application and dies.
\<close>

theorem stats_program_is_server:
  assumes "load_config read_file decode cfile flags = Ok cfg" and "load_config read_file decode' sfile sflags = Ok scfg"
    and "scfg_port scfg = cfg_port cfg" and "scfg_host scfg = cfg_host cfg" and "cfg_bprotocol cfg = ''redis''"
    and "cfg_default cfg" and "cfg_stats cfg" and "cfg_pubsub cfg"
  shows "(case bind (cfg_host cfg @ '':'' @ append_int (cfg_port cfg)) of
      Some e \<Rightarrow> server_main read_file decode bind rt L now cfile flags = Err e \<and>
        stats_program read_file decode' bind rt L now sfile sflags = Panic nil_panic
    | None \<Rightarrow>
        (\<exists>s t. server_main read_file decode bind rt L now cfile flags = Ok s \<and>
          stats_program read_file decode' bind rt L now sfile sflags = Ok t \<and>
          ctx_commands (app_ctx t) = ctx_commands (app_ctx s) \<and> ctx_help (app_ctx t) = ctx_help (app_ctx s) \<and>
          app_protocol t = app_protocol s \<and> stats_mem t = stats_mem s \<and> pubsub_topics t = pubsub_topics s \<and>
          stats_ticking t = stats_ticking s))"
proof -
  have main: "server_main read_file decode bind rt L now cfile flags = boot bind rt L now cfg"
    "stats_program read_file decode' bind rt L now sfile sflags = stats_main bind rt L now (cfg_port cfg) (cfg_host cfg)"
    using assms by (simp_all add: server_main_def stats_program_def)
  show ?thesis
  proof (cases "bind (cfg_host cfg @ '':'' @ append_int (cfg_port cfg))")
    case None
    obtain t where t: "stats_main bind rt L now (cfg_port cfg) (cfg_host cfg) = Ok t"
      using None by (simp add: stats_main_def listen_protocol_def Let_def)
    obtain s where s: "boot bind rt L now cfg = Ok s" "stats_ticking s"
      using None assms by (simp add: boot_def main_protocol_def listen_protocol_def load_backend_def register_pubsub_def
          register_stats_def register_default_def foldl_register Let_def)
    have all: "boot_commands cfg = all_commands" using assms by (simp add: boot_commands_def all_commands_def)
    have up: "\<forall>(c, h) \<in> set (boot_commands cfg). to_upper L (cmd_name c) = cmd_name c"
      using boot_command_upper [of _ _ cfg L] by auto
    note same = register_same_set [OF up _ boot_commands_distinct stats_main_commands_distinct]
    show ?thesis unfolding main
      using None s t boot_Ok [OF s(1)] stats_main_Ok [OF t] same stats_main_commands_set all assms
      by (simp add: main_protocol_def)
  next
    case (Some e)
    then show ?thesis unfolding main
      using assms by (simp add: boot_def main_protocol_def stats_main_def listen_protocol_def Let_def)
  qed
qed

definition all_backends_config :: config where
  "all_backends_config = default_config\<lparr>cfg_stats := True, cfg_pubsub := True\<rparr>"

theorem stats_program_is_server_witness:
  "(\<exists>s t. server_main (\<lambda>_. Inl EOF) (\<lambda>_ c. Inr c) (\<lambda>_. None) rt_idle plain_lib 0 [] all_backends_config = Ok s \<and>
      stats_program (\<lambda>_. Inl EOF) (\<lambda>_ c. Inr c) (\<lambda>_. None) rt_idle plain_lib 0 [] default_stats_config = Ok t \<and>
      ctx_commands (app_ctx t) = ctx_commands (app_ctx s)) \<and>
   stats_program (\<lambda>_. Inl EOF) (\<lambda>_ c. Inr c) (\<lambda>_. Some (ErrNet ''address in use'')) rt_idle plain_lib 0 []
     default_stats_config = Panic nil_panic"
proof -
  have f: "load_config (\<lambda>_. Inl EOF) (\<lambda>_ c. Inr c) [] cfg = Ok cfg" for cfg :: 'c by (simp add: load_config_def)
  have c: "scfg_port default_stats_config = cfg_port all_backends_config"
    "scfg_host default_stats_config = cfg_host all_backends_config" "cfg_bprotocol all_backends_config = ''redis''"
    "cfg_default all_backends_config" "cfg_stats all_backends_config" "cfg_pubsub all_backends_config"
    by (simp_all add: all_backends_config_def default_config_def default_stats_config_def)
  note both = stats_program_is_server [OF f f c, where rt = rt_idle and L = plain_lib and now = 0]
  from both [of "\<lambda>_. None"] both [of "\<lambda>_. Some (ErrNet ''address in use'')"] show ?thesis by auto
qed

end
