(* ===== verification/Daemon.thy ===== *)
theory Daemon
  imports Programs
begin

text \<open>
  The server program around the server (\<open>cmd/broadcast-server/main.go\<close>, and the same code in
  \<open>cmd/broadcast-stats/main.go\<close>): the goroutine that prints the events of the server, the goroutine that ends the process
  when the server has quit, and the signal that closes the server.
\<close>

section \<open>The events of the server\<close>

text \<open>What has been sent on \<open>app.Events\<close>, in order; no operation of the server takes anything back.\<close>

definition events :: "'f server \<Rightarrow> event list" where
  "events s = ctx_events (app_ctx s)"

definition logs :: "'f server \<Rightarrow> 'f server \<Rightarrow> bool" where
  "logs s s' \<longleftrightarrow> (\<exists>es. events s' = events s @ es)"

lemma logs_refl [simp]: "logs s s"
  by (simp add: logs_def)

lemma logs_trans: "logs s t \<Longrightarrow> logs t u \<Longrightarrow> logs s u"
  by (auto simp: logs_def)

lemma logs_same: "events s' = events s \<Longrightarrow> logs s s'"
  by (simp add: logs_def)

lemma events_frame [simp]:
  "events (put_writer c w s) = events s" "events (client_write c f s) = events s"
  "events (s\<lparr>heap := h\<rparr>) = events s" "events (s\<lparr>stats_mem := m\<rparr>) = events s"
  "events (s\<lparr>pubsub_topics := t\<rparr>) = events s" "events (s\<lparr>pending := q\<rparr>) = events s"
  "events (s\<lparr>app_closed := b\<rparr>) = events s" "events (s\<lparr>app_listening := b\<rparr>) = events s"
  "events (s\<lparr>app_quit := b\<rparr>) = events s" "events (s\<lparr>app_clients := C\<rparr>) = events s"
  "events (s\<lparr>stats_ticking := b\<rparr>) = events s"
  "events (s\<lparr>app_ctx := (app_ctx u)\<lparr>ctx_client_size := n\<rparr>\<rparr>) = events u"
  by (simp_all add: events_def put_writer_def client_write_def split: option.split)

lemma events_event [simp]: "events (app_event l m e s) = events s @ [event l m e]"
  by (simp add: events_def app_event_def emit_event_def)

lemma run_method_events [simp]: "events (snd (run_method L h data c s)) = events s"
proof (cases h)
  case (PubSubM p)
  then show ?thesis by (cases p) (auto split: option.split prod.split)
qed (auto split: option.split prod.split)

lemma handle_events:
  "events (snd (default_handle_data L v c s)) = events s" "events (snd (redis_handle_data L x c s)) = events s"
  "events (snd (line_handle_data L x c s)) = events s"
proof -
  have "events (snd (call_in_goroutine L h data c s)) = events s" for h data
    using run_method_events [of L h data c s]
    by (auto simp: call_in_goroutine_def simp del: run_method_events split: prod.split res.split option.split)
  then show "events (snd (redis_handle_data L x c s)) = events s" "events (snd (line_handle_data L x c s)) = events s"
    by (auto simp: redis_handle_data_def line_handle_data_def Let_def split: list.split option.split)
  show "events (snd (default_handle_data L v c s)) = events s"
    by (auto simp: default_handle_data_def split: gval.split res.split option.split)
qed

lemma after_handle_logs:
  assumes "\<And>t. events (quit t) = events t" and "events (snd h) = events s"
  shows "logs s (snd (after_handle L c quit h))"
  using assms by (cases h) (auto simp: after_handle_def logs_def split: handled_data.split res.split)

lemma acts_logs:
  "logs s (snd (default_act L c v s))" "logs s (snd (redis_act L c x s))" "logs s (snd (line_act L c x s))"
  unfolding default_act_def redis_act_def line_act_def
  by (intro after_handle_logs; simp add: handle_events quit_ok_def)+

lemma loop_iter_logs:
  assumes "\<And>v t. logs t (snd (act v t))"
  shows "logs s (snd (loop_iter c recv act s))"
proof -
  obtain r t where t: "client_read c recv s = (r, t)" by fastforce
  then have "logs s t" by (intro logs_same) (auto simp: client_read_def split: option.splits prod.splits)
  moreover have "logs t (snd (read_failed e t))" for e by (simp add: read_failed_def logs_def)
  ultimately show ?thesis using t assms by (cases r) (auto simp: loop_iter_def intro: logs_trans)
qed

lemma client_iter_logs: "logs s (snd (client_iter p L c s))"
  by (cases p) (simp_all add: loop_iter_logs acts_logs)

lemma close_client_events: "events (snd (close_client c s)) = events s"
  by (simp add: close_client_def split: option.split prod.split)

lemma run_deferred_logs: "logs s (snd (run_deferred c (out, s)))"
  by (cases out) (simp_all add: run_deferred_def logs_def close_client_events)

lemma close_clients_events: "events (snd (close_clients C as s)) = events s"
proof (induction as arbitrary: s)
  case (Cons a as)
  show ?case
  proof (cases "C a")
    case (Some c)
    obtain e t where "close_client c s = (e, t)" by fastforce
    then show ?thesis using Some close_client_events [of c s] Cons.IH by (cases e) simp_all
  qed (simp add: Cons.IH)
qed simp

lemma unload_events: "events (foldl (\<lambda>s b. backend_unload b s) s bs) = events s"
proof (induction bs arbitrary: s)
  case (Cons b bs)
  then show ?case by (cases b) simp_all
qed simp

lemma app_close_logs: "logs s (snd (app_close L s))"
proof (cases "app_closed s")
  case False
  let ?t = "(app_event ''close'' ''broadcast server is closing.'' None s)\<lparr>app_closed := True\<rparr>"
  obtain e u where u: "close_clients (app_clients ?t) (gl_range L (dom (app_clients ?t))) ?t = (e, u)" by fastforce
  then have "events u = events ?t" using close_clients_events [of "app_clients ?t" "gl_range L (dom (app_clients ?t))" ?t] by simp
  with False u show ?thesis by (cases e) (auto simp: app_close_def Let_def unload_events logs_def)
qed (simp add: app_close_def)

lemma work_logs: "work L x y \<Longrightarrow> logs (srv x) (srv y)"
proof (induction rule: work.induct)
  case (request x c s)
  then show ?case using client_iter_logs [of "srv x" "app_protocol (srv x)" L c] by simp
next
  case (finish x c out s d s')
  then show ?case using client_iter_logs [of "srv x" "app_protocol (srv x)" L c] run_deferred_logs [of s c out]
    by (auto intro: logs_trans)
qed (simp_all add: logs_same reap_client_def deliver_def split: option.split)

lemma step_logs: "step L x y \<Longrightarrow> logs (srv x) (srv y)"
proof (induction rule: step.induct)
  case (shutdown x d s k)
  then show ?case using app_close_logs [of "srv x" L] by (simp add: cut_inputs_def logs_def)
qed (simp_all add: work_logs logs_same accept_connection_def Let_def)

section \<open>The process\<close>

text \<open>
  Where the goroutine over \<open>app.Events\<close> is: at the head of \<open>for !app.Closed\<close>, waiting for an event, about to print
  one, or at its end.
\<close>

datatype log_phase = At_loop | Waiting | Printing event | Log_ended

record 'f daemon =
  dm_sys :: "'f sys"
  dm_phase :: log_phase
  dm_received :: "event list"
  dm_printed :: "bytes list"
  dm_exited :: bool               \<comment> \<open>\<open>os.Exit(0)\<close> has been called\<close>

definition start_daemon :: "'f server \<Rightarrow> 'f daemon" where
  "start_daemon s = \<lparr>dm_sys = start s, dm_phase = At_loop, dm_received = [], dm_printed = [], dm_exited = False\<rparr>"

text \<open>The steps of that goroutine; \<open>stamp\<close> is the time at which it prints.\<close>

inductive log_step :: "'f golib \<Rightarrow> int64 \<Rightarrow> 'f daemon \<Rightarrow> 'f daemon \<Rightarrow> bool" for L pid where
  check_open: "dm_phase y = At_loop \<Longrightarrow> \<not> app_closed (srv (dm_sys y)) \<Longrightarrow> log_step L pid y (y\<lparr>dm_phase := Waiting\<rparr>)"
| check_closed: "dm_phase y = At_loop \<Longrightarrow> app_closed (srv (dm_sys y)) \<Longrightarrow> log_step L pid y (y\<lparr>dm_phase := Log_ended\<rparr>)"
| receive: "dm_phase y = Waiting \<Longrightarrow> events (srv (dm_sys y)) = dm_received y @ e # es \<Longrightarrow>
    log_step L pid y (y\<lparr>dm_phase := Printing e, dm_received := dm_received y @ [e]\<rparr>)"
| print: "dm_phase y = Printing e \<Longrightarrow>
    log_step L pid y (y\<lparr>dm_phase := At_loop, dm_printed := dm_printed y @ [event_line L pid stamp e]\<rparr>)"

text \<open>
  The process: a step of the server (the goroutine that waits for a signal calls \<open>Close\<close>, which is the step
  \<open>shutdown\<close>), a step of the log, or the end of the process once \<open>app.Quit\<close> is closed.
\<close>

inductive daemon_step :: "'f golib \<Rightarrow> int64 \<Rightarrow> 'f daemon \<Rightarrow> 'f daemon \<Rightarrow> bool" for L pid where
  serve: "\<not> dm_exited y \<Longrightarrow> step L (dm_sys y) x \<Longrightarrow> daemon_step L pid y (y\<lparr>dm_sys := x\<rparr>)"
| log: "\<not> dm_exited y \<Longrightarrow> dead (dm_sys y) = None \<Longrightarrow> log_step L pid y z \<Longrightarrow> daemon_step L pid y z"
| quit: "\<not> dm_exited y \<Longrightarrow> dead (dm_sys y) = None \<Longrightarrow> app_quit (srv (dm_sys y)) \<Longrightarrow>
    daemon_step L pid y (y\<lparr>dm_exited := True\<rparr>)"

text \<open>The lines printed so far are those of the events received, but for the one about to be printed.\<close>

definition is_line :: "'f golib \<Rightarrow> int64 \<Rightarrow> bytes \<Rightarrow> event \<Rightarrow> bool" where
  "is_line L pid line e \<longleftrightarrow> (\<exists>stamp. line = event_line L pid stamp e)"

definition printing :: "'f daemon \<Rightarrow> event list" where
  "printing y = (case dm_phase y of Printing e \<Rightarrow> [e] | _ \<Rightarrow> [])"

definition log_ok :: "'f golib \<Rightarrow> int64 \<Rightarrow> 'f daemon \<Rightarrow> bool" where
  "log_ok L pid y \<longleftrightarrow>
     (\<exists>es. events (srv (dm_sys y)) = dm_received y @ es) \<and>
     (\<exists>ls. dm_received y = ls @ printing y \<and> list_all2 (is_line L pid) (dm_printed y) ls) \<and>
     (dm_phase y = Log_ended \<longrightarrow> app_closed (srv (dm_sys y)))"

lemma step_app_closed: "step L x y \<Longrightarrow> app_closed (srv x) \<Longrightarrow> app_closed (srv y)"
proof (induction rule: step.induct)
  case (work x y)
  then show ?case by (simp add: work_app_closed)
qed (simp_all add: accept_connection_def Let_def)

lemma daemon_log_ok:
  assumes "daemon_step L pid y z" and "log_ok L pid y"
  shows "log_ok L pid z"
  using assms(1)
proof cases
  case (serve x)
  from step_logs [OF serve(3)] assms(2) show ?thesis
    unfolding serve(1) using step_app_closed [OF serve(3)] by (auto simp: log_ok_def logs_def printing_def)
next
  case log
  from log(3) show ?thesis
  proof cases
    case (receive e es)
    with assms(2) show ?thesis by (auto simp: log_ok_def printing_def)
  next
    case (print e stamp)
    with assms(2) obtain es ls where *: "events (srv (dm_sys y)) = dm_received y @ es" "dm_received y = ls @ [e]"
      "list_all2 (is_line L pid) (dm_printed y) ls" by (auto simp: log_ok_def printing_def)
    have "is_line L pid (event_line L pid stamp e) e" by (auto simp: is_line_def)
    with *(3) have "list_all2 (is_line L pid) (dm_printed y @ [event_line L pid stamp e]) (ls @ [e])"
      by (intro list_all2_appendI) simp_all
    with * print show ?thesis by (auto simp: log_ok_def printing_def)
  qed (use assms(2) in \<open>auto simp: log_ok_def printing_def\<close>)
next
  case quit
  with assms(2) show ?thesis by (simp add: log_ok_def printing_def)
qed

lemma daemon_run_log_ok:
  assumes "(daemon_step L pid)\<^sup>*\<^sup>* (start_daemon s) y"
  shows "log_ok L pid y"
  using assms
proof (induction rule: rtranclp_induct)
  case base
  then show ?case by (simp add: log_ok_def start_daemon_def printing_def)
qed (rule daemon_log_ok)

text \<open>
C35. The log of the server program: whatever the server does, the lines printed so far are the lines of the first
events that it has reported, in order, each once; and as long as the server has not been closed, the
log only waits when every event has been printed.
\<close>

theorem log_is_faithful:
  assumes "(daemon_step L pid)\<^sup>*\<^sup>* (start_daemon s) y"
  shows "list_all2 (is_line L pid) (dm_printed y) (take (length (dm_printed y)) (events (srv (dm_sys y)))) \<and>
    (\<not> app_closed (srv (dm_sys y)) \<longrightarrow> (\<nexists>z. log_step L pid y z) \<longrightarrow>
       list_all2 (is_line L pid) (dm_printed y) (events (srv (dm_sys y))))"
proof -
  from daemon_run_log_ok [OF assms] obtain es ls where
    es: "events (srv (dm_sys y)) = dm_received y @ es" and d: "dm_received y = ls @ printing y"
      "list_all2 (is_line L pid) (dm_printed y) ls" and ended: "dm_phase y = Log_ended \<longrightarrow> app_closed (srv (dm_sys y))"
    unfolding log_ok_def by blast
  have len: "length ls = length (dm_printed y)" using d(2) by (simp add: list_all2_lengthD)
  have "list_all2 (is_line L pid) (dm_printed y) (events (srv (dm_sys y)))"
    if opn: "\<not> app_closed (srv (dm_sys y))" and stuck: "\<nexists>z. log_step L pid y z"
  proof (cases "dm_phase y")
    case Waiting
    then have "es = []" using stuck es by (cases es) (auto dest: log_step.receive)
    with Waiting d es show ?thesis by (simp add: printing_def)
  qed (use opn stuck ended in \<open>auto dest: log_step.intros\<close>)
  moreover have "take (length (dm_printed y)) (events (srv (dm_sys y))) = ls" using es d(1) len by simp
  ultimately show ?thesis using d(2) by simp
qed

text \<open>
  The two programs: what \<open>main\<close> has set up runs as such a process.  \<open>cmd/broadcast-stats\<close> has the same
  goroutines, word for word.
\<close>

definition server_runs :: "(bytes \<Rightarrow> gerr + bytes) \<Rightarrow> (bytes \<Rightarrow> config \<Rightarrow> gerr + config) \<Rightarrow> (address \<Rightarrow> gerr option) \<Rightarrow>
    'f runtime \<Rightarrow> 'f golib \<Rightarrow> int \<Rightarrow> int64 \<Rightarrow> bytes \<Rightarrow> config \<Rightarrow> 'f daemon \<Rightarrow> bool" where
  "server_runs read_file decode bind rt L now pid config_file cfg y \<longleftrightarrow>
     (\<exists>s. server_main read_file decode bind rt L now config_file cfg = Ok s \<and> (daemon_step L pid)\<^sup>*\<^sup>* (start_daemon s) y)"

definition stats_runs :: "(bytes \<Rightarrow> gerr + bytes) \<Rightarrow> (bytes \<Rightarrow> stats_config \<Rightarrow> gerr + stats_config) \<Rightarrow> (address \<Rightarrow> gerr option) \<Rightarrow>
    'f runtime \<Rightarrow> 'f golib \<Rightarrow> int \<Rightarrow> int64 \<Rightarrow> bytes \<Rightarrow> stats_config \<Rightarrow> 'f daemon \<Rightarrow> bool" where
  "stats_runs read_file decode bind rt L now pid config_file cfg y \<longleftrightarrow>
     (\<exists>s. stats_program read_file decode bind rt L now config_file cfg = Ok s \<and> (daemon_step L pid)\<^sup>*\<^sup>* (start_daemon s) y)"

text \<open>Both log as \<open>log_ok\<close> says, and both start with a sound state of the server.\<close>

lemma programs_log:
  "server_runs read_file decode bind rt L now pid config_file cfg y \<Longrightarrow> log_ok L pid y"
  "stats_runs read_file decode' bind rt L now pid config_file scfg y \<Longrightarrow> log_ok L pid y"
  by (auto simp: server_runs_def stats_runs_def daemon_run_log_ok)

lemma start_sys_ok:
  assumes "app_clients s = Map.empty" and "heap s = Map.empty" and "\<not> app_closed s" and "backends_ok s"
    and "ctx_client_size (app_ctx s) = 0" and "pending s = []"
  shows "sys_ok (start s)"
  using assms by (simp add: sys_ok_def start_def clients_ok_def count_ok_def)

lemma programs_sys_ok:
  "server_main read_file decode bind rt L now config_file cfg = Ok s \<Longrightarrow> sys_ok (start s)"
  "stats_program read_file decode' bind rt L now config_file scfg = Ok s \<Longrightarrow> sys_ok (start s)"
proof -
  show "sys_ok (start s)" if "server_main read_file decode bind rt L now config_file cfg = Ok s"
    using that by (auto simp: server_main_def split: res.splits intro: boot_sys_ok)
  assume "stats_program read_file decode' bind rt L now config_file scfg = Ok s"
  then obtain port host where s: "stats_main bind rt L now port host = Ok s" by (auto simp: stats_program_def split: res.splits)
  then have "\<not> app_closed s \<and> backends_ok s \<and> pending s = []"
    by (auto simp: stats_main_def listen_protocol_def load_backend_def register_default_def register_stats_def
        register_pubsub_def foldl_register backends_ok_def Let_def split: option.splits)
  with stats_main_Ok [OF s] show "sys_ok (start s)"
    by (intro start_sys_ok) (simp_all add: new_broadcast_context_def)
qed

lemma daemon_run_sys_ok:
  assumes "(daemon_step L pid)\<^sup>*\<^sup>* (start_daemon s) y" and "sys_ok (start s)"
  shows "sys_ok (dm_sys y)"
  using assms(1)
proof (induction rule: rtranclp_induct)
  case (step y z)
  from step.hyps(2) show ?case
  proof cases
    case (serve x)
    from step_sys_ok [OF serve(3) step.IH] show ?thesis using serve(1) by simp
  next
    case log
    from log(3) step.IH show ?thesis by cases simp_all
  qed (use step.IH in simp)
qed (use assms(2) in \<open>simp add: start_daemon_def\<close>)



lemma log_one:
  assumes "dm_phase y = At_loop" and "\<not> app_closed (srv (dm_sys y))" and "\<not> dm_exited y" and "dead (dm_sys y) = None"
    and "events (srv (dm_sys y)) = dm_received y @ e # es"
  shows "(daemon_step L pid)\<^sup>*\<^sup>* y
    (y\<lparr>dm_received := dm_received y @ [e], dm_phase := At_loop, dm_printed := dm_printed y @ [event_line L pid stamp e]\<rparr>)"
proof -
  let ?a = "y\<lparr>dm_phase := Waiting\<rparr>" and ?b = "y\<lparr>dm_phase := Printing e, dm_received := dm_received y @ [e]\<rparr>"
  have "daemon_step L pid y ?a" by (rule daemon_step.log [OF assms(3,4) log_step.check_open [OF assms(1,2)]])
  moreover have "log_step L pid ?a ?b" using log_step.receive [of ?a e es L pid] assms(5) by simp
  then have "daemon_step L pid ?a ?b" using daemon_step.log [of ?a] assms(3,4) by simp
  moreover have "log_step L pid ?b (y\<lparr>dm_received := dm_received y @ [e], dm_phase := At_loop,
      dm_printed := dm_printed y @ [event_line L pid stamp e]\<rparr>)"
    using log_step.print [of ?b e L pid stamp] by simp
  then have "daemon_step L pid ?b (y\<lparr>dm_received := dm_received y @ [e], dm_phase := At_loop,
      dm_printed := dm_printed y @ [event_line L pid stamp e]\<rparr>)"
    using daemon_step.log [of ?b] assms(3,4) by simp
  ultimately show ?thesis by (meson converse_rtranclp_into_rtranclp r_into_rtranclp)
qed

theorem log_is_faithful_witness:
  "\<exists>s y e es. boot (\<lambda>_. None) rt_idle plain_lib 0 default_config = Ok s \<and>
     (daemon_step plain_lib 42)\<^sup>*\<^sup>* (start_daemon s) y \<and> events (srv (dm_sys y)) = e # es \<and>
     list_all2 (is_line plain_lib 42) (dm_printed y) [e]"
proof -
  obtain s where s: "boot (\<lambda>_. None) rt_idle plain_lib 0 default_config = Ok s" using boot_default by blast
  have n: "\<not> app_closed s" using boot_Ok [OF s] by simp
  obtain e es where e: "events (accept_start s) = e # es"
    by (cases "events (accept_start s)") (simp_all add: accept_start_def)
  let ?y = "(start_daemon s)\<lparr>dm_received := [] @ [e], dm_phase := At_loop, dm_printed := [] @ [event_line plain_lib 42 [] e]\<rparr>"
  have run: "(daemon_step plain_lib 42)\<^sup>*\<^sup>* (start_daemon s) ?y"
    using log_one [of "start_daemon s" e es plain_lib 42 "[]"] e n by (simp add: start_daemon_def start_def)
  have ev: "events (srv (dm_sys ?y)) = e # es" using e by (simp add: start_daemon_def start_def)
  from log_is_faithful [OF run] have "list_all2 (is_line plain_lib 42) (dm_printed ?y) [e]" unfolding ev by simp
  with s run ev show ?thesis by blast
qed

end
