(* ===== verification/SharedMaps.thy ===== *)
theory SharedMaps
  imports Threads Server
begin

text \<open>
  The maps that goroutines share without any lock: \<open>topics\<close> of \<open>backends/pubsub/pubsub_backend.go\<close>, whose
  topics have a mutex each but which itself has none, and \<open>clients\<close> and \<open>ClientSize\<close> of \<open>server/server.go\<close>, which
  the accept loop and the exit watchers change.  The operations are written out access by access; alone they
  are the functions of \<open>PubSub\<close> and \<open>Server\<close>, next to each other they race and lose updates.
\<close>

lemma write_race_reached:
  assumes "\<exists>y g p g' p'. advances is z = Some y \<and> th_now y 1 = Some (Update x g p) \<and> th_now y 0 = Some (Update x g' p')"
  shows "\<exists>y. micro_step\<^sup>*\<^sup>* z y \<and> data_race y"
proof -
  obtain y g p g' p' where y: "advances is z = Some y" "th_now y 1 = Some (Update x g p)" "th_now y 0 = Some (Update x g' p')"
    using assms by blast
  then have "data_race y" unfolding data_race_def by (metis zero_neq_one)
  with advances_run [OF y(1)] show ?thesis by blast
qed

lemma schedule_reached:
  assumes "\<exists>y. advances is z = Some y \<and> P y"
  shows "\<exists>y. micro_step\<^sup>*\<^sup>* z y \<and> P y"
  using assms advances_run by blast

section \<open>Topics\<close>

text \<open>
  The map of topics holds pointers: a \<open>TopicChannel\<close> is an object of its own, with its mutex, and the map may
  come to point to another one.
\<close>

record channels =
  ch_topics :: "bytes \<rightharpoonup> nat"
  ch_objects :: "nat \<rightharpoonup> topic"
  ch_fresh :: nat

datatype topic_place = Topic_map | Channel nat

type_synonym topic_prog = "(channels, topic_place, nat, unit) micro"

definition micro_subscribe_one :: "address \<Rightarrow> bytes \<Rightarrow> topic_prog \<Rightarrow> topic_prog" where
  "micro_subscribe_one addr key next =
     Fetch Topic_map (\<lambda>s. case ch_topics s key of
         Some t \<Rightarrow> Acquire t (Fetch (Channel t) (\<lambda>s. let topic = the (ch_objects s t) in
           if addr \<notin> tp_clients topic then
             Update (Channel t) (\<lambda>s. s\<lparr>ch_objects := (ch_objects s)(t \<mapsto>
               topic\<lparr>tp_clients := insert addr (tp_clients topic), tp_size := tp_size topic + 1\<rparr>)\<rparr>) (Release t next)
           else Release t next))
       | None \<Rightarrow> Update Topic_map (\<lambda>s. s\<lparr>ch_objects := (ch_objects s)(ch_fresh s \<mapsto> \<lparr>tp_size = 1, tp_clients = {addr}\<rparr>),
           ch_topics := (ch_topics s)(key \<mapsto> ch_fresh s), ch_fresh := ch_fresh s + 1\<rparr>) next)"

primrec micro_subscribe :: "address \<Rightarrow> bytes list \<Rightarrow> topic_prog" where
  "micro_subscribe addr [] = Ret ()"
| "micro_subscribe addr (k # ks) = micro_subscribe_one addr k (micro_subscribe addr ks)"

definition micro_unsubscribe_one :: "address \<Rightarrow> bytes \<Rightarrow> topic_prog \<Rightarrow> topic_prog" where
  "micro_unsubscribe_one addr key next =
     Fetch Topic_map (\<lambda>s. case ch_topics s key of
         Some t \<Rightarrow> Acquire t (Fetch (Channel t) (\<lambda>s. let topic = the (ch_objects s t) in
           if addr \<in> tp_clients topic then
             Update (Channel t) (\<lambda>s. s\<lparr>ch_objects := (ch_objects s)(t \<mapsto>
               topic\<lparr>tp_clients := tp_clients topic - {addr}, tp_size := tp_size topic - 1\<rparr>)\<rparr>) (Release t next)
           else Release t next))
       | None \<Rightarrow> next)"

primrec micro_unsubscribe :: "address \<Rightarrow> bytes list \<Rightarrow> topic_prog" where
  "micro_unsubscribe addr [] = Ret ()"
| "micro_unsubscribe addr (k # ks) = micro_unsubscribe_one addr k (micro_unsubscribe addr ks)"

subsection \<open>Alone\<close>

definition topics_of :: "channels \<Rightarrow> topics" where
  "topics_of s = (\<lambda>k. map_option (\<lambda>t. the (ch_objects s t)) (ch_topics s k))"

text \<open>No two keys share a topic, and the next object is not in use.\<close>

definition channels_ok :: "channels \<Rightarrow> bool" where
  "channels_ok s \<longleftrightarrow>
     (\<forall>k t. ch_topics s k = Some t \<longrightarrow> t < ch_fresh s) \<and>
     (\<forall>k j t. ch_topics s k = Some t \<longrightarrow> ch_topics s j = Some t \<longrightarrow> k = j)"

lemma topics_of_object:
  assumes "channels_ok s" and "ch_topics s key = Some t"
  shows "topics_of (s\<lparr>ch_objects := (ch_objects s)(t \<mapsto> topic)\<rparr>) = (topics_of s)(key \<mapsto> topic)"
  using assms by (auto simp: topics_of_def channels_ok_def fun_eq_iff split: option.split intro!: option.map_cong)

lemma run_subscribe_one:
  assumes "channels_ok s"
  shows "\<exists>s'. run (micro_subscribe_one addr key next) s = run next s' \<and> channels_ok s' \<and>
    topics_of s' = subscribe_one addr (topics_of s) key"
proof (cases "ch_topics s key")
  case None
  let ?s = "s\<lparr>ch_objects := (ch_objects s)(ch_fresh s \<mapsto> \<lparr>tp_size = 1, tp_clients = {addr}\<rparr>),
    ch_topics := (ch_topics s)(key \<mapsto> ch_fresh s), ch_fresh := ch_fresh s + 1\<rparr>"
  have "run (micro_subscribe_one addr key next) s = run next ?s" using None by (simp add: micro_subscribe_one_def)
  moreover have "channels_ok ?s" using assms None by (auto simp: channels_ok_def intro: less_SucI)
  moreover have fresh: "ch_topics s k \<noteq> Some (ch_fresh s)" for k using assms by (auto simp: channels_ok_def)
  then have "topics_of ?s = (topics_of s)(key \<mapsto> \<lparr>tp_size = 1, tp_clients = {addr}\<rparr>)"
    by (auto simp: topics_of_def fun_eq_iff intro!: option.map_cong)
  then have "topics_of ?s = subscribe_one addr (topics_of s) key" using None by (simp add: subscribe_one_def topics_of_def)
  ultimately show ?thesis by blast
next
  case (Some t)
  have *: "topics_of s key = Some (the (ch_objects s t))" using Some by (simp add: topics_of_def)
  have "channels_ok (s\<lparr>ch_objects := g\<rparr>)" for g using assms by (simp add: channels_ok_def)
  with Some * topics_of_object [OF assms Some] assms show ?thesis
    by (auto simp: micro_subscribe_one_def subscribe_one_def Let_def)
qed

lemma run_unsubscribe_one:
  assumes "channels_ok s"
  shows "\<exists>s'. run (micro_unsubscribe_one addr key next) s = run next s' \<and> channels_ok s' \<and>
    topics_of s' = unsubscribe_one addr (topics_of s) key"
proof (cases "ch_topics s key")
  case None
  then have "topics_of s key = None" by (simp add: topics_of_def)
  with None assms show ?thesis by (auto simp: micro_unsubscribe_one_def unsubscribe_one_def)
next
  case (Some t)
  have *: "topics_of s key = Some (the (ch_objects s t))" using Some by (simp add: topics_of_def)
  have "channels_ok (s\<lparr>ch_objects := g\<rparr>)" for g using assms by (simp add: channels_ok_def)
  with Some * topics_of_object [OF assms Some] assms show ?thesis
    by (auto simp: micro_unsubscribe_one_def unsubscribe_one_def Let_def)
qed

text \<open>The loops of \<open>subscribe\<close> and \<open>unsubscribe\<close> over their keys.\<close>

lemma run_topics_loop:
  assumes "channels_ok s" and "prog [] = Ret ()" and "\<And>k ks. prog (k # ks) = one k (prog ks)"
    and "\<And>s k next. channels_ok s \<Longrightarrow>
      \<exists>s'. run (one k next) s = run next s' \<and> channels_ok s' \<and> topics_of s' = op (topics_of s) k"
  shows "\<exists>s'. run (prog ks) s = ((), s') \<and> channels_ok s' \<and> topics_of s' = foldl op (topics_of s) ks"
  using assms(1)
proof (induction ks arbitrary: s)
  case (Cons k ks)
  from assms(4) [OF Cons.prems] obtain s1 where "run (one k (prog ks)) s = run (prog ks) s1"
    "channels_ok s1" "topics_of s1 = op (topics_of s) k" by blast
  with Cons.IH [of s1] assms(3) show ?case by simp
qed (simp add: assms(2))

lemma run_subscribe:
  assumes "channels_ok s"
  shows "\<exists>s'. run (micro_subscribe addr ks) s = ((), s') \<and> channels_ok s' \<and>
    topics_of s' = ps_subscribe (ABulk ks :: 'f args) addr (topics_of s)"
proof -
  have "ps_subscribe (ABulk ks :: 'f args) addr t = foldl (subscribe_one addr) t ks" for t by (cases ks) (simp_all add: ps_subscribe_def)
  with run_topics_loop [OF assms, of "micro_subscribe addr" "micro_subscribe_one addr", OF _ _ run_subscribe_one] show ?thesis by simp
qed

lemma run_unsubscribe:
  assumes "channels_ok s"
  shows "\<exists>s'. run (micro_unsubscribe addr ks) s = ((), s') \<and> channels_ok s' \<and>
    topics_of s' = ps_unsubscribe (ABulk ks :: 'f args) addr (topics_of s)"
proof -
  have "ps_unsubscribe (ABulk ks :: 'f args) addr t = foldl (unsubscribe_one addr) t ks" for t by (cases ks) (simp_all add: ps_unsubscribe_def)
  with run_topics_loop [OF assms, of "micro_unsubscribe addr" "micro_unsubscribe_one addr", OF _ _ run_unsubscribe_one] show ?thesis by simp
qed

subsection \<open>Next to each other\<close>

text \<open>
C22. The map of topics is not locked.  When two clients subscribe to a topic that does not exist yet, both
create it: the writes race, and the client whose topic is replaced is not subscribed, although its command
has succeeded like the other.
\<close>

theorem subscription_lost:
  assumes "ch_topics s k = None"
  shows "(\<exists>y. micro_step\<^sup>*\<^sup>* (side_by_side (micro_subscribe a [k]) (micro_subscribe b [k]) s) y \<and> data_race y) \<and>
    (\<exists>z. micro_step\<^sup>*\<^sup>* (side_by_side (micro_subscribe a [k]) (micro_subscribe b [k]) s) z \<and> all_returned z \<and>
       th_replies z 0 = [()] \<and> th_replies z 1 = [()] \<and>
       topics_of (th_mem z) k = Some \<lparr>tp_size = 1, tp_clients = {b}\<rparr>)"
proof
  show "\<exists>y. micro_step\<^sup>*\<^sup>* (side_by_side (micro_subscribe a [k]) (micro_subscribe b [k]) s) y \<and> data_race y"
    by (rule write_race_reached [of "[0, 0, 1, 1]" _ Topic_map])
       (use assms in \<open>simp add: side_defs micro_subscribe_one_def\<close>)
  show "\<exists>z. micro_step\<^sup>*\<^sup>* (side_by_side (micro_subscribe a [k]) (micro_subscribe b [k]) s) z \<and> all_returned z \<and>
       th_replies z 0 = [()] \<and> th_replies z 1 = [()] \<and>
       topics_of (th_mem z) k = Some \<lparr>tp_size = 1, tp_clients = {b}\<rparr>"
    by (rule schedule_reached [of "[0, 0, 1, 1, 0, 1, 0, 1]"])
       (use assms in \<open>simp add: side_defs micro_subscribe_one_def all_returned_def topics_of_def\<close>)
qed

theorem subscription_lost_witness:
  "\<exists>z. micro_step\<^sup>*\<^sup>* (side_by_side (micro_subscribe ''1.2.3.4:5'' [''news'']) (micro_subscribe ''1.2.3.4:6'' [''news''])
       \<lparr>ch_topics = Map.empty, ch_objects = Map.empty, ch_fresh = 0\<rparr>) z \<and> all_returned z \<and>
     topics_of (th_mem z) ''news'' = Some \<lparr>tp_size = 1, tp_clients = {''1.2.3.4:6''}\<rparr>"
  using subscription_lost [of "\<lparr>ch_topics = Map.empty, ch_objects = Map.empty, ch_fresh = 0\<rparr>" "''news''" "''1.2.3.4:5''" "''1.2.3.4:6''"]
  by auto

section \<open>Connected clients\<close>

text \<open>
  \<open>app.clients\<close> and \<open>app.ctx.ClientSize\<close> are plain fields of the server: the accept loop adds a client, the
  goroutine that waits for its exit removes it.  \<open>ClientSize++\<close> and \<open>ClientSize--\<close> read the field and then write it.
\<close>

datatype server_place = Clients | Client_size

type_synonym 'f server_prog = "('f server, server_place, unit, unit) micro"

definition micro_accepted :: "address \<Rightarrow> loc \<Rightarrow> 'f server_prog" where
  "micro_accepted addr c =
     Update Clients (\<lambda>s. s\<lparr>app_clients := (app_clients s)(addr \<mapsto> c)\<rparr>)
     (Fetch Client_size (\<lambda>s. let n = ctx_client_size (app_ctx s) in
      Update Client_size (\<lambda>s. s\<lparr>app_ctx := (app_ctx s)\<lparr>ctx_client_size := n + 1\<rparr>\<rparr>) (Ret ())))"

definition micro_reaped :: "address \<Rightarrow> 'f server_prog" where
  "micro_reaped addr =
     Update Clients (\<lambda>s. s\<lparr>app_clients := (app_clients s)(addr := None)\<rparr>)
     (Fetch Client_size (\<lambda>s. let n = ctx_client_size (app_ctx s) in
      Update Client_size (\<lambda>s. s\<lparr>app_ctx := (app_ctx s)\<lparr>ctx_client_size := n - 1\<rparr>\<rparr>) (Ret ())))"

text \<open>Alone they do what the accept loop (once it has the client) and the exit watcher do.\<close>

lemma run_accepted:
  assumes "client = handle_connection (app_protocol s) addr input"
  shows "run (micro_accepted (nc_address client) c) (s\<lparr>heap := (heap s)(c \<mapsto> client)\<rparr>) = ((), accept_connection addr input c s)"
  using assms by (simp add: micro_accepted_def accept_connection_def Let_def)

lemma run_reaped:
  assumes "heap s c = Some n"
  shows "run (micro_reaped (nc_address n)) s = ((), reap_client c s)"
  using assms by (simp add: micro_reaped_def reap_client_def Let_def)

text \<open>
C23. The count of clients is not locked.  When two clients leave at the same time, their exit watchers
race on the map of clients; and when both read the count before either writes it, both clients are
gone from the map but the count has gone down by one only, so that INFO shows a client too many from then on.
\<close>

theorem client_count_drifts:
  "(\<exists>y. micro_step\<^sup>*\<^sup>* (side_by_side (micro_reaped a) (micro_reaped b) s) y \<and> data_race y) \<and>
   (\<exists>z. micro_step\<^sup>*\<^sup>* (side_by_side (micro_reaped a) (micro_reaped b) s) z \<and> all_returned z \<and>
      app_clients (th_mem z) = (app_clients s)(a := None, b := None) \<and>
      ctx_client_size (app_ctx (th_mem z)) = ctx_client_size (app_ctx s) - 1)"
proof
  show "\<exists>y. micro_step\<^sup>*\<^sup>* (side_by_side (micro_reaped a) (micro_reaped b) s) y \<and> data_race y"
    by (rule write_race_reached [of "[0, 1]" _ Clients]) (simp add: side_defs micro_reaped_def)
  show "\<exists>z. micro_step\<^sup>*\<^sup>* (side_by_side (micro_reaped a) (micro_reaped b) s) z \<and> all_returned z \<and>
      app_clients (th_mem z) = (app_clients s)(a := None, b := None) \<and>
      ctx_client_size (app_ctx (th_mem z)) = ctx_client_size (app_ctx s) - 1"
    by (rule schedule_reached [of "[0, 1, 0, 1, 0, 1, 0, 1, 0, 1]"])
       (simp add: side_defs micro_reaped_def all_returned_def)
qed

end
