(* ===== verification/PoolPrograms.thy ===== *)
theory PoolPrograms
  imports Programs Threads
begin

text \<open>
  Goroutines that share one client of \<open>client/go/broadcast/client.go\<close>, access by access: every method of
  the client and of its connections, and the workers of the load generator, as sequences of accesses and
  locks.  Alone, each of them does what its function in \<open>GoClient\<close> or \<open>Programs\<close> does.
\<close>

section \<open>The client as programs\<close>

text \<open>
  The mutexes of \<open>Client\<close> and \<open>ClientConnection\<close>; the shared objects are the list of idle connections, the
  allocator, and the fields of each connection: \<open>netClient\<close>, the buffers that it points to, \<open>lastActive\<close>.
  The fields that \<open>NewClient\<close> sets are never changed.
\<close>

datatype pool_lock = Pool_lock | Conn_lock loc

datatype pool_place = Idle_conns | Allocator | Net_client loc | Net_buffers loc | Last_active loc

text \<open>What a goroutine gets from a call: a reply, or what a worker of the load generator has printed.\<close>

datatype 'f client_reply =
    Replied "'f gval res"
  | Async_sent "unit res"
  | Closed_all "string option"
  | Worked "unit res" bytes

type_synonym 'f client_prog = "(pool, pool_place, pool_lock, 'f client_reply) micro"

definition conn_at :: "pool \<Rightarrow> loc \<Rightarrow> connection" where
  "conn_at m c =
     (case pl_store m c of
        Some x \<Rightarrow> x
      | None \<Rightarrow> \<lparr>cc_bprotocol = [], cc_addr = [], cc_net = None, cc_last_active = 0\<rparr>)"

definition fetch_conn :: "pool_place \<Rightarrow> loc \<Rightarrow> (connection \<Rightarrow> 'f client_prog) \<Rightarrow> 'f client_prog" where
  "fetch_conn x c k = Fetch x (\<lambda>m. k (conn_at m c))"

definition set_conn :: "pool_place \<Rightarrow> loc \<Rightarrow> (connection \<Rightarrow> connection) \<Rightarrow> 'f client_prog \<Rightarrow> 'f client_prog" where
  "set_conn x c f k = Update x (\<lambda>m. m\<lparr>pl_store := (pl_store m)(c \<mapsto> f (conn_at m c))\<rparr>) k"

subsection \<open>The methods of a connection\<close>

text \<open>Each takes what is done with its result; \<open>connect\<close> takes no lock.\<close>

definition micro_finalize :: "loc \<Rightarrow> (string option \<Rightarrow> 'f client_prog) \<Rightarrow> 'f client_prog" where
  "micro_finalize c k =
     Acquire (Conn_lock c) (fetch_conn (Net_client c) c (\<lambda>x.
       case cc_net x of
         None \<Rightarrow> Release (Conn_lock c) (k None)
       | Some n \<Rightarrow>
           set_conn (Net_buffers c) c (\<lambda>x. x\<lparr>cc_net := Some (snd (nc_close n))\<rparr>)
           (case fst (nc_close n) of
              Panic p \<Rightarrow> Release (Conn_lock c) (k (Some p))
            | _ \<Rightarrow> set_conn (Net_client c) c (\<lambda>x. x\<lparr>cc_net := None\<rparr>) (Release (Conn_lock c) (k None)))))"

definition micro_connect :: "dial \<Rightarrow> loc \<Rightarrow> (gerr option \<Rightarrow> 'f client_prog) \<Rightarrow> 'f client_prog" where
  "micro_connect d c k =
     fetch_conn (Net_client c) c (\<lambda>x.
       case cc_net x of
         Some _ \<Rightarrow> k None
       | None \<Rightarrow>
           (case d of
              Inl e \<Rightarrow> k (Some e)
            | Inr peer \<Rightarrow>
                set_conn (Net_client c) c (\<lambda>x. x\<lparr>cc_net := Some (cc_new_client (cc_bprotocol x) peer)\<rparr>) (k None)))"

text \<open>\<open>finalize\<close> and the error that led to it; a panic wins.\<close>

definition micro_fail :: "gerr \<Rightarrow> loc \<Rightarrow> ('a res \<Rightarrow> 'f client_prog) \<Rightarrow> 'f client_prog" where
  "micro_fail e c k = micro_finalize c (\<lambda>p. k (case p of None \<Rightarrow> Err e | Some q \<Rightarrow> Panic q))"

text \<open>A method of \<open>netClient\<close> that writes, and what is done when it returns no error.\<close>

definition micro_writes :: "loc \<Rightarrow> (connection \<Rightarrow> bufwriter \<Rightarrow> gerr option \<times> bufwriter) \<Rightarrow> (unit res \<Rightarrow> 'f client_prog) \<Rightarrow>
    'f client_prog \<Rightarrow> 'f client_prog" where
  "micro_writes c f k next =
     fetch_conn (Net_client c) c (\<lambda>x.
       case cc_net x of
         None \<Rightarrow> k (Panic nil_panic)
       | Some n \<Rightarrow>
           set_conn (Net_buffers c) c (\<lambda>y. y\<lparr>cc_net := Some (n\<lparr>nc_writer := snd (f x (nc_writer n))\<rparr>)\<rparr>)
           (case fst (f x (nc_writer n)) of
              Some e \<Rightarrow> micro_fail e c k
            | None \<Rightarrow> next))"

definition micro_conn_async :: "'f golib \<Rightarrow> dial \<Rightarrow> bytes \<Rightarrow> 'f gval list \<Rightarrow> loc \<Rightarrow> (unit res \<Rightarrow> 'f client_prog) \<Rightarrow>
    'f client_prog" where
  "micro_conn_async L d cmd args c k =
     micro_connect d c (\<lambda>e.
       case e of
         Some e \<Rightarrow> k (Err e)
       | None \<Rightarrow>
           micro_writes c (\<lambda>x. net_write_command L (cc_bprotocol x) cmd args) k
           (micro_writes c (\<lambda>x. bw_flush) k (k (Ok ()))))"

definition micro_conn_read :: "'f golib \<Rightarrow> loc \<Rightarrow> ('f gval res \<Rightarrow> 'f client_prog) \<Rightarrow> 'f client_prog" where
  "micro_conn_read L c k =
     fetch_conn (Net_client c) c (\<lambda>x.
       case cc_net x of
         None \<Rightarrow> k (Panic nil_panic)
       | Some n \<Rightarrow>
           set_conn (Net_buffers c) c (\<lambda>x. x\<lparr>cc_net := Some (n\<lparr>nc_reader := snd (read_interface L (nc_reader n))\<rparr>)\<rparr>)
           (case fst (read_interface L (nc_reader n)) of
              Ok v \<Rightarrow> k (Ok v)
            | Err e \<Rightarrow> micro_fail e c k
            | Panic p \<Rightarrow> k (Panic p)))"

definition micro_conn_do :: "'f golib \<Rightarrow> dial \<Rightarrow> bytes \<Rightarrow> 'f gval list \<Rightarrow> loc \<Rightarrow> ('f gval res \<Rightarrow> 'f client_prog) \<Rightarrow>
    'f client_prog" where
  "micro_conn_do L d cmd args c k =
     micro_conn_async L d cmd args c (\<lambda>r.
       case r of
         Err e \<Rightarrow> k (Err e)
       | Panic p \<Rightarrow> k (Panic p)
       | Ok _ \<Rightarrow> micro_conn_read L c k)"

subsection \<open>The methods of the pool\<close>

definition micro_pool_get :: "(loc \<Rightarrow> 'f client_prog) \<Rightarrow> 'f client_prog" where
  "micro_pool_get k =
     Acquire Pool_lock (Fetch Idle_conns (\<lambda>m.
       case pl_idle m of
         [] \<Rightarrow>
           Fetch Allocator (\<lambda>m. let c = pl_next m in
           Update Allocator
             (\<lambda>m. m\<lparr>pl_store := (pl_store m)(c \<mapsto>
                 \<lparr>cc_bprotocol = pl_bprotocol m, cc_addr = pl_addr m, cc_net = None, cc_last_active = 0\<rparr>),
               pl_next := c + 1\<rparr>)
           (Release Pool_lock (k c)))
       | c # cs \<Rightarrow> Update Idle_conns (\<lambda>m. m\<lparr>pl_idle := tl (pl_idle m)\<rparr>) (Release Pool_lock (k c))))"

definition micro_pool_put :: "int \<Rightarrow> loc \<Rightarrow> (string option \<Rightarrow> 'f client_prog) \<Rightarrow> 'f client_prog" where
  "micro_pool_put now c k =
     Acquire Pool_lock (Fetch Idle_conns (\<lambda>m.
       if int (length (pl_idle m)) \<ge> pl_max_idle m then
         micro_finalize c (\<lambda>e. Release Pool_lock (k e))
       else
         set_conn (Last_active c) c (\<lambda>x. x\<lparr>cc_last_active := now\<rparr>)
         (Update Idle_conns (\<lambda>m. m\<lparr>pl_idle := c # pl_idle m\<rparr>) (Release Pool_lock (k None)))))"

text \<open>The loop of \<open>Close\<close> takes the front connection as long as there is one; the list only changes under the lock.\<close>

primrec micro_close_loop :: "loc list \<Rightarrow> (string option \<Rightarrow> 'f client_prog) \<Rightarrow> 'f client_prog" where
  "micro_close_loop [] k = Fetch Idle_conns (\<lambda>_. Release Pool_lock (k None))"
| "micro_close_loop (c # cs) k =
     Fetch Idle_conns (\<lambda>_. Update Idle_conns (\<lambda>m. m\<lparr>pl_idle := tl (pl_idle m)\<rparr>)
       (micro_finalize c (\<lambda>e.
          case e of
            Some q \<Rightarrow> Release Pool_lock (k (Some q))
          | None \<Rightarrow> micro_close_loop cs k)))"

definition micro_client_close :: "'f client_prog" where
  "micro_client_close =
     Acquire Pool_lock (Fetch Idle_conns (\<lambda>m. micro_close_loop (pl_idle m) (\<lambda>e. Ret (Closed_all e))))"

definition micro_client_do :: "'f golib \<Rightarrow> dial \<Rightarrow> int \<Rightarrow> bytes \<Rightarrow> 'f gval list \<Rightarrow> 'f client_prog" where
  "micro_client_do L d now cmd args =
     micro_pool_get (\<lambda>c. micro_conn_do L d cmd args c (\<lambda>reply.
       case reply of
         Panic q \<Rightarrow> Ret (Replied (Panic q))
       | _ \<Rightarrow> micro_pool_put now c (\<lambda>e.
           Ret (Replied (case e of Some q \<Rightarrow> Panic q | None \<Rightarrow> reply)))))"

definition micro_client_async :: "'f golib \<Rightarrow> dial \<Rightarrow> bytes \<Rightarrow> 'f gval list \<Rightarrow> 'f client_prog" where
  "micro_client_async L d cmd args =
     micro_pool_get (\<lambda>c. micro_conn_async L d cmd args c (\<lambda>r. Ret (Async_sent r)))"

subsection \<open>The workers of the load generator\<close>

text \<open>The loops of \<open>cmd/broadcast-benchmark/main.go\<close> over the connection that a worker has taken.\<close>

primrec micro_bench_async :: "'f golib \<Rightarrow> dial \<Rightarrow> bytes \<Rightarrow> 'f gval list \<Rightarrow> nat \<Rightarrow> loc \<Rightarrow> (unit res \<Rightarrow> 'f client_prog) \<Rightarrow>
    'f client_prog" where
  "micro_bench_async L d cmd args 0 c k = k (Ok ())"
| "micro_bench_async L d cmd args (Suc n) c k =
     micro_conn_async L d cmd args c (\<lambda>r.
       case r of Ok _ \<Rightarrow> micro_bench_async L d cmd args n c k | _ \<Rightarrow> k r)"

primrec micro_bench_sync :: "'f golib \<Rightarrow> dial \<Rightarrow> bytes \<Rightarrow> 'f gval list \<Rightarrow> nat \<Rightarrow> loc \<Rightarrow> (unit res \<Rightarrow> 'f client_prog) \<Rightarrow>
    'f client_prog" where
  "micro_bench_sync L d cmd args 0 c k = k (Ok ())"
| "micro_bench_sync L d cmd args (Suc n) c k =
     micro_conn_do L d cmd args c (\<lambda>r.
       case r of Ok _ \<Rightarrow> micro_bench_sync L d cmd args n c k | Err e \<Rightarrow> k (Err e) | Panic q \<Rightarrow> k (Panic q))"

primrec micro_bench_reads :: "'f golib \<Rightarrow> nat \<Rightarrow> loc \<Rightarrow> (unit res \<Rightarrow> 'f client_prog) \<Rightarrow> 'f client_prog" where
  "micro_bench_reads L 0 c k = k (Ok ())"
| "micro_bench_reads L (Suc n) c k =
     micro_conn_read L c (\<lambda>r. case r of Panic q \<Rightarrow> k (Panic q) | _ \<Rightarrow> micro_bench_reads L n c k)"

definition micro_bench_pipelined :: "'f golib \<Rightarrow> dial \<Rightarrow> bytes \<Rightarrow> 'f gval list \<Rightarrow> nat \<Rightarrow> loc \<Rightarrow>
    (unit res \<Rightarrow> 'f client_prog) \<Rightarrow> 'f client_prog" where
  "micro_bench_pipelined L d cmd args n c k =
     micro_bench_async L d cmd args n c (\<lambda>r. case r of Ok _ \<Rightarrow> micro_bench_reads L n c k | _ \<Rightarrow> k r)"

text \<open>\<open>Get\<close>, the loop, the message of an error, and the deferred \<open>CloseConnection\<close>.\<close>

definition micro_bench_worker :: "'f golib \<Rightarrow> int \<Rightarrow> bytes \<Rightarrow> (loc \<Rightarrow> (unit res \<Rightarrow> 'f client_prog) \<Rightarrow> 'f client_prog) \<Rightarrow>
    'f client_prog" where
  "micro_bench_worker L now cmd body =
     micro_pool_get (\<lambda>c. body c (\<lambda>r.
       let out = (case r of Err e \<Rightarrow> ''do '' @ cmd @ '' error '' @ err_text L e | _ \<Rightarrow> []) in
       micro_pool_put now c (\<lambda>e.
         Ret (Worked (case r of Panic q \<Rightarrow> Panic q | _ \<Rightarrow> (case e of Some q \<Rightarrow> Panic q | None \<Rightarrow> Ok ())) out))))"

subsection \<open>All calls\<close>

datatype 'f client_call =
    Do_call dial int bytes "'f gval list"
  | Async_call dial bytes "'f gval list"
  | Close_call
  | Wait_bench bool nat dial int bytes "'f gval list"
  | Wait_bench_async nat dial int bytes "'f gval list"

fun micro_client :: "'f golib \<Rightarrow> 'f client_call \<Rightarrow> 'f client_prog" where
  "micro_client L (Do_call d now cmd args) = micro_client_do L d now cmd args"
| "micro_client L (Async_call d cmd args) = micro_client_async L d cmd args"
| "micro_client L Close_call = micro_client_close"
| "micro_client L (Wait_bench pipelined loop d now cmd args) =
     micro_bench_worker L now cmd
       (if pipelined then micro_bench_pipelined L d cmd args loop else micro_bench_sync L d cmd args loop)"
| "micro_client L (Wait_bench_async loop d now cmd args) =
     micro_bench_worker L now cmd (micro_bench_async L d cmd args loop)"


section \<open>Alone, a call does what its function does\<close>

lemma conn_at_Some [simp]: "pl_store m c = Some x \<Longrightarrow> conn_at m c = x"
  by (simp add: conn_at_def)

lemma run_conn [simp]:
  "run (fetch_conn x c k) m = run (k (conn_at m c)) m"
  "run (set_conn x c f p) m = run p (m\<lparr>pl_store := (pl_store m)(c \<mapsto> f (conn_at m c))\<rparr>)"
  by (simp_all add: fetch_conn_def set_conn_def)

lemma store_same [simp]: "pl_store m c = Some x \<Longrightarrow> m\<lparr>pl_store := (pl_store m)(c \<mapsto> x)\<rparr> = m"
  by (simp add: fun_upd_idem)

text \<open>A program for a method of a connection, run alone.\<close>

definition runs_as :: "((('a \<Rightarrow> 'f client_prog) \<Rightarrow> 'f client_prog)) \<Rightarrow> (connection \<Rightarrow> 'a \<times> connection) \<Rightarrow> loc \<Rightarrow> bool" where
  "runs_as p f c \<longleftrightarrow>
     (\<forall>k m x. pl_store m c = Some x \<longrightarrow>
        run (p k) m = run (k (fst (f x))) (m\<lparr>pl_store := (pl_store m)(c \<mapsto> snd (f x))\<rparr>))"

lemma runs_asD: "runs_as p f c \<Longrightarrow> pl_store m c = Some x \<Longrightarrow>
    run (p k) m = run (k (fst (f x))) (m\<lparr>pl_store := (pl_store m)(c \<mapsto> snd (f x))\<rparr>)"
  by (simp add: runs_as_def)

lemma runs_finalize: "runs_as (micro_finalize c) cc_finalize c"
  by (auto simp: runs_as_def micro_finalize_def cc_finalize_def split: option.split res.split)

lemma runs_connect: "runs_as (micro_connect d c) (cc_connect d) c"
  by (auto simp: runs_as_def micro_connect_def cc_connect_def split: option.split sum.split)

lemma runs_fail: "runs_as (micro_fail e c) (fail_with e) c"
  unfolding runs_as_def micro_fail_def
  by (auto simp: runs_asD [OF runs_finalize] fail_with_def split: prod.split option.split)

lemma runs_async: "runs_as (micro_conn_async L d cmd args c) (cc_do_async L d cmd args) c"
  unfolding runs_as_def
proof (intro allI impI)
  fix k and m :: pool and x assume x: "pl_store m c = Some x"
  obtain e y where y: "cc_connect d x = (e, y)" by fastforce
  let ?m = "m\<lparr>pl_store := (pl_store m)(c \<mapsto> y)\<rparr>"
  have st: "pl_store ?m c = Some y" by simp
  show "run (micro_conn_async L d cmd args c k) m =
      run (k (fst (cc_do_async L d cmd args x))) (m\<lparr>pl_store := (pl_store m)(c \<mapsto> snd (cc_do_async L d cmd args x))\<rparr>)"
    by (simp add: micro_conn_async_def runs_asD [OF runs_connect x] y cc_do_async_def micro_writes_def
        runs_asD [OF runs_fail] split: option.split prod.split)
qed

lemma runs_read: "runs_as (micro_conn_read L c) (cc_read L) c"
  by (auto simp: runs_as_def micro_conn_read_def cc_read_def runs_asD [OF runs_fail] split: option.split prod.split res.split)

lemma runs_do: "runs_as (micro_conn_do L d cmd args c) (cc_do L d cmd args) c"
  by (auto simp: runs_as_def micro_conn_do_def cc_do_def runs_asD [OF runs_async] runs_asD [OF runs_read]
      split: prod.split res.split)

lemma runs_bench:
  "runs_as (micro_bench_async L d cmd args n c) (bench_async L d cmd args n) c"
  "runs_as (micro_bench_sync L d cmd args n c) (bench_sync L d cmd args n) c"
  "runs_as (micro_bench_reads L n c) (bench_reads L n) c"
proof -
  show "runs_as (micro_bench_async L d cmd args n c) (bench_async L d cmd args n) c"
  proof (induction n)
    case (Suc n)
    show ?case unfolding runs_as_def
      by (auto simp: runs_asD [OF runs_async] runs_asD [OF Suc.IH] split: prod.split res.split)
  qed (simp add: runs_as_def)
  show "runs_as (micro_bench_sync L d cmd args n c) (bench_sync L d cmd args n) c"
  proof (induction n)
    case (Suc n)
    show ?case unfolding runs_as_def
      by (auto simp: runs_asD [OF runs_do] runs_asD [OF Suc.IH] split: prod.split res.split)
  qed (simp add: runs_as_def)
  show "runs_as (micro_bench_reads L n c) (bench_reads L n) c"
  proof (induction n)
    case (Suc n)
    show ?case unfolding runs_as_def
      by (auto simp: runs_asD [OF runs_read] runs_asD [OF Suc.IH] split: prod.split res.split)
  qed (simp add: runs_as_def)
qed

lemma runs_pipelined: "runs_as (micro_bench_pipelined L d cmd args n c) (bench_pipelined L d cmd args n) c"
  by (auto simp: runs_as_def micro_bench_pipelined_def bench_pipelined_def runs_asD [OF runs_bench(1)]
      runs_asD [OF runs_bench(3)] split: prod.split res.split)


lemma run_get: "run (micro_pool_get k) m = run (k (fst (pool_get m))) (snd (pool_get m))"
  by (simp add: micro_pool_get_def pool_get_def Let_def split: list.split)

lemma run_put:
  assumes "pl_store m c = Some x"
  shows "run (micro_pool_put now c k) m = run (k (fst (pool_put now c m))) (snd (pool_put now c m))"
  using assms by (simp add: micro_pool_put_def pool_put_def runs_asD [OF runs_finalize] split: prod.split)

lemma run_close_loop:
  assumes "pl_idle m = cs" and "set cs \<subseteq> dom (pl_store m)"
  shows "run (micro_close_loop cs k) m = run (k (fst (close_idle cs m))) (snd (close_idle cs m))"
  using assms
proof (induction cs arbitrary: m)
  case Nil
  then have "m\<lparr>pl_idle := []\<rparr> = m" by simp
  then show ?case by simp
next
  case (Cons c cs)
  then obtain x where x: "pl_store m c = Some x" by auto
  obtain e y where y: "cc_finalize x = (e, y)" by fastforce
  let ?m = "m\<lparr>pl_idle := cs, pl_store := (pl_store m)(c \<mapsto> y)\<rparr>"
  have "pl_idle ?m = cs" "set cs \<subseteq> dom (pl_store ?m)" using Cons.prems by auto
  note IH = Cons.IH [OF this]
  have "pl_store (m\<lparr>pl_idle := cs\<rparr>) c = Some x" using x by simp
  note fin = runs_asD [OF runs_finalize this]
  show ?case using x y Cons.prems(1) IH by (simp add: fin Let_def split: option.split)
qed

fun client_effect :: "'f golib \<Rightarrow> 'f client_call \<Rightarrow> pool \<Rightarrow> 'f client_reply \<times> pool" where
  "client_effect L (Do_call d now cmd args) p = apfst Replied (client_do L d now cmd args p)"
| "client_effect L (Async_call d cmd args) p = apfst Async_sent (client_do_async L d cmd args p)"
| "client_effect L Close_call p = apfst Closed_all (client_close p)"
| "client_effect L (Wait_bench pipelined loop d now cmd args) p =
     (case wait_bench L pipelined loop d now cmd args (p, []) of (r, p', out) \<Rightarrow> (Worked r out, p'))"
| "client_effect L (Wait_bench_async loop d now cmd args) p =
     (case wait_bench_async L loop d now cmd args (p, []) of (r, p', out) \<Rightarrow> (Worked r out, p'))"

lemma pool_get_store: "pool_ok p \<Longrightarrow> \<exists>x. pl_store (snd (pool_get p)) (fst (pool_get p)) = Some x"
  using pool_get_frame(2) [of p "fst (pool_get p)" "snd (pool_get p)"] by auto

lemma run_bench_worker:
  assumes "pool_ok p" and "\<And>c. runs_as (prog c) body c"
  shows "run (micro_bench_worker L now cmd prog) p =
    (case bench_worker L now cmd body (p, []) of (r, p', out) \<Rightarrow> (Worked r out, p'))"
proof -
  obtain c q x where q: "pool_get p = (c, q)" "pl_store q c = Some x"
    using pool_get_store [OF assms(1)] by (metis prod.collapse)
  obtain r y where y: "body x = (r, y)" by fastforce
  let ?q = "q\<lparr>pl_store := (pl_store q)(c \<mapsto> y)\<rparr>"
  obtain e p' where p': "pool_put now c ?q = (e, p')" by fastforce
  have "pl_store ?q c = Some y" by simp
  note put = run_put [OF this]
  show ?thesis
    using q y p' by (cases r) (simp_all add: micro_bench_worker_def run_get runs_asD [OF assms(2)] put bench_worker_def with_conn_def Let_def)
qed

lemma run_micro_client:
  assumes "pool_ok p"
  shows "run (micro_client L call) p = client_effect L call p"
proof -
  obtain c q x where q: "pool_get p = (c, q)" "pl_store q c = Some x"
    using pool_get_store [OF assms] by (metis prod.collapse)
  have put: "run (micro_pool_put now c k) (q\<lparr>pl_store := (pl_store q)(c \<mapsto> y)\<rparr>) =
      run (k (fst (pool_put now c (q\<lparr>pl_store := (pl_store q)(c \<mapsto> y)\<rparr>))))
        (snd (pool_put now c (q\<lparr>pl_store := (pl_store q)(c \<mapsto> y)\<rparr>)))" for now y and k :: "string option \<Rightarrow> 'a client_prog"
    by (rule run_put [where x = y]) simp
  show ?thesis
  proof (cases call)
    case (Do_call d now cmd args)
    then show ?thesis using q
      by (auto simp: micro_client_do_def run_get runs_asD [OF runs_do] put client_do_def with_conn_def
          split: prod.split res.split option.split)
  next
    case (Async_call d cmd args)
    then show ?thesis using q
      by (simp add: micro_client_async_def run_get runs_asD [OF runs_async] client_do_async_def with_conn_def
          split: prod.split)
  next
    case Close_call
    have "set (pl_idle p) \<subseteq> dom (pl_store p)" using assms by (simp add: pool_ok_def)
    then show ?thesis using Close_call
      by (simp add: micro_client_close_def run_close_loop client_close_def apfst_def map_prod_def split: prod.split)
  next
    case (Wait_bench pipelined loop d now cmd args)
    have "runs_as ((if pipelined then micro_bench_pipelined L d cmd args loop else micro_bench_sync L d cmd args loop) c)
        (if pipelined then bench_pipelined L d cmd args loop else bench_sync L d cmd args loop) c" for c
      by (simp add: runs_pipelined runs_bench)
    from run_bench_worker [OF assms this] Wait_bench show ?thesis by (simp add: wait_bench_def)
  next
    case (Wait_bench_async loop d now cmd args)
    with run_bench_worker [OF assms runs_bench(1)] show ?thesis by (simp add: wait_bench_async_def)
  qed
qed

section \<open>Properties\<close>

text \<open>
Alone, every call of the client as a sequence of accesses and locks does what the function of \<open>GoClient\<close>
or \<open>Programs\<close> that models it does: it returns the same reply and leaves the same pool.
\<close>

theorem client_calls_alone:
  assumes "pool_ok p"
  shows "run (micro_client L call) p = client_effect L call p"
  by (rule run_micro_client [OF assms])

theorem client_calls_alone_witness:
  "run (micro_client plain_lib (Do_call (Inl EOF) 6 ''ping'' [])) (new_pool 7331 ''127.0.0.1'' 1 ''redis'') =
    client_effect plain_lib (Do_call (Inl EOF) 6 ''ping'' []) (new_pool 7331 ''127.0.0.1'' 1 ''redis'')"
  by (rule client_calls_alone [OF pool_ok_new])

end
