(* ===== verification/Ownership.thy ===== *)
theory Ownership
  imports PoolPrograms
begin

text \<open>
  The pool of a client has a mutex, and a connection is used without one by the goroutine that has taken
  it from the pool.  Why that is enough: every connection has one owner at a time, which changes only
  while the mutex of the pool is held.  This theory has the discipline that a program has to follow, in
  the style of rely and guarantee, and what follows for goroutines that all follow it.
\<close>

section \<open>Who owns a connection\<close>

text \<open>
  What holds of the pool at every moment: as \<open>pool_ok\<close>, but a connection that is not idle may have a
  network client that its owner has just closed.
\<close>

definition pool_shape :: "pool \<Rightarrow> bool" where
  "pool_shape m \<longleftrightarrow>
     distinct (pl_idle m) \<and> set (pl_idle m) \<subseteq> dom (pl_store m) \<and>
     (pl_idle m = [] \<or> int (length (pl_idle m)) \<le> pl_max_idle m) \<and>
     (\<forall>c \<in> set (pl_idle m). conn_ok (conn_at m c)) \<and> (\<forall>c. pl_next m \<le> c \<longrightarrow> pl_store m c = None)"

text \<open>
  A goroutine that holds the mutexes \<open>Q\<close> and owns the connections \<open>C\<close>: which objects it may access, what
  the others may do meanwhile, and what it may do itself.
\<close>

fun usable :: "pool_place \<Rightarrow> pool_lock set \<Rightarrow> loc set \<Rightarrow> bool" where
  "usable (Net_client c) Q C \<longleftrightarrow> c \<in> C"
| "usable (Net_buffers c) Q C \<longleftrightarrow> c \<in> C"
| "usable (Last_active c) Q C \<longleftrightarrow> c \<in> C"
| "usable _ Q C \<longleftrightarrow> Pool_lock \<in> Q"

definition rely :: "pool_lock set \<Rightarrow> loc set \<Rightarrow> pool \<Rightarrow> pool \<Rightarrow> bool" where
  "rely Q C m m' \<longleftrightarrow>
     pool_shape m' \<and> pl_max_idle m' = pl_max_idle m \<and> C \<subseteq> dom (pl_store m') \<and> C \<inter> set (pl_idle m') = {} \<and>
     (\<forall>c \<in> C. pl_store m' c = pl_store m c) \<and>
     (Pool_lock \<in> Q \<longrightarrow> pl_idle m' = pl_idle m \<and> pl_next m' = pl_next m)"

definition guarantee :: "pool_lock set \<Rightarrow> loc set \<Rightarrow> pool \<Rightarrow> pool \<Rightarrow> bool" where
  "guarantee Q C m m' \<longleftrightarrow>
     pool_shape m' \<and> pl_max_idle m' = pl_max_idle m \<and> dom (pl_store m) \<subseteq> dom (pl_store m') \<and>
     set (pl_idle m') \<subseteq> set (pl_idle m) \<union> C \<and>
     (\<forall>c \<in> dom (pl_store m) - C. pl_store m' c = pl_store m c) \<and>
     (Pool_lock \<notin> Q \<longrightarrow> pl_idle m' = pl_idle m \<and> pl_next m' = pl_next m \<and> dom (pl_store m') = dom (pl_store m))"

text \<open>Taking a connection from the idle list, or allocating it, makes it owned; putting it there gives it up.\<close>

definition owned_after :: "loc set \<Rightarrow> pool \<Rightarrow> pool \<Rightarrow> loc set" where
  "owned_after C m m' =
     (C \<union> set (pl_idle m) \<union> (dom (pl_store m') - dom (pl_store m))) - set (pl_idle m')"

text \<open>The replies of calls that do not give their connection back, and the reply of a \<open>Close\<close> that panics.\<close>

fun leaky :: "'f client_reply \<Rightarrow> bool" where
  "leaky (Replied r) \<longleftrightarrow> (\<exists>q. r = Panic q)"
| "leaky (Async_sent r) \<longleftrightarrow> True"
| "leaky _ \<longleftrightarrow> False"

definition close_panics :: "'f client_reply \<Rightarrow> bool" where
  "close_panics r \<longleftrightarrow> (\<exists>q. r = Closed_all (Some q))"

text \<open>
  The discipline: before every step the others may have changed what they may change; the goroutine
  accesses what it may use, keeps its guarantee, takes a mutex that it does not hold, the mutex of a
  connection only if it owns the connection, and ends without mutexes and with no open connection.
\<close>

primrec disciplined :: "'f client_prog \<Rightarrow> pool_lock set \<Rightarrow> loc set \<Rightarrow> pool \<Rightarrow> bool" where
  "disciplined (Ret r) Q C m \<longleftrightarrow>
     Q = {} \<and> \<not> close_panics r \<and> (leaky r \<or> (\<forall>c \<in> C. cc_net (conn_at m c) = None))"
| "disciplined (Acquire l p) Q C m \<longleftrightarrow>
     l \<notin> Q \<and> (\<forall>c. l = Conn_lock c \<longrightarrow> c \<in> C) \<and> (\<forall>m'. rely Q C m m' \<longrightarrow> disciplined p (insert l Q) C m')"
| "disciplined (Release l p) Q C m \<longleftrightarrow>
     l \<in> Q \<and> (\<forall>m'. rely Q C m m' \<longrightarrow> disciplined p (Q - {l}) C m')"
| "disciplined (Fetch x f) Q C m \<longleftrightarrow>
     usable x Q C \<and> (\<forall>m'. rely Q C m m' \<longrightarrow> disciplined (f m') Q C m')"
| "disciplined (Update x g p) Q C m \<longleftrightarrow>
     usable x Q C \<and>
     (\<forall>m'. rely Q C m m' \<longrightarrow>
        guarantee Q C m' (g m') \<and> (\<forall>c \<in> C - owned_after C m' (g m'). Conn_lock c \<notin> Q) \<and>
        disciplined p Q (owned_after C m' (g m')) (g m'))"

lemma rely_trans: "rely Q C m m' \<Longrightarrow> rely Q C m' m'' \<Longrightarrow> rely Q C m m''"
  by (simp add: rely_def)

lemma rely_refl: "rely Q C m m' \<Longrightarrow> rely Q C m' m'"
  by (simp add: rely_def)

lemma rely_conn_lock [simp]: "rely (insert (Conn_lock c) Q) C = rely Q C"
  by (simp add: rely_def fun_eq_iff)

lemma rely_conn_at: "rely Q C m m' \<Longrightarrow> c \<in> C \<Longrightarrow> conn_at m' c = conn_at m c"
  by (simp add: rely_def conn_at_def)

lemma disciplined_later:
  assumes "disciplined p Q C m" and "rely Q C m m'"
  shows "disciplined p Q C m'"
  using assms by (cases p) (auto intro: rely_trans simp: rely_conn_at)


section \<open>All goroutines together\<close>

text \<open>
  \<open>own\<close> says who owns which connections.  A connection that nobody owns is idle, closed, or lost by a
  call that leaks.
\<close>

definition accounted :: "(pool, pool_place, pool_lock, 'f client_reply) threads \<Rightarrow> (nat \<Rightarrow> loc set) \<Rightarrow> bool" where
  "accounted y own \<longleftrightarrow>
     (\<forall>c x. pl_store (th_mem y) c = Some x \<longrightarrow>
        c \<in> set (pl_idle (th_mem y)) \<or> (\<exists>i. c \<in> own i) \<or> cc_net x = None \<or> (\<exists>i. \<exists>r \<in> set (th_replies y i). leaky r))"

definition thread_ok :: "(pool, pool_place, pool_lock, 'f client_reply) threads \<Rightarrow> (nat \<Rightarrow> loc set) \<Rightarrow> nat \<Rightarrow> bool" where
  "thread_ok y own i \<longleftrightarrow>
     (case th_now y i of
        None \<Rightarrow> owned y i = {} \<and> own i = {}
      | Some p \<Rightarrow> disciplined p (owned y i) (own i) (th_mem y)) \<and>
     (\<forall>p \<in> set (th_todo y i). \<forall>m. pool_shape m \<longrightarrow> disciplined p {} {} m) \<and>
     (\<forall>c. Conn_lock c \<in> owned y i \<longrightarrow> c \<in> own i) \<and>
     own i \<subseteq> dom (pl_store (th_mem y)) \<and> own i \<inter> set (pl_idle (th_mem y)) = {} \<and>
     (\<forall>r \<in> set (th_replies y i). \<not> close_panics r)"

definition well_owned :: "(pool, pool_place, pool_lock, 'f client_reply) threads \<Rightarrow> (nat \<Rightarrow> loc set) \<Rightarrow> bool" where
  "well_owned y own \<longleftrightarrow>
     pool_shape (th_mem y) \<and> (\<forall>i j. i \<noteq> j \<longrightarrow> own i \<inter> own j = {}) \<and> (\<forall>i. thread_ok y own i) \<and> accounted y own"

lemma well_ownedD:
  assumes "well_owned y own"
  shows "pool_shape (th_mem y)" "i \<noteq> j \<Longrightarrow> own i \<inter> own j = {}" "thread_ok y own i" "accounted y own"
  using assms unfolding well_owned_def by blast+

lemma thread_okD:
  assumes "thread_ok y own i"
  shows "th_now y i = Some p \<Longrightarrow> disciplined p (owned y i) (own i) (th_mem y)"
    "th_now y i = None \<Longrightarrow> owned y i = {} \<and> own i = {}"
    "p \<in> set (th_todo y i) \<Longrightarrow> pool_shape m \<Longrightarrow> disciplined p {} {} m"
    "Conn_lock c \<in> owned y i \<Longrightarrow> c \<in> own i"
    "own i \<subseteq> dom (pl_store (th_mem y))" "own i \<inter> set (pl_idle (th_mem y)) = {}"
    "r \<in> set (th_replies y i) \<Longrightarrow> \<not> close_panics r"
  using assms unfolding thread_ok_def by auto

lemma well_owned_rely:
  assumes "well_owned y own"
  shows "rely (owned y i) (own i) (th_mem y) (th_mem y)"
  using well_ownedD(1) [OF assms] thread_okD(5,6) [OF well_ownedD(3) [OF assms, where i = i]] by (simp add: rely_def)

text \<open>A mutex has one holder, and what one goroutine guarantees is what the others rely on.\<close>

lemma owned_disjoint: "i \<noteq> j \<Longrightarrow> owned y i \<inter> owned y j = {}"
  by (auto simp: owned_def)

lemma guarantee_rely:
  assumes "guarantee Q C m m'" and "Q \<inter> Q' = {}" and "C \<inter> C' = {}" and "C' \<subseteq> dom (pl_store m)" and "C' \<inter> set (pl_idle m) = {}"
  shows "rely Q' C' m m'"
proof -
  have "C' \<subseteq> dom (pl_store m')" using assms(1,4) by (auto simp: guarantee_def)
  then show ?thesis using assms by (auto simp: guarantee_def rely_def)
qed

lemma owned_after_dom:
  assumes "guarantee Q C m m'" and "C \<subseteq> dom (pl_store m)" and "pool_shape m"
  shows "owned_after C m m' \<subseteq> dom (pl_store m')"
proof -
  have "dom (pl_store m) \<subseteq> dom (pl_store m')" "set (pl_idle m) \<subseteq> dom (pl_store m)"
    using assms(1,3) by (simp_all add: guarantee_def pool_shape_def)
  with assms(2) show ?thesis unfolding owned_after_def by blast
qed

text \<open>A goroutine during a step of another one.\<close>

lemma thread_ok_later:
  assumes "thread_ok y own j" and "rely (owned y j) (own j) (th_mem y) (th_mem y')" and "own' j = own j"
    and "owned y' j = owned y j" and "th_now y' j = th_now y j" and "th_todo y' j = th_todo y j" and "th_replies y' j = th_replies y j"
  shows "thread_ok y' own' j"
proof -
  have "own j \<subseteq> dom (pl_store (th_mem y'))" "own j \<inter> set (pl_idle (th_mem y')) = {}"
    using assms(2) by (simp_all add: rely_def)
  moreover have "disciplined p (owned y j) (own j) (th_mem y')" if "th_now y j = Some p" for p
    by (rule disciplined_later [OF thread_okD(1) [OF assms(1) that] assms(2)])
  moreover note thread_okD(2-4,7) [OF assms(1)]
  ultimately show ?thesis unfolding thread_ok_def assms(3-7) by (simp split: option.split)
qed

text \<open>A step that leaves memory and owners alone.\<close>

lemma well_owned_still:
  assumes "well_owned y own" and "th_mem y' = th_mem y"
    and "\<And>j. j \<noteq> i \<Longrightarrow> owned y' j = owned y j \<and> th_now y' j = th_now y j \<and> th_todo y' j = th_todo y j \<and> th_replies y' j = th_replies y j"
    and "th_replies y' i = th_replies y i" and "thread_ok y' own i"
  shows "well_owned y' own"
proof -
  have "thread_ok y' own j" for j
  proof (cases "j = i")
    case False
    show ?thesis
      by (rule thread_ok_later [OF well_ownedD(3) [OF assms(1)]])
         (use assms(3) [OF False] well_owned_rely [OF assms(1), of j] assms(2) in simp_all)
  qed (simp add: assms(5))
  moreover have "th_replies y' j = th_replies y j" for j using assms(3,4) by (cases "j = i") auto
  then have "accounted y' own" using well_ownedD(4) [OF assms(1)] by (simp add: accounted_def assms(2))
  ultimately show ?thesis using assms(1,2) by (simp add: well_owned_def)
qed

lemma well_owned_update:
  assumes "well_owned y own" and "th_now y i = Some (Update x g p)"
  shows "\<exists>own'. well_owned (y\<lparr>th_now := (th_now y)(i \<mapsto> p), th_mem := g (th_mem y)\<rparr>) own'"
proof -
  let ?m = "th_mem y" and ?n = "g (th_mem y)" and ?y = "y\<lparr>th_now := (th_now y)(i \<mapsto> p), th_mem := g (th_mem y)\<rparr>"
  let ?C = "owned_after (own i) ?m ?n"
  let ?own = "own(i := ?C)"
  note ok = well_ownedD [OF assms(1)]
  note ti = thread_okD [OF ok(3) [where i = i]]
  have "disciplined (Update x g p) (owned y i) (own i) ?m" by (rule ti(1) [OF assms(2)])
  then have "guarantee (owned y i) (own i) ?m ?n \<and> (\<forall>c \<in> own i - ?C. Conn_lock c \<notin> owned y i) \<and>
      disciplined p (owned y i) ?C ?n"
    using well_owned_rely [OF assms(1), of i] unfolding disciplined.simps by blast
  then have g: "guarantee (owned y i) (own i) ?m ?n" and keep: "\<forall>c \<in> own i - ?C. Conn_lock c \<notin> owned y i"
    and p: "disciplined p (owned y i) ?C ?n" by blast+
  have own: "owned ?y j = owned y j" for j by (simp add: owned_def)
  have shape: "pool_shape ?n" using g by (simp add: guarantee_def)
  have others: "rely (owned y j) (own j) ?m ?n" if "j \<noteq> i" for j
    by (rule guarantee_rely [OF g]) (use that ok(2) [of i j] owned_disjoint [of i j y] thread_okD(5,6) [OF ok(3) [where i = j]] in blast)+
  have disj: "?C \<inter> own j = {}" if "j \<noteq> i" for j
    using that ok(2) [of i j] thread_okD(5,6) [OF ok(3) [where i = j]] unfolding owned_after_def by blast
  have t: "thread_ok ?y ?own j" for j
  proof (cases "j = i")
    case True
    have "?C \<subseteq> dom (pl_store ?n)"
      by (rule owned_after_dom [OF g ti(5) ok(1)])
    moreover have "?C \<inter> set (pl_idle ?n) = {}" by (auto simp: owned_after_def)
    moreover have "c \<in> ?C" if "Conn_lock c \<in> owned y i" for c using that keep ti(4) [of c] by blast
    ultimately show ?thesis using True p ti(3,7) by (simp add: thread_ok_def own)
  next
    case False
    show ?thesis
      by (rule thread_ok_later [OF ok(3)]) (use False others [OF False] in \<open>simp_all add: own\<close>)
  qed
  have "accounted ?y ?own"
    unfolding accounted_def
  proof (intro allI impI)
    fix c z assume z: "pl_store (th_mem ?y) c = Some z"
    then have z': "pl_store ?n c = Some z" by simp
    show "c \<in> set (pl_idle (th_mem ?y)) \<or> (\<exists>j. c \<in> ?own j) \<or> cc_net z = None \<or>
        (\<exists>j. \<exists>r \<in> set (th_replies ?y j). leaky r)"
    proof (cases "c \<in> ?C \<or> c \<in> set (pl_idle ?n)")
      case True
      then have "c \<in> ?own i \<or> c \<in> set (pl_idle ?n)" by simp
      then show ?thesis by auto
    next
      case False
      then have c: "c \<in> dom (pl_store ?m) - own i" "c \<notin> set (pl_idle ?m)" using z' by (auto simp: owned_after_def)
      then have "pl_store ?m c = Some z" using g z' by (auto simp: guarantee_def)
      with ok(4) c(2) have "(\<exists>j. c \<in> own j) \<or> cc_net z = None \<or> (\<exists>j. \<exists>r \<in> set (th_replies y j). leaky r)"
        unfolding accounted_def by blast
      moreover have "c \<in> ?own j" if "c \<in> own j" for j using that c(1) by auto
      ultimately have "(\<exists>j. c \<in> ?own j) \<or> cc_net z = None \<or> (\<exists>j. \<exists>r \<in> set (th_replies y j). leaky r)"
        by blast
      then show ?thesis by simp
    qed
  qed
  with shape disj ok(2) t have "well_owned ?y ?own"
    by (auto simp: well_owned_def)
  then show ?thesis by blast
qed


lemma well_owned_call:
  assumes "well_owned y own" and "th_now y i = None" and "th_todo y i = p # ps"
  shows "well_owned (y\<lparr>th_now := (th_now y)(i \<mapsto> p), th_todo := (th_todo y)(i := ps)\<rparr>) own"
proof -
  note t = well_ownedD(3) [OF assms(1), where i = i]
  have "disciplined p {} {} (th_mem y)" by (rule thread_okD(3) [OF t]) (use assms(3) well_ownedD(1) [OF assms(1)] in auto)
  with thread_okD(2) [OF t assms(2)] thread_okD(3,7) [OF t] assms(3) show ?thesis
    by (intro well_owned_still [OF assms(1), where i = i]) (auto simp: thread_ok_def owned_def)
qed

lemma owned_acquire:
  assumes "th_owner y l = None"
  shows "owned (y\<lparr>th_now := n, th_owner := (th_owner y)(l \<mapsto> i)\<rparr>) j = (if j = i then insert l (owned y i) else owned y j)"
  using assms by (auto simp: owned_def)

lemma owned_release:
  assumes "l \<in> owned y i"
  shows "owned (y\<lparr>th_now := n, th_owner := (th_owner y)(l := None)\<rparr>) j = (if j = i then owned y i - {l} else owned y j)"
  using assms by (auto simp: owned_def)

lemma well_owned_acquire:
  assumes "well_owned y own" and "th_now y i = Some (Acquire l p)" and "th_owner y l = None"
  shows "well_owned (y\<lparr>th_now := (th_now y)(i \<mapsto> p), th_owner := (th_owner y)(l \<mapsto> i)\<rparr>) own"
proof -
  note t = thread_okD [OF well_ownedD(3) [OF assms(1), where i = i]]
  from t(1) [OF assms(2)] have "\<forall>c. l = Conn_lock c \<longrightarrow> c \<in> own i"
    and "disciplined p (insert l (owned y i)) (own i) (th_mem y)"
    using well_owned_rely [OF assms(1), of i] by auto
  with t(3-7) show ?thesis
    by (intro well_owned_still [OF assms(1), where i = i]) (simp_all add: thread_ok_def owned_acquire [OF assms(3)])
qed

lemma well_owned_release:
  assumes "well_owned y own" and "th_now y i = Some (Release l p)"
  shows "well_owned (y\<lparr>th_now := (th_now y)(i \<mapsto> p), th_owner := (th_owner y)(l := None)\<rparr>) own"
proof -
  note t = thread_okD [OF well_ownedD(3) [OF assms(1), where i = i]]
  from t(1) [OF assms(2)] have l: "l \<in> owned y i" and "disciplined p (owned y i - {l}) (own i) (th_mem y)"
    using well_owned_rely [OF assms(1), of i] by auto
  with t(3-7) show ?thesis
    by (intro well_owned_still [OF assms(1), where i = i]) (simp_all add: thread_ok_def owned_release [OF l])
qed

lemma well_owned_fetch:
  assumes "well_owned y own" and "th_now y i = Some (Fetch x f)"
  shows "well_owned (y\<lparr>th_now := (th_now y)(i \<mapsto> f (th_mem y))\<rparr>) own"
proof -
  note t = thread_okD [OF well_ownedD(3) [OF assms(1), where i = i]]
  from t(1) [OF assms(2)] have "disciplined (f (th_mem y)) (owned y i) (own i) (th_mem y)"
    using well_owned_rely [OF assms(1), of i] by auto
  with t(3-7) show ?thesis
    by (intro well_owned_still [OF assms(1), where i = i]) (simp_all add: thread_ok_def owned_upd)
qed

lemma well_owned_return:
  assumes "well_owned y own" and "th_now y i = Some (Ret r)"
  shows "well_owned (y\<lparr>th_now := (th_now y)(i := None), th_replies := (th_replies y)(i := th_replies y i @ [r])\<rparr>)
    (own(i := {}))"
proof -
  let ?y = "y\<lparr>th_now := (th_now y)(i := None), th_replies := (th_replies y)(i := th_replies y i @ [r])\<rparr>"
  note ok = well_ownedD [OF assms(1)]
  note t = thread_okD [OF ok(3) [where i = i]]
  from t(1) [OF assms(2)] have r: "owned y i = {}" "\<not> close_panics r"
    and shut: "leaky r \<or> (\<forall>c \<in> own i. cc_net (conn_at (th_mem y) c) = None)" by auto
  have th: "thread_ok ?y (own(i := {})) j" for j
  proof (cases "j = i")
    case True
    then show ?thesis using r t(3,7) by (auto simp: thread_ok_def owned_def)
  next
    case False
    show ?thesis
      by (rule thread_ok_later [OF ok(3)]) (use False well_owned_rely [OF assms(1), of j] in \<open>simp_all add: owned_def\<close>)
  qed
  have "accounted ?y (own(i := {}))"
    unfolding accounted_def
  proof (intro allI impI)
    fix c z assume z: "pl_store (th_mem ?y) c = Some z"
    then have net: "conn_at (th_mem y) c = z" by simp
    from z ok(4) consider "c \<in> set (pl_idle (th_mem y))" | j where "c \<in> own j" "j \<noteq> i" | "c \<in> own i" | "cc_net z = None"
      | j q where "q \<in> set (th_replies y j)" "leaky q" unfolding accounted_def by fastforce
    then show "c \<in> set (pl_idle (th_mem ?y)) \<or> (\<exists>j. c \<in> (own(i := {})) j) \<or> cc_net z = None \<or>
        (\<exists>j. \<exists>q \<in> set (th_replies ?y j). leaky q)"
    proof cases
      case 3
      then show ?thesis using shut net by fastforce
    next
      case (5 j q)
      then have "q \<in> set (th_replies ?y j)" by auto
      with 5 show ?thesis by blast
    qed auto
  qed
  moreover have "(own(i := {})) j \<inter> (own(i := {})) k = {}" if "j \<noteq> k" for j k using ok(2) [OF that] by auto
  moreover have "pool_shape (th_mem ?y)" using ok(1) by simp
  ultimately show ?thesis using th unfolding well_owned_def by blast
qed

lemma well_owned_step:
  assumes "micro_step y z" and "well_owned y own"
  shows "\<exists>own'. well_owned z own'"
  using assms(1)
proof cases
  case (call i p ps)
  from well_owned_call [OF assms(2) call(2,3)] show ?thesis unfolding call(1) by blast
next
  case (acquire i l p)
  from well_owned_acquire [OF assms(2) acquire(2,3)] show ?thesis unfolding acquire(1) by blast
next
  case (release i l p)
  from well_owned_release [OF assms(2) release(2)] show ?thesis unfolding release(1) by blast
next
  case (fetch i x f)
  from well_owned_fetch [OF assms(2) fetch(2)] show ?thesis unfolding fetch(1) by blast
next
  case (update i x g p)
  from well_owned_update [OF assms(2) update(2)] show ?thesis unfolding update(1) by blast
next
  case (return i r)
  from well_owned_return [OF assms(2) return(2)] show ?thesis unfolding return(1) by blast
qed


text \<open>What follows for a state: nobody races, nobody waits for ever, and nothing is lost.\<close>

definition about_to_access :: "(pool, pool_place, pool_lock, 'f client_reply) threads \<Rightarrow> nat \<Rightarrow> pool_place \<Rightarrow> bool" where
  "about_to_access y i x \<longleftrightarrow>
     (\<exists>f. th_now y i = Some (Fetch x f)) \<or> (\<exists>g p. th_now y i = Some (Update x g p))"

lemma access_usable:
  assumes "well_owned y own" and "about_to_access y i x"
  shows "usable x (owned y i) (own i)"
  using assms(2) thread_okD(1) [OF well_ownedD(3) [OF assms(1), where i = i]] by (fastforce simp: about_to_access_def)

lemma usable_once: "usable x Q C \<Longrightarrow> usable x Q' C' \<Longrightarrow> Q \<inter> Q' = {} \<Longrightarrow> C \<inter> C' \<noteq> {}"
  by (cases x) auto

lemma access_alone:
  assumes "well_owned y own" and "about_to_access y i x" and "about_to_access y j x"
  shows "i = j"
proof (rule ccontr)
  assume ij: "i \<noteq> j"
  have "own i \<inter> own j \<noteq> {}"
    by (rule usable_once [OF access_usable [OF assms(1,2)] access_usable [OF assms(1,3)] owned_disjoint [OF ij]])
  with well_ownedD(2) [OF assms(1) ij] show False by simp
qed

lemma well_owned_no_race: "well_owned y own \<Longrightarrow> \<not> data_race y"
  unfolding data_race_def using access_alone unfolding about_to_access_def by blast

lemma well_owned_progress:
  assumes "well_owned y own" and "\<nexists>z. micro_step y z"
  shows "all_returned y"
proof -
  note t = thread_okD [OF well_ownedD(3) [OF assms(1)]]
  have conn_free: "th_owner y (Conn_lock c) = None" if w: "th_now y i = Some (Acquire (Conn_lock c) p)" for i c p
  proof (cases "th_owner y (Conn_lock c)")
    case (Some j)
    then have "c \<in> own j" using t(4) by (auto simp: owned_def)
    moreover have "c \<in> own i" "Conn_lock c \<notin> owned y i" using t(1) [OF w] by auto
    ultimately show ?thesis using Some well_ownedD(2) [OF assms(1), of i j] by (cases "i = j") (auto simp: owned_def)
  qed
  have stuck: "\<exists>p. th_now y i = Some (Acquire Pool_lock p)" if "th_now y i = Some q" for i q
  proof (cases q)
    case (Acquire l p)
    show ?thesis
    proof (cases l)
      case (Conn_lock c)
      then have w: "th_now y i = Some (Acquire (Conn_lock c) p)" using that Acquire by simp
      from micro_step.acquire [OF w conn_free [OF w]] assms(2) show ?thesis by blast
    qed (use that Acquire in simp)
  qed (use that assms(2) in \<open>auto dest: micro_step.intros\<close>)
  have free: "th_owner y Pool_lock = None"
  proof (cases "th_owner y Pool_lock")
    case (Some i)
    then have h: "Pool_lock \<in> owned y i" by (simp add: owned_def)
    then obtain q where "th_now y i = Some q" using t(2) [of i] by (cases "th_now y i") auto
    then obtain p where "th_now y i = Some (Acquire Pool_lock p)" using stuck by blast
    then show ?thesis using t(1) h by fastforce
  qed
  have none: "th_now y i = None" for i
  proof (cases "th_now y i")
    case (Some q)
    then show ?thesis using stuck free assms(2) by (blast dest: micro_step.acquire)
  qed
  then have "th_todo y i = []" for i using assms(2) by (cases "th_todo y i") (auto dest: micro_step.call)
  with none show ?thesis by (simp add: all_returned_def)
qed

lemma well_owned_returned:
  assumes "well_owned y own" and "all_returned y" and "\<forall>i. \<forall>r \<in> set (th_replies y i). \<not> leaky r"
    and "pl_store (th_mem y) c = Some x" and "cc_net x = Some n"
  shows "c \<in> set (pl_idle (th_mem y))"
proof -
  have "own i = {}" for i
    using thread_okD(2) [OF well_ownedD(3) [OF assms(1), where i = i]] assms(2) by (simp add: all_returned_def)
  with well_ownedD(4) [OF assms(1)] assms(3-5) show ?thesis by (fastforce simp: accounted_def)
qed

lemma start_well_owned:
  assumes "pool_shape m" and "\<And>i p. p \<in> set (ps i) \<Longrightarrow> \<forall>m. pool_shape m \<longrightarrow> disciplined p {} {} m"
    and "\<And>c x. pl_store m c = Some x \<Longrightarrow> c \<in> set (pl_idle m) \<or> cc_net x = None"
  shows "well_owned (start_threads m ps) (\<lambda>_. {})"
  using assms by (fastforce simp: well_owned_def thread_ok_def accounted_def start_threads_def owned_def)

lemma step_max_idle:
  assumes "micro_step y z" and "well_owned y own"
  shows "pl_max_idle (th_mem z) = pl_max_idle (th_mem y)"
  using assms(1)
proof cases
  case (update i x g p)
  have "disciplined (Update x g p) (owned y i) (own i) (th_mem y)"
    by (rule thread_okD(1) [OF well_ownedD(3) [OF assms(2)] update(2)])
  then have "guarantee (owned y i) (own i) (th_mem y) (g (th_mem y))"
    using well_owned_rely [OF assms(2), of i] by simp
  then show ?thesis unfolding update(1) by (simp add: guarantee_def)
qed simp_all

lemma well_owned_run:
  assumes "micro_step\<^sup>*\<^sup>* y z" and "well_owned y own"
  shows "\<exists>own'. well_owned z own' \<and> pl_max_idle (th_mem z) = pl_max_idle (th_mem y)"
  using assms(1)
proof (induction rule: rtranclp_induct)
  case (step u v)
  then show ?case using well_owned_step [OF step.hyps(2)] step_max_idle [OF step.hyps(2)] by fastforce
qed (use assms(2) in blast)

text \<open>A goroutine that runs while the others pause returns what the program returns alone.\<close>

lemma runs_alone:
  assumes "disciplined p Q C (th_mem y)" and "rely Q C (th_mem y) (th_mem y)" and "th_now y i = Some p"
    and "th_owner y = (\<lambda>l. if l \<in> Q then Some i else None)"
  shows "\<exists>y'. micro_step\<^sup>*\<^sup>* y y' \<and> th_mem y' = snd (run p (th_mem y)) \<and> th_owner y' = (\<lambda>_. None) \<and>
    th_now y' = (th_now y)(i := None) \<and> th_todo y' = th_todo y \<and>
    th_replies y' = (th_replies y)(i := th_replies y i @ [fst (run p (th_mem y))])"
proof -
  have later: "\<exists>y'. micro_step\<^sup>*\<^sup>* y y' \<and> A y'" if "micro_step y z" "\<exists>y'. micro_step\<^sup>*\<^sup>* z y' \<and> A y'"
    for y z :: "(pool, pool_place, pool_lock, 'a client_reply) threads" and A
    using that converse_rtranclp_into_rtranclp by metis
  show ?thesis
    using assms
  proof (induction p arbitrary: y Q C)
    case (Ret r)
    let ?y = "y\<lparr>th_now := (th_now y)(i := None), th_replies := (th_replies y)(i := th_replies y i @ [r])\<rparr>"
    have "micro_step\<^sup>*\<^sup>* y ?y" by (intro r_into_rtranclp micro_step.return Ret.prems(3))
    with Ret.prems(1,4) show ?case by (intro exI [of _ ?y]) simp
  next
    case (Acquire l p)
    let ?y = "y\<lparr>th_now := (th_now y)(i \<mapsto> p), th_owner := (th_owner y)(l \<mapsto> i)\<rparr>"
    have free: "th_owner y l = None" using Acquire.prems(1,4) by simp
    have d: "disciplined p (insert l Q) C (th_mem ?y)" using Acquire.prems(1,2) by simp
    have r: "rely (insert l Q) C (th_mem ?y) (th_mem ?y)" using Acquire.prems(2) by (simp add: rely_def)
    have n: "th_now ?y i = Some p" by simp
    have "th_owner ?y = (\<lambda>l'. if l' \<in> insert l Q then Some i else None)" using Acquire.prems(4) by (auto simp: fun_eq_iff)
    from later [OF micro_step.acquire [OF Acquire.prems(3) free] Acquire.IH [OF d r n this]] show ?case by (simp del: fun_upd_apply)
  next
    case (Release l p)
    let ?y = "y\<lparr>th_now := (th_now y)(i \<mapsto> p), th_owner := (th_owner y)(l := None)\<rparr>"
    have d: "disciplined p (Q - {l}) C (th_mem ?y)" using Release.prems(1,2) by simp
    have r: "rely (Q - {l}) C (th_mem ?y) (th_mem ?y)" using Release.prems(2) by (simp add: rely_def)
    have n: "th_now ?y i = Some p" by simp
    have "th_owner ?y = (\<lambda>l'. if l' \<in> Q - {l} then Some i else None)" using Release.prems(4) by (auto simp: fun_eq_iff)
    from later [OF micro_step.release [OF Release.prems(3)] Release.IH [OF d r n this]] show ?case by (simp del: fun_upd_apply)
  next
    case (Fetch x f)
    let ?y = "y\<lparr>th_now := (th_now y)(i \<mapsto> f (th_mem y))\<rparr>"
    have d: "disciplined (f (th_mem y)) Q C (th_mem ?y)" using Fetch.prems(1,2) by simp
    have r: "rely Q C (th_mem ?y) (th_mem ?y)" using Fetch.prems(2) by simp
    have n: "th_now ?y i = Some (f (th_mem y))" by simp
    have "th_owner ?y = (\<lambda>l. if l \<in> Q then Some i else None)" using Fetch.prems(4) by simp
    from later [OF micro_step.fetch [OF Fetch.prems(3)] Fetch.IH [OF rangeI d r n this]] show ?case by (simp del: fun_upd_apply)
  next
    case (Update x g p)
    let ?n = "g (th_mem y)"
    let ?y = "y\<lparr>th_now := (th_now y)(i \<mapsto> p), th_mem := ?n\<rparr>" and ?C = "owned_after C (th_mem y) ?n"
    have g: "guarantee Q C (th_mem y) ?n" and d: "disciplined p Q ?C (th_mem ?y)" using Update.prems(1,2) by simp_all
    have "?C \<subseteq> dom (pl_store ?n)"
      by (rule owned_after_dom [OF g]) (use Update.prems(2) in \<open>simp_all add: rely_def\<close>)
    then have r: "rely Q ?C (th_mem ?y) (th_mem ?y)" using g by (auto simp: rely_def guarantee_def owned_after_def)
    have n: "th_now ?y i = Some p" by simp
    have "th_owner ?y = (\<lambda>l. if l \<in> Q then Some i else None)" using Update.prems(4) by simp
    from later [OF micro_step.update [OF Update.prems(3)] Update.IH [OF d r n this]] show ?case by (simp del: fun_upd_apply)
  qed
qed

end
