(* ===== verification/Discipline.thy ===== *)
theory Discipline
  imports Ownership
begin

text \<open>
  The methods of the client and the workers of the load generator follow the discipline of \<open>Ownership\<close>.
\<close>

section \<open>The client is disciplined\<close>

text \<open>What can become of the pool while a goroutine works on its connection \<open>c\<close>.\<close>

definition worked_on :: "loc \<Rightarrow> pool_lock set \<Rightarrow> loc set \<Rightarrow> pool \<Rightarrow> pool \<Rightarrow> bool" where
  "worked_on c Q C m m' \<longleftrightarrow> rely Q (C - {c}) m m' \<and> c \<in> dom (pl_store m') \<and> c \<notin> set (pl_idle m')"

lemma rely_worked: "rely Q C m m' \<Longrightarrow> c \<in> C \<Longrightarrow> worked_on c Q C m m'"
  by (auto simp: worked_on_def rely_def)

lemma worked_trans: "worked_on c Q C m m' \<Longrightarrow> worked_on c Q C m' m'' \<Longrightarrow> worked_on c Q C m m''"
  using rely_trans by (auto simp: worked_on_def)

lemma worked_conn_lock [simp]: "worked_on c (insert (Conn_lock d) Q) C = worked_on c Q C"
  by (simp add: worked_on_def fun_eq_iff)

lemma worked_rely: "worked_on c Q C m m' \<Longrightarrow> c \<in> C \<Longrightarrow> rely Q C m' m'"
  by (auto simp: worked_on_def rely_def)

lemma set_conn_shape:
  assumes "rely Q C m m'" and "c \<in> C"
  shows "guarantee Q C m' (m'\<lparr>pl_store := (pl_store m')(c \<mapsto> x)\<rparr>)"
    "owned_after C m' (m'\<lparr>pl_store := (pl_store m')(c \<mapsto> x)\<rparr>) = C"
    "worked_on c Q C m (m'\<lparr>pl_store := (pl_store m')(c \<mapsto> x)\<rparr>)"
proof -
  let ?m = "m'\<lparr>pl_store := (pl_store m')(c \<mapsto> x)\<rparr>"
  have c: "c \<in> dom (pl_store m')" "c \<notin> set (pl_idle m')" using assms by (auto simp: rely_def)
  then have d: "dom (pl_store ?m) = dom (pl_store m')" by auto
  have m': "pool_shape m'" using assms(1) by (simp add: rely_def)
  then have "conn_ok (conn_at ?m a)" if "a \<in> set (pl_idle m')" for a
    using that c(2) by (cases "a = c") (simp_all add: conn_at_def pool_shape_def)
  moreover have "\<not> pl_next m' \<le> c" using c(1) m' by (auto simp: pool_shape_def)
  ultimately have shape: "pool_shape ?m" using c d m' by (simp add: pool_shape_def)
  then show "guarantee Q C m' ?m" using d assms(2) by (auto simp: guarantee_def)
  show "owned_after C m' ?m = C" using d assms(1) by (auto simp: owned_after_def rely_def)
  show "worked_on c Q C m ?m" using shape d c assms(1) by (auto simp: worked_on_def rely_def)
qed

lemma disciplined_set_conn:
  assumes "c \<in> C" and "x \<in> {Net_client c, Net_buffers c, Last_active c}"
    and "\<And>m'. worked_on c Q C m m' \<Longrightarrow> conn_at m' c = f (conn_at m c) \<Longrightarrow> disciplined p Q C m'"
  shows "disciplined (set_conn x c f p) Q C m"
proof -
  have "usable x Q C" using assms(1,2) by auto
  moreover have "guarantee Q C m' n \<and> owned_after C m' n = C \<and> disciplined p Q C n"
    if "rely Q C m m'" "n = m'\<lparr>pl_store := (pl_store m')(c \<mapsto> f (conn_at m' c))\<rparr>" for m' n
    using set_conn_shape [OF that(1) assms(1)] assms(3) rely_conn_at [OF that(1) assms(1)] unfolding that(2) by simp
  ultimately show ?thesis by (simp add: set_conn_def)
qed

lemma disciplined_fetch_conn:
  assumes "c \<in> C" and "x \<in> {Net_client c, Net_buffers c, Last_active c}"
    and "\<And>m'. worked_on c Q C m m' \<Longrightarrow> conn_at m' c = conn_at m c \<Longrightarrow> disciplined (k (conn_at m c)) Q C m'"
  shows "disciplined (fetch_conn x c k) Q C m"
  using assms rely_worked rely_conn_at by (auto simp: fetch_conn_def)


lemma disciplined_finalize:
  assumes "c \<in> C" and "Conn_lock c \<notin> Q" and "conn_ok (conn_at m c)"
    and "\<And>m'. worked_on c Q C m m' \<Longrightarrow> cc_net (conn_at m' c) = None \<Longrightarrow> disciplined (k None) Q C m'"
  shows "disciplined (micro_finalize c k) Q C m"
proof -
  let ?Q = "insert (Conn_lock c) Q"
  have drop: "?Q - {Conn_lock c} = Q" using assms(2) by simp
  have release: "disciplined (Release (Conn_lock c) (k None)) ?Q C m'"
    if w: "worked_on c Q C m m'" "cc_net (conn_at m' c) = None" for m'
  proof -
    have "disciplined (k None) Q C m''" if r: "rely Q C m' m''" for m''
      using assms(4) [OF worked_trans [OF w(1) rely_worked [OF r assms(1)]]] rely_conn_at [OF r assms(1)] w(2) by simp
    then show ?thesis by (simp add: drop)
  qed
  have "disciplined (fetch_conn (Net_client c) c (\<lambda>x. case cc_net x of
        None \<Rightarrow> Release (Conn_lock c) (k None)
      | Some n \<Rightarrow> set_conn (Net_buffers c) c (\<lambda>x. x\<lparr>cc_net := Some (snd (nc_close n))\<rparr>)
          (case fst (nc_close n) of
             Panic p \<Rightarrow> Release (Conn_lock c) (k (Some p))
           | _ \<Rightarrow> set_conn (Net_client c) c (\<lambda>x. x\<lparr>cc_net := None\<rparr>) (Release (Conn_lock c) (k None))))) ?Q C m1"
    if m1: "rely Q C m m1" for m1
  proof (rule disciplined_fetch_conn [OF assms(1)])
    fix m2 assume m2: "worked_on c ?Q C m1 m2" "conn_at m2 c = conn_at m1 c"
    have w: "worked_on c Q C m m2" using worked_trans [OF rely_worked [OF m1 assms(1)]] m2(1) by simp
    have x: "conn_at m1 c = conn_at m c" by (rule rely_conn_at [OF m1 assms(1)])
    show "disciplined (case cc_net (conn_at m1 c) of
        None \<Rightarrow> Release (Conn_lock c) (k None)
      | Some n \<Rightarrow> set_conn (Net_buffers c) c (\<lambda>x. x\<lparr>cc_net := Some (snd (nc_close n))\<rparr>)
          (case fst (nc_close n) of
             Panic p \<Rightarrow> Release (Conn_lock c) (k (Some p))
           | _ \<Rightarrow> set_conn (Net_client c) c (\<lambda>x. x\<lparr>cc_net := None\<rparr>) (Release (Conn_lock c) (k None)))) ?Q C m2"
    proof (cases "cc_net (conn_at m1 c)")
      case None
      then show ?thesis using release [OF w] m2(2) by simp
    next
      case (Some n)
      then have "nc_live n" using assms(3) x by (simp add: conn_ok_def)
      then have "fst (nc_close n) = Ok ()" by (simp add: nc_close_live)
      moreover have "disciplined (set_conn (Net_buffers c) c (\<lambda>x. x\<lparr>cc_net := Some (snd (nc_close n))\<rparr>)
          (set_conn (Net_client c) c (\<lambda>x. x\<lparr>cc_net := None\<rparr>) (Release (Conn_lock c) (k None)))) ?Q C m2"
      proof (intro disciplined_set_conn [OF assms(1)])
        fix m3 m4 assume "worked_on c ?Q C m2 m3" "worked_on c ?Q C m3 m4" "conn_at m4 c = (conn_at m3 c)\<lparr>cc_net := None\<rparr>"
        then show "disciplined (Release (Conn_lock c) (k None)) ?Q C m4"
          using release [of m4] worked_trans [OF worked_trans [OF w]] by simp
      qed simp_all
      ultimately show ?thesis using Some by simp
    qed
  qed simp
  with assms(1,2) show ?thesis by (simp add: micro_finalize_def)
qed

text \<open>A method of the connection \<open>c\<close>, for the owner of \<open>c\<close>.\<close>

definition owner_method :: "loc \<Rightarrow> (('a \<Rightarrow> 'f client_prog) \<Rightarrow> 'f client_prog) \<Rightarrow> bool" where
  "owner_method c p \<longleftrightarrow>
     (\<forall>k Q C m. c \<in> C \<longrightarrow> Conn_lock c \<notin> Q \<longrightarrow> rely Q C m m \<longrightarrow> conn_ok (conn_at m c) \<longrightarrow>
        (\<forall>r m'. worked_on c Q C m m' \<longrightarrow> conn_ok (conn_at m' c) \<longrightarrow> disciplined (k r) Q C m') \<longrightarrow>
        disciplined (p k) Q C m)"

lemma owner_methodI:
  assumes "\<And>k Q C m. c \<in> C \<Longrightarrow> Conn_lock c \<notin> Q \<Longrightarrow> rely Q C m m \<Longrightarrow> conn_ok (conn_at m c) \<Longrightarrow>
      (\<And>r m'. worked_on c Q C m m' \<Longrightarrow> conn_ok (conn_at m' c) \<Longrightarrow> disciplined (k r) Q C m') \<Longrightarrow> disciplined (p k) Q C m"
  shows "owner_method c p"
  using assms by (simp add: owner_method_def)

lemma owner_methodD:
  assumes "owner_method c p" and "c \<in> C" and "Conn_lock c \<notin> Q" and "rely Q C m m" and "conn_ok (conn_at m c)"
    and "\<And>r m'. worked_on c Q C m m' \<Longrightarrow> conn_ok (conn_at m' c) \<Longrightarrow> disciplined (k r) Q C m'"
  shows "disciplined (p k) Q C m"
  using assms by (simp add: owner_method_def)

text \<open>Methods one after the other.\<close>

lemma owner_method_bind:
  fixes p :: "('a \<Rightarrow> 'f client_prog) \<Rightarrow> 'f client_prog" and q :: "'a \<Rightarrow> ('b \<Rightarrow> 'f client_prog) \<Rightarrow> 'f client_prog"
  assumes "owner_method c p" and "\<And>r. owner_method c (q r)"
  shows "owner_method c (\<lambda>k. p (\<lambda>r. q r k))"
proof (rule owner_methodI)
  fix k :: "'b \<Rightarrow> 'f client_prog" and Q C m
  assume *: "c \<in> C" "Conn_lock c \<notin> Q" "rely Q C m m" "conn_ok (conn_at m c)"
    "\<And>r m'. worked_on c Q C m m' \<Longrightarrow> conn_ok (conn_at m' c) \<Longrightarrow> disciplined (k r) Q C m'"
  show "disciplined (p (\<lambda>r. q r k)) Q C m"
  proof (rule owner_methodD [OF assms(1) *(1-4)])
    fix r m' assume m': "worked_on c Q C m m'" "conn_ok (conn_at m' c)"
    show "disciplined (q r k) Q C m'"
      by (rule owner_methodD [OF assms(2) *(1,2) worked_rely [OF m'(1) *(1)] m'(2)])
         (use *(5) worked_trans [OF m'(1)] in blast)
  qed
qed

lemma owner_return: "owner_method c (\<lambda>k. k r)"
  by (simp add: owner_method_def rely_worked)

lemma owner_finalize: "owner_method c (micro_finalize c)"
  by (rule owner_methodI, rule disciplined_finalize) (simp_all add: conn_ok_def)

lemma owner_method_map: "owner_method c p \<Longrightarrow> owner_method c (\<lambda>k. p (\<lambda>r. k (f r)))"
  by (simp add: owner_method_def)

lemma owner_fail: "owner_method c (micro_fail e c)"
  unfolding micro_fail_def by (rule owner_method_map [OF owner_finalize])


lemma disciplined_writes:
  assumes "c \<in> C" and "Conn_lock c \<notin> Q" and "rely Q C m m" and "conn_ok (conn_at m c)"
    and "\<And>r m'. worked_on c Q C m m' \<Longrightarrow> conn_ok (conn_at m' c) \<Longrightarrow> disciplined (k r) Q C m'"
    and "\<And>m'. worked_on c Q C m m' \<Longrightarrow> conn_ok (conn_at m' c) \<Longrightarrow> disciplined next Q C m'"
  shows "disciplined (micro_writes c f k next) Q C m"
  unfolding micro_writes_def
proof (rule disciplined_fetch_conn [OF assms(1)])
  let ?x = "conn_at m c"
  fix m1 assume m1: "worked_on c Q C m m1" "conn_at m1 c = ?x"
  show "disciplined (case cc_net ?x of
      None \<Rightarrow> k (Panic nil_panic)
    | Some n \<Rightarrow> set_conn (Net_buffers c) c (\<lambda>x. x\<lparr>cc_net := Some (n\<lparr>nc_writer := snd (f ?x (nc_writer n))\<rparr>)\<rparr>)
        (case fst (f ?x (nc_writer n)) of Some e \<Rightarrow> micro_fail e c k | None \<Rightarrow> next)) Q C m1"
  proof (cases "cc_net ?x")
    case None
    then show ?thesis using assms(4,5) m1 by simp
  next
    case (Some n)
    have "disciplined (set_conn (Net_buffers c) c (\<lambda>x. x\<lparr>cc_net := Some (n\<lparr>nc_writer := snd (f ?x (nc_writer n))\<rparr>)\<rparr>)
        (case fst (f ?x (nc_writer n)) of Some e \<Rightarrow> micro_fail e c k | None \<Rightarrow> next)) Q C m1"
    proof (rule disciplined_set_conn [OF assms(1)])
      fix m2 assume "worked_on c Q C m1 m2"
        "conn_at m2 c = (conn_at m1 c)\<lparr>cc_net := Some (n\<lparr>nc_writer := snd (f ?x (nc_writer n))\<rparr>)\<rparr>"
      with m1 Some assms(4) have m2: "worked_on c Q C m m2" "conn_ok (conn_at m2 c)"
        using worked_trans [OF m1(1)] by (simp_all add: conn_ok_def)
      show "disciplined (case fst (f ?x (nc_writer n)) of Some e \<Rightarrow> micro_fail e c k | None \<Rightarrow> next) Q C m2"
      proof (cases "fst (f ?x (nc_writer n))")
        case (Some e)
        have "disciplined (micro_fail e c k) Q C m2"
          by (rule owner_methodD [OF owner_fail assms(1,2) worked_rely [OF m2(1) assms(1)] m2(2)])
             (use assms(5) worked_trans [OF m2(1)] in blast)
        with Some show ?thesis by simp
      qed (use assms(6) m2 in simp)
    qed simp
    with Some show ?thesis by simp
  qed
qed simp

lemma owner_connect: "owner_method c (micro_connect d c)"
proof (rule owner_methodI)
  fix k :: "gerr option \<Rightarrow> 'b client_prog" and Q C m
  assume *: "c \<in> C" "Conn_lock c \<notin> Q" "rely Q C m m" "conn_ok (conn_at m c)"
    "\<And>r m'. worked_on c Q C m m' \<Longrightarrow> conn_ok (conn_at m' c) \<Longrightarrow> disciplined (k r) Q C m'"
  show "disciplined (micro_connect d c k) Q C m"
    unfolding micro_connect_def
  proof (rule disciplined_fetch_conn [OF *(1)])
    fix m1 assume m1: "worked_on c Q C m m1" "conn_at m1 c = conn_at m c"
    have "disciplined (set_conn (Net_client c) c (\<lambda>x. x\<lparr>cc_net := Some (cc_new_client (cc_bprotocol x) peer)\<rparr>) (k None)) Q C m1"
      for peer
    proof (rule disciplined_set_conn [OF *(1)])
      fix m2 assume "worked_on c Q C m1 m2"
        "conn_at m2 c = (conn_at m1 c)\<lparr>cc_net := Some (cc_new_client (cc_bprotocol (conn_at m1 c)) peer)\<rparr>"
      with m1 worked_trans show "disciplined (k None) Q C m2"
        by (intro *(5)) (auto simp: cc_new_client_def new_network_client_def)
    qed simp
    with *(4,5) m1 show "disciplined (case cc_net (conn_at m c) of
        Some _ \<Rightarrow> k None
      | None \<Rightarrow> (case d of Inl e \<Rightarrow> k (Some e) | Inr peer \<Rightarrow>
          set_conn (Net_client c) c (\<lambda>x. x\<lparr>cc_net := Some (cc_new_client (cc_bprotocol x) peer)\<rparr>) (k None))) Q C m1"
      by (simp split: option.split sum.split)
  qed simp
qed

lemma owner_writes: "owner_method c (\<lambda>k. micro_writes c f k (k (Ok ())))"
  by (rule owner_methodI, rule disciplined_writes) simp_all

lemma owner_writes_twice:
  "owner_method c (\<lambda>k. micro_writes c f k (micro_writes c g k (k (Ok ()))))"
proof (rule owner_methodI)
  fix k :: "unit res \<Rightarrow> 'a client_prog" and Q C m
  assume *: "c \<in> C" "Conn_lock c \<notin> Q" "rely Q C m m" "conn_ok (conn_at m c)"
    "\<And>r m'. worked_on c Q C m m' \<Longrightarrow> conn_ok (conn_at m' c) \<Longrightarrow> disciplined (k r) Q C m'"
  show "disciplined (micro_writes c f k (micro_writes c g k (k (Ok ())))) Q C m"
  proof (rule disciplined_writes [OF *])
    fix m' assume m': "worked_on c Q C m m'" "conn_ok (conn_at m' c)"
    show "disciplined (micro_writes c g k (k (Ok ()))) Q C m'"
      by (rule owner_methodD [OF owner_writes *(1,2) worked_rely [OF m'(1) *(1)] m'(2)])
         (use *(5) worked_trans [OF m'(1)] in blast)
  qed
qed

lemma owner_async: "owner_method c (micro_conn_async L d cmd args c)"
proof -
  have "owner_method c (\<lambda>k. case e of
      Some e \<Rightarrow> k (Err e)
    | None \<Rightarrow> micro_writes c f k (micro_writes c g k (k (Ok ()))))" for e f g
    by (cases e) (simp_all add: owner_return owner_writes_twice)
  from owner_method_bind [OF owner_connect this] show ?thesis
    unfolding micro_conn_async_def [abs_def] .
qed

lemma owner_read: "owner_method c (micro_conn_read L c)"
proof (rule owner_methodI)
  fix k :: "'a gval res \<Rightarrow> 'a client_prog" and Q C m
  let ?x = "conn_at m c"
  assume *: "c \<in> C" "Conn_lock c \<notin> Q" "rely Q C m m" "conn_ok ?x"
    "\<And>r m'. worked_on c Q C m m' \<Longrightarrow> conn_ok (conn_at m' c) \<Longrightarrow> disciplined (k r) Q C m'"
  show "disciplined (micro_conn_read L c k) Q C m"
    unfolding micro_conn_read_def
  proof (rule disciplined_fetch_conn [OF *(1)])
    fix m1 assume m1: "worked_on c Q C m m1" "conn_at m1 c = ?x"
    have "disciplined (set_conn (Net_buffers c) c
        (\<lambda>x. x\<lparr>cc_net := Some (n\<lparr>nc_reader := snd (read_interface L (nc_reader n))\<rparr>)\<rparr>)
        (case fst (read_interface L (nc_reader n)) of
           Ok v \<Rightarrow> k (Ok v) | Err e \<Rightarrow> micro_fail e c k | Panic p \<Rightarrow> k (Panic p))) Q C m1"
      if n: "cc_net ?x = Some n" for n
    proof (rule disciplined_set_conn [OF *(1)])
      fix m2 assume "worked_on c Q C m1 m2"
        "conn_at m2 c = (conn_at m1 c)\<lparr>cc_net := Some (n\<lparr>nc_reader := snd (read_interface L (nc_reader n))\<rparr>)\<rparr>"
      with m1 n *(4) have m2: "worked_on c Q C m m2" "conn_ok (conn_at m2 c)"
        using worked_trans [OF m1(1)] by (simp_all add: conn_ok_def)
      have "disciplined (micro_fail e c k) Q C m2" for e
        by (rule owner_methodD [OF owner_fail *(1,2) worked_rely [OF m2(1) *(1)] m2(2)])
           (use *(5) worked_trans [OF m2(1)] in blast)
      with *(5) m2 show "disciplined (case fst (read_interface L (nc_reader n)) of
          Ok v \<Rightarrow> k (Ok v) | Err e \<Rightarrow> micro_fail e c k | Panic p \<Rightarrow> k (Panic p)) Q C m2"
        by (simp split: res.split)
    qed simp
    with *(4,5) m1 show "disciplined (case cc_net ?x of
        None \<Rightarrow> k (Panic nil_panic)
      | Some n \<Rightarrow> set_conn (Net_buffers c) c
          (\<lambda>x. x\<lparr>cc_net := Some (n\<lparr>nc_reader := snd (read_interface L (nc_reader n))\<rparr>)\<rparr>)
          (case fst (read_interface L (nc_reader n)) of
             Ok v \<Rightarrow> k (Ok v) | Err e \<Rightarrow> micro_fail e c k | Panic p \<Rightarrow> k (Panic p))) Q C m1"
      by (simp split: option.split)
  qed simp
qed


lemma owner_do: "owner_method c (micro_conn_do L d cmd args c)"
proof -
  have "owner_method c (\<lambda>k. case r of Err e \<Rightarrow> k (Err e) | Panic p \<Rightarrow> k (Panic p) | Ok _ \<Rightarrow> micro_conn_read L c k)" for r :: "unit res"
    by (cases r) (simp_all add: owner_return owner_read)
  from owner_method_bind [OF owner_async this] show ?thesis unfolding micro_conn_do_def [abs_def] .
qed

lemma owner_bench_async: "owner_method c (micro_bench_async L d cmd args n c)"
proof (induction n)
  case (Suc n)
  have "owner_method c (\<lambda>k. case r of Ok _ \<Rightarrow> micro_bench_async L d cmd args n c k | _ \<Rightarrow> k r)" for r :: "unit res"
    by (cases r) (simp_all add: owner_return Suc.IH)
  from owner_method_bind [OF owner_async this] show ?case by (simp add: fun_eq_iff)
qed (simp add: owner_return)

lemma owner_bench_sync: "owner_method c (micro_bench_sync L d cmd args n c)"
proof (induction n)
  case (Suc n)
  have "owner_method c (\<lambda>k. case r of
      Ok _ \<Rightarrow> micro_bench_sync L d cmd args n c k | Err e \<Rightarrow> k (Err e) | Panic q \<Rightarrow> k (Panic q))" for r :: "'a gval res"
    by (cases r) (simp_all add: owner_return Suc.IH)
  from owner_method_bind [OF owner_do this] show ?case by (simp add: fun_eq_iff)
qed (simp add: owner_return)

lemma owner_bench_reads: "owner_method c (micro_bench_reads L n c)"
proof (induction n)
  case (Suc n)
  have "owner_method c (\<lambda>k. case r of Panic q \<Rightarrow> k (Panic q) | _ \<Rightarrow> micro_bench_reads L n c k)" for r :: "'a gval res"
    by (cases r) (simp_all add: owner_return Suc.IH)
  from owner_method_bind [OF owner_read this] show ?case by (simp add: fun_eq_iff)
qed (simp add: owner_return)

lemma owner_bench_pipelined: "owner_method c (micro_bench_pipelined L d cmd args n c)"
proof -
  have "owner_method c (\<lambda>k. case r of Ok _ \<Rightarrow> micro_bench_reads L n c k | _ \<Rightarrow> k r)" for r :: "unit res"
    by (cases r) (simp_all add: owner_return owner_bench_reads)
  from owner_method_bind [OF owner_bench_async this] show ?thesis unfolding micro_bench_pipelined_def [abs_def] .
qed

text \<open>\<open>get\<close> makes the caller the owner of a connection that is in order.\<close>

lemma get_front_shape:
  assumes "rely {Pool_lock} C m m'" and "pl_idle m' = c # cs" and n: "n = m'\<lparr>pl_idle := cs\<rparr>"
  shows "guarantee {Pool_lock} C m' n" "owned_after C m' n = insert c C" "rely {Pool_lock} (insert c C) n n" "conn_ok (conn_at n c)"
proof -
  have s: "pool_shape m'" "C \<subseteq> dom (pl_store m')" "C \<inter> set (pl_idle m') = {}" using assms(1) by (auto simp: rely_def)
  then have s': "pool_shape n" using assms(2) by (simp add: pool_shape_def conn_at_def n)
  then show "guarantee {Pool_lock} C m' n" using assms(2) by (auto simp: guarantee_def n)
  have c: "c \<notin> set cs" "c \<in> dom (pl_store m')" "conn_ok (conn_at m' c)" using s assms(2) by (simp_all add: pool_shape_def)
  then show "owned_after C m' n = insert c C" using s(3) assms(2) by (auto simp: owned_after_def n)
  show "rely {Pool_lock} (insert c C) n n" using s' s(2,3) c assms(2) by (auto simp: rely_def n)
  show "conn_ok (conn_at n c)" using c(3) by (simp add: conn_at_def n)
qed

lemma get_new_shape:
  assumes "rely {Pool_lock} {} m m'" and "pl_idle m' = []" and "cc_net x = None"
    and n: "n = m'\<lparr>pl_store := (pl_store m')(pl_next m' \<mapsto> x), pl_next := pl_next m' + 1\<rparr>"
  shows "guarantee {Pool_lock} {} m' n" "owned_after {} m' n = {pl_next m'}" "rely {} {pl_next m'} n n" "conn_ok (conn_at n (pl_next m'))"
proof -
  have s: "pool_shape m'" using assms(1) by (simp add: rely_def)
  then have fresh: "pl_store m' (pl_next m') = None" by (simp add: pool_shape_def)
  have s': "pool_shape n" using s assms(2) by (simp add: n pool_shape_def)
  then show "guarantee {Pool_lock} {} m' n" using assms(2) fresh by (auto simp: guarantee_def n)
  show "owned_after {} m' n = {pl_next m'}" using assms(2) fresh by (auto simp: owned_after_def n)
  show "rely {} {pl_next m'} n n" using s' assms(2) by (simp add: rely_def n)
  show "conn_ok (conn_at n (pl_next m'))" using assms(3) by (simp add: conn_ok_def n)
qed

lemma disciplined_get:
  assumes "\<And>c m. rely {} {c} m m \<Longrightarrow> conn_ok (conn_at m c) \<Longrightarrow> disciplined (k c) {} {c} m"
  shows "disciplined (micro_pool_get k) {} {} m"
proof -
  have release: "disciplined (Release Pool_lock (k c)) {Pool_lock} {c} m'"
    if w: "rely {} {c} m' m'" "conn_ok (conn_at m' c)" for c m'
  proof -
    have "disciplined (k c) {} {c} m''" if r: "rely {Pool_lock} {c} m' m''" for m''
    proof (rule assms)
      show "rely {} {c} m'' m''" using r by (auto simp: rely_def)
      show "conn_ok (conn_at m'' c)" using rely_conn_at [OF r] w(2) by simp
    qed
    then show ?thesis by simp
  qed
  have empty: "disciplined (Fetch Allocator (\<lambda>m. let c = pl_next m in
      Update Allocator (\<lambda>m. m\<lparr>pl_store := (pl_store m)(c \<mapsto>
          \<lparr>cc_bprotocol = pl_bprotocol m, cc_addr = pl_addr m, cc_net = None, cc_last_active = 0\<rparr>),
        pl_next := c + 1\<rparr>) (Release Pool_lock (k c)))) {Pool_lock} {} m1"
    if m1: "pl_idle m1 = []" for m1
  proof -
    have "guarantee {Pool_lock} {} m3 n \<and> owned_after {} m3 n = {pl_next m2} \<and> disciplined (Release Pool_lock (k (pl_next m2))) {Pool_lock} {pl_next m2} n"
      if m: "rely {Pool_lock} {} m1 m2" "rely {Pool_lock} {} m2 m3"
        and n: "n = m3\<lparr>pl_store := (pl_store m3)(pl_next m2 \<mapsto>
            \<lparr>cc_bprotocol = pl_bprotocol m3, cc_addr = pl_addr m3, cc_net = None, cc_last_active = 0\<rparr>),
          pl_next := pl_next m2 + 1\<rparr>" for m2 m3 n
    proof -
      have e: "pl_idle m3 = []" "pl_next m3 = pl_next m2" using m m1 by (simp_all add: rely_def)
      from get_new_shape [OF m(2) e(1) _ n [folded e(2)]] release show ?thesis by (simp add: e(2))
    qed
    then show ?thesis by (simp add: Let_def)
  qed
  have front: "disciplined (Update Idle_conns (\<lambda>m. m\<lparr>pl_idle := tl (pl_idle m)\<rparr>) (Release Pool_lock (k c))) {Pool_lock} {} m1"
    if m1: "pl_idle m1 = c # cs" for m1 c cs
  proof -
    have "guarantee {Pool_lock} {} m2 n \<and> owned_after {} m2 n = {c} \<and> disciplined (Release Pool_lock (k c)) {Pool_lock} {c} n"
      if m: "rely {Pool_lock} {} m1 m2" and n: "n = m2\<lparr>pl_idle := tl (pl_idle m2)\<rparr>" for m2 n
    proof -
      have e: "pl_idle m2 = c # cs" using m m1 by (simp add: rely_def)
      have n': "n = m2\<lparr>pl_idle := cs\<rparr>" using e n by simp
      have "rely {} {c} n n" using get_front_shape(3) [OF m e n'] by (auto simp: rely_def)
      with get_front_shape(1,2,4) [OF m e n'] release show ?thesis by simp
    qed
    then show ?thesis by simp
  qed
  have "disciplined (case pl_idle m1 of
        [] \<Rightarrow> Fetch Allocator (\<lambda>m. let c = pl_next m in
          Update Allocator (\<lambda>m. m\<lparr>pl_store := (pl_store m)(c \<mapsto>
              \<lparr>cc_bprotocol = pl_bprotocol m, cc_addr = pl_addr m, cc_net = None, cc_last_active = 0\<rparr>),
            pl_next := c + 1\<rparr>) (Release Pool_lock (k c)))
      | c # cs \<Rightarrow> Update Idle_conns (\<lambda>m. m\<lparr>pl_idle := tl (pl_idle m)\<rparr>) (Release Pool_lock (k c))) {Pool_lock} {} m1" for m1
  proof (cases "pl_idle m1")
    case Nil
    with empty [OF Nil] show ?thesis by (simp only: list.case)
  next
    case (Cons c cs)
    with front [OF Cons] show ?thesis by (simp only: list.case)
  qed
  then show ?thesis by (simp add: micro_pool_get_def)
qed


text \<open>\<open>put\<close> and \<open>Close\<close> leave the caller with closed connections at most.\<close>

definition all_closed :: "loc set \<Rightarrow> pool \<Rightarrow> bool" where
  "all_closed C m \<longleftrightarrow> (\<forall>c \<in> C. cc_net (conn_at m c) = None)"

lemma all_closed_rely: "all_closed C m \<Longrightarrow> rely Q C m m' \<Longrightarrow> all_closed C m'"
  by (simp add: all_closed_def rely_conn_at)

lemma disciplined_release_pool:
  assumes "\<And>m'. rely {Pool_lock} C m m' \<Longrightarrow> disciplined p {} C m'"
  shows "disciplined (Release Pool_lock p) {Pool_lock} C m"
  using assms by simp

lemma push_shape:
  assumes "rely {Pool_lock} {c} m m'" and "conn_ok (conn_at m' c)" and "int (length (pl_idle m')) < pl_max_idle m'"
    and n: "n = m'\<lparr>pl_idle := c # pl_idle m'\<rparr>"
  shows "guarantee {Pool_lock} {c} m' n" "owned_after {c} m' n = {}"
proof -
  have s: "pool_shape m'" "c \<in> dom (pl_store m')" "c \<notin> set (pl_idle m')" using assms(1) by (auto simp: rely_def)
  then have "pool_shape n" using assms(2,3) by (simp add: pool_shape_def conn_at_def n)
  then show "guarantee {Pool_lock} {c} m' n" by (auto simp: guarantee_def n)
  show "owned_after {c} m' n = {}" by (auto simp: owned_after_def n)
qed

lemma disciplined_put:
  assumes "rely {} {c} m m" and "conn_ok (conn_at m c)"
    and "\<And>C m'. all_closed C m' \<Longrightarrow> disciplined (k None) {} C m'"
  shows "disciplined (micro_pool_put now c k) {} {c} m"
proof -
  have "disciplined (if int (length (pl_idle m2)) \<ge> pl_max_idle m2 then micro_finalize c (\<lambda>e. Release Pool_lock (k e))
      else set_conn (Last_active c) c (\<lambda>x. x\<lparr>cc_last_active := now\<rparr>)
        (Update Idle_conns (\<lambda>m. m\<lparr>pl_idle := c # pl_idle m\<rparr>) (Release Pool_lock (k None)))) {Pool_lock} {c} m2"
    if m1: "rely {} {c} m m1" and m2: "rely {Pool_lock} {c} m1 m2" for m1 m2
  proof -
    have ok: "conn_ok (conn_at m2 c)" using rely_conn_at [OF m1] rely_conn_at [OF m2] assms(2) by simp
    have full: "disciplined (micro_finalize c (\<lambda>e. Release Pool_lock (k e))) {Pool_lock} {c} m2"
    proof (rule disciplined_finalize [OF _ _ ok])
      fix m3 assume "cc_net (conn_at m3 c) = None"
      then have "all_closed {c} m3" by (simp add: all_closed_def)
      then show "disciplined (Release Pool_lock (k None)) {Pool_lock} {c} m3"
        using assms(3) all_closed_rely by (intro disciplined_release_pool) blast
    qed simp_all
    have "disciplined (set_conn (Last_active c) c (\<lambda>x. x\<lparr>cc_last_active := now\<rparr>)
        (Update Idle_conns (\<lambda>m. m\<lparr>pl_idle := c # pl_idle m\<rparr>) (Release Pool_lock (k None)))) {Pool_lock} {c} m2"
      if room: "int (length (pl_idle m2)) < pl_max_idle m2"
    proof (rule disciplined_set_conn)
      fix m3 assume m3: "worked_on c {Pool_lock} {c} m2 m3" "conn_at m3 c = (conn_at m2 c)\<lparr>cc_last_active := now\<rparr>"
      have "guarantee {Pool_lock} {c} m4 n \<and> owned_after {c} m4 n = {} \<and> disciplined (Release Pool_lock (k None)) {Pool_lock} {} n"
        if m4: "rely {Pool_lock} {c} m3 m4" and n: "n = m4\<lparr>pl_idle := c # pl_idle m4\<rparr>" for m4 n
      proof -
        have "conn_ok (conn_at m4 c)" using rely_conn_at [OF m4] m3(2) ok by simp
        moreover have "int (length (pl_idle m4)) < pl_max_idle m4"
          using room m3(1) m4 by (simp add: worked_on_def rely_def)
        moreover have "disciplined (Release Pool_lock (k None)) {Pool_lock} {} n"
          using assms(3) by (intro disciplined_release_pool) (simp add: all_closed_def)
        ultimately show ?thesis using push_shape [OF m4 _ _ n] by blast
      qed
      then show "disciplined (Update Idle_conns (\<lambda>m. m\<lparr>pl_idle := c # pl_idle m\<rparr>) (Release Pool_lock (k None))) {Pool_lock} {c} m3"
        by simp
    qed simp_all
    with full show ?thesis by simp
  qed
  then show ?thesis by (simp add: micro_pool_put_def)
qed

lemma disciplined_close_loop:
  assumes "pl_idle m = cs" and "rely {Pool_lock} C m m" and "all_closed C m"
    and "\<And>C m'. all_closed C m' \<Longrightarrow> disciplined (k None) {} C m'"
  shows "disciplined (micro_close_loop cs k) {Pool_lock} C m"
  using assms(1-3)
proof (induction cs arbitrary: m C)
  case Nil
  have "disciplined (Release Pool_lock (k None)) {Pool_lock} C m'" if "rely {Pool_lock} C m m'" for m'
    using all_closed_rely [OF all_closed_rely [OF Nil(3) that]] assms(4) by (intro disciplined_release_pool) blast
  then show ?case by simp
next
  case (Cons c cs)
  let ?rest = "\<lambda>e. case e of Some q \<Rightarrow> Release Pool_lock (k (Some q)) | None \<Rightarrow> micro_close_loop cs k"
  have "guarantee {Pool_lock} C m2 n \<and> owned_after C m2 n = insert c C \<and>
      disciplined (micro_finalize c ?rest) {Pool_lock} (insert c C) n"
    if m: "rely {Pool_lock} C m m1" "rely {Pool_lock} C m1 m2" and n: "n = m2\<lparr>pl_idle := tl (pl_idle m2)\<rparr>" for m1 m2 n
  proof -
    have e: "pl_idle m2 = c # cs" using m Cons.prems(1) by (simp add: rely_def)
    then have n': "n = m2\<lparr>pl_idle := cs\<rparr>" using n by simp
    note front = get_front_shape [OF m(2) e n']
    have closed: "all_closed C m2" by (rule all_closed_rely [OF all_closed_rely [OF Cons.prems(3) m(1)] m(2)])
    then have closed: "all_closed C n" by (simp add: all_closed_def conn_at_def n')
    have "disciplined (micro_finalize c ?rest) {Pool_lock} (insert c C) n"
    proof (rule disciplined_finalize [OF _ _ front(4)])
      fix m3 assume m3: "worked_on c {Pool_lock} (insert c C) n m3" "cc_net (conn_at m3 c) = None"
      have "all_closed (insert c C - {c}) n" using closed by (simp add: all_closed_def)
      from all_closed_rely [OF this, of "{Pool_lock}" m3] m3 have "all_closed (insert c C) m3"
        by (auto simp: all_closed_def worked_on_def)
      moreover have "pl_idle m3 = cs" using m3(1) by (simp add: worked_on_def rely_def n')
      ultimately have "disciplined (micro_close_loop cs k) {Pool_lock} (insert c C) m3"
        using worked_rely [OF m3(1)] Cons.IH by blast
      then show "disciplined (?rest None) {Pool_lock} (insert c C) m3" by simp
    qed simp_all
    with front(1,2) show ?thesis by simp
  qed
  then show ?case by simp
qed

lemma disciplined_close: "disciplined (micro_client_close :: 'f client_prog) {} {} m"
proof -
  have *: "disciplined (micro_close_loop (pl_idle m2) (\<lambda>e. Ret (Closed_all e) :: 'f client_prog)) {Pool_lock} {} m2"
    if "rely {Pool_lock} {} m1 m2" for m1 m2
    by (rule disciplined_close_loop) (use that in \<open>auto simp: all_closed_def close_panics_def rely_def\<close>)
  show ?thesis unfolding micro_client_close_def disciplined.simps by (auto intro: *)
qed


lemma disciplined_ret:
  "all_closed C m \<Longrightarrow> \<not> close_panics r \<Longrightarrow> disciplined (Ret r) {} C m"
  "leaky r \<Longrightarrow> disciplined (Ret r) {} C m"
  by (auto simp: all_closed_def close_panics_def elim: leaky.elims)

text \<open>A call that gets a connection and works on it.\<close>

lemma disciplined_borrow:
  assumes "\<And>c. owner_method c (p c)"
    and "\<And>c r m'. rely {} {c} m' m' \<Longrightarrow> conn_ok (conn_at m' c) \<Longrightarrow> disciplined (k c r) {} {c} m'"
  shows "disciplined (micro_pool_get (\<lambda>c. p c (k c))) {} {} m"
proof (rule disciplined_get)
  fix c m' assume m': "rely {} {c} m' m'" "conn_ok (conn_at m' c)"
  show "disciplined (p c (k c)) {} {c} m'"
    by (rule owner_methodD [OF assms(1) _ _ m']) (use assms(2) worked_rely in \<open>auto\<close>)
qed

lemma disciplined_worker:
  assumes "\<And>c. owner_method c (body c)"
  shows "disciplined (micro_bench_worker L now cmd body) {} {} m"
  unfolding micro_bench_worker_def Let_def
  by (rule disciplined_borrow [OF assms], rule disciplined_put) (auto intro!: disciplined_ret(1) simp: close_panics_def all_closed_def)

lemma disciplined_client: "disciplined (micro_client L call) {} {} m"
proof (cases call)
  case (Do_call d now cmd args)
  have "disciplined (case r of
      Panic q \<Rightarrow> Ret (Replied (Panic q))
    | _ \<Rightarrow> micro_pool_put now c (\<lambda>e. Ret (Replied (case e of Some q \<Rightarrow> Panic q | None \<Rightarrow> r)))) {} {c} m'"
    if m': "rely {} {c} m' m'" "conn_ok (conn_at m' c)" for c m' and r :: "'a gval res"
  proof -
    have "disciplined (micro_pool_put now c (\<lambda>e. Ret (Replied (case e of Some q \<Rightarrow> Panic q | None \<Rightarrow> r)))) {} {c} m'"
      by (rule disciplined_put [OF m']) (auto intro!: disciplined_ret(1) simp: close_panics_def all_closed_def)
    moreover have "disciplined (Ret (Replied (Panic q) :: 'a client_reply)) {} {c} m'" for q by (rule disciplined_ret(2)) simp
    ultimately show ?thesis by (cases r) simp_all
  qed
  then show ?thesis
    unfolding Do_call micro_client.simps micro_client_do_def by (rule disciplined_borrow [OF owner_do])
next
  case (Async_call d cmd args)
  show ?thesis
    unfolding Async_call micro_client.simps micro_client_async_def
    by (rule disciplined_borrow [OF owner_async], rule disciplined_ret(2)) simp
next
  case Close_call
  then show ?thesis by (simp add: disciplined_close)
next
  case (Wait_bench pipelined loop d now cmd args)
  have "owner_method c ((if pipelined then micro_bench_pipelined L d cmd args loop else micro_bench_sync L d cmd args loop) c)" for c
    by (simp add: owner_bench_pipelined owner_bench_sync)
  then show ?thesis unfolding Wait_bench micro_client.simps by (rule disciplined_worker)
next
  case (Wait_bench_async loop d now cmd args)
  show ?thesis unfolding Wait_bench_async micro_client.simps by (rule disciplined_worker [OF owner_bench_async])
qed

end
