(* ===== verification/LoadGenerator.thy ===== *)
theory LoadGenerator
  imports Discipline
begin

text \<open>
  Programs whose goroutines share one client: any calls of the client, and the benchmarks of
  \<open>cmd/broadcast-benchmark/main.go\<close>, which run one after the other, each with its workers at the same time.
\<close>

section \<open>Programs over one client\<close>

text \<open>A pool between two programs: it is in order, and every open connection is idle.\<close>

definition quiet :: "pool \<Rightarrow> bool" where
  "quiet p \<longleftrightarrow> pool_ok p \<and> (\<forall>c x n. pl_store p c = Some x \<and> cc_net x = Some n \<longrightarrow> c \<in> set (pl_idle p))"

lemma quiet_new: "quiet (new_pool port host k b)"
  by (simp add: quiet_def pool_ok_new) (simp add: new_pool_def)

lemma pool_ok_shape: "pool_ok p \<Longrightarrow> pool_shape p"
  by (auto simp: pool_ok_def pool_shape_def conn_at_def split: option.split)

lemma client_run_owned:
  assumes "micro_step\<^sup>*\<^sup>* (start_threads p (\<lambda>i. map (micro_client L) (calls i))) y" and "quiet p"
  shows "\<exists>own. well_owned y own \<and> pl_max_idle (th_mem y) = pl_max_idle p"
proof -
  have "well_owned (start_threads p (\<lambda>i. map (micro_client L) (calls i))) (\<lambda>_. {})"
  proof (rule start_well_owned)
    show "pool_shape p" using assms(2) by (simp add: quiet_def pool_ok_shape)
    show "\<forall>m. pool_shape m \<longrightarrow> disciplined q {} {} m" if "q \<in> set (map (micro_client L) (calls i))" for i q
      using that by (auto simp: disciplined_client)
    show "c \<in> set (pl_idle p) \<or> cc_net x = None" if "pl_store p c = Some x" for c x
      using that assms(2) unfolding quiet_def by (cases "cc_net x") auto
  qed
  from well_owned_run [OF assms(1) this] show ?thesis by (simp add: start_threads_def)
qed

lemma client_run_quiet:
  assumes "micro_step\<^sup>*\<^sup>* (start_threads p (\<lambda>i. map (micro_client L) (calls i))) y" and "quiet p"
    and "all_returned y" and "\<forall>i. \<forall>r \<in> set (th_replies y i). \<not> leaky r"
  shows "quiet (th_mem y)" "pl_max_idle (th_mem y) = pl_max_idle p"
proof -
  obtain own where own: "well_owned y own" and k: "pl_max_idle (th_mem y) = pl_max_idle p"
    using client_run_owned [OF assms(1,2)] by blast
  note idle = well_owned_returned [OF own assms(3,4)]
  have s: "pool_shape (th_mem y)" by (rule well_ownedD(1) [OF own])
  have "conn_ok x" if "pl_store (th_mem y) c = Some x" for c x
  proof (cases "cc_net x")
    case (Some n)
    from idle [OF that Some] s that show ?thesis by (auto simp: pool_shape_def)
  qed (simp add: conn_ok_def)
  then have "pool_ok (th_mem y)" using s by (simp add: pool_ok_def pool_shape_def)
  with idle show "quiet (th_mem y)" by (auto simp: quiet_def)
  show "pl_max_idle (th_mem y) = pl_max_idle p" by (rule k)
qed

text \<open>Finitely many goroutines return.\<close>

lemma client_runs_return:
  assumes "quiet p" and "finite I" and "\<forall>i. i \<notin> I \<longrightarrow> calls i = []"
    and "micro_step\<^sup>*\<^sup>* (start_threads p (\<lambda>i. map (micro_client L) (calls i))) y"
  shows "\<exists>z. micro_step\<^sup>*\<^sup>* y z \<and> all_returned z"
proof (rule runs_return [OF assms(2)])
  have "only I (start_threads p (\<lambda>i. map (micro_client L) (calls i)))" using assms(3) by (simp add: only_def start_threads_def)
  then show "only I y" by (rule only_run [OF assms(4)])
  show "all_returned z" if z: "micro_step\<^sup>*\<^sup>* y z" "\<nexists>u. micro_step z u" for z
  proof -
    obtain own where "well_owned z own"
      using client_run_owned [OF rtranclp_trans [OF assms(4) z(1)] assms(1)] by blast
    from well_owned_progress [OF this z(2)] show ?thesis .
  qed
qed

subsection \<open>The benchmarks\<close>

text \<open>
  \<open>bench\<close>: so many goroutines, each with one call, and the wait until all have returned.  Each benchmark starts
  with the pool that the one before has left.  A worker that panics ends the process, after its deferred
  \<open>CloseConnection\<close> and in whatever state the others are.
\<close>

definition bench_call :: "bool \<Rightarrow> nat \<Rightarrow> dial \<Rightarrow> int \<Rightarrow> bool \<times> 'f command_call \<Rightarrow> 'f client_call" where
  "bench_call pipelined loop d now = (\<lambda>(async, cmd, args).
     if async then Wait_bench_async loop d now cmd args else Wait_bench pipelined loop d now cmd args)"

definition bench_round :: "'f golib \<Rightarrow> nat \<Rightarrow> (nat \<Rightarrow> 'f client_call) \<Rightarrow> pool \<Rightarrow>
    (pool, pool_place, pool_lock, 'f client_reply) threads" where
  "bench_round L clients f p =
     start_threads p (\<lambda>i. map (micro_client L) (if i < clients then [f i] else []))"

text \<open>
  One benchmark after the other.  \<open>wait\<close>: \<open>bench\<close> has got the reports of all its workers.  \<open>crash\<close>: as soon as a worker
  panics, wherever the others are, the process ends, and with it the benchmarks.
\<close>

datatype bench_end = Ended pool | Killed string

definition panicked :: "string \<Rightarrow> (nat \<Rightarrow> 'f client_reply list) \<Rightarrow> bool" where
  "panicked q replies \<longleftrightarrow> (\<exists>i out. Worked (Panic q) out \<in> set (replies i))"

inductive benchmarks :: "'f golib \<Rightarrow> (nat \<times> (nat \<Rightarrow> 'f client_call)) list \<Rightarrow> pool \<Rightarrow>
    (nat \<Rightarrow> 'f client_reply list) list \<Rightarrow> bench_end \<Rightarrow> bool" for L where
  finished: "benchmarks L [] p [] (Ended p)"
| wait: "micro_step\<^sup>*\<^sup>* (bench_round L clients f p) y \<Longrightarrow> all_returned y \<Longrightarrow> \<nexists>q. panicked q (th_replies y) \<Longrightarrow>
    benchmarks L rounds (th_mem y) rs e \<Longrightarrow> benchmarks L ((clients, f) # rounds) p (th_replies y # rs) e"
| crash: "micro_step\<^sup>*\<^sup>* (bench_round L clients f p) y \<Longrightarrow> panicked q (th_replies y) \<Longrightarrow>
    benchmarks L ((clients, f) # rounds) p [th_replies y] (Killed q)"

text \<open>
  The rounds of \<open>main\<close>: the benchmarks of the plan, and before that of \<open>SREM\<close> the call of \<open>setupBench\<close>, which is
  one request of the goroutine of \<open>main\<close>; \<open>d\<close> and \<open>now\<close> give what dialling brings and the time, for each worker.
\<close>

definition bench_rounds :: "bool \<Rightarrow> nat \<Rightarrow> nat \<Rightarrow> (bytes \<Rightarrow> nat \<Rightarrow> dial) \<Rightarrow> (bytes \<Rightarrow> nat \<Rightarrow> int) \<Rightarrow> (nat \<Rightarrow> int64) \<Rightarrow>
    (nat \<times> (nat \<Rightarrow> 'f client_call)) list" where
  "bench_rounds pipelined loop clients d now rand =
     (let round = (\<lambda>call. (clients, \<lambda>i. bench_call pipelined loop (d (fst (snd call)) i) (now (fst (snd call)) i) call));
          setup = fst (bench_srem (map rand [5 ..< 15]) (rand 15));
          plan = bench_plan rand
      in map round (take 9 plan) @
         [(1, \<lambda>i. Wait_bench False 1 (d (fst setup) i) (now (fst setup) i) (fst setup) (snd setup))] @
         map round (drop 9 plan))"

fun is_worker :: "'f client_call \<Rightarrow> bool" where
  "is_worker (Wait_bench pipelined loop d now cmd args) \<longleftrightarrow> True"
| "is_worker (Wait_bench_async loop d now cmd args) \<longleftrightarrow> True"
| "is_worker _ \<longleftrightarrow> False"

lemma bench_rounds_workers: "r \<in> set (bench_rounds pipelined loop clients d now rand) \<Longrightarrow> is_worker (snd r i)"
  unfolding bench_rounds_def Let_def
  by (auto simp: bench_call_def split: prod.split dest: in_set_takeD in_set_dropD)
text \<open>Two goroutines call \<open>Do\<close>, and the dials are refused.\<close>

definition refused_calls :: "nat \<Rightarrow> 'f client_call list" where
  "refused_calls i =
     (if i = 0 then [Do_call (Inl (ErrText ''refused'')) 5 ''ping'' []]
      else if i = 1 then [Do_call (Inl EOF) 6 ''ping'' []] else [])"

lemma call_alone:
  assumes "pool_ok (th_mem y)" and "th_now y i = None" and "th_todo y i = micro_client L call # ps" and "th_owner y = (\<lambda>_. None)"
  shows "\<exists>y'. micro_step\<^sup>*\<^sup>* y y' \<and> th_mem y' = snd (client_effect L call (th_mem y)) \<and> th_owner y' = (\<lambda>_. None) \<and>
    th_now y' = th_now y \<and> th_todo y' = (th_todo y)(i := ps) \<and>
    th_replies y' = (th_replies y)(i := th_replies y i @ [fst (client_effect L call (th_mem y))])"
proof -
  let ?p = "micro_client L call"
  let ?y = "y\<lparr>th_now := (th_now y)(i \<mapsto> ?p), th_todo := (th_todo y)(i := ps)\<rparr>"
  have "pool_shape (th_mem y)" using assms(1) by (auto simp: pool_ok_def pool_shape_def conn_at_def split: option.split)
  then have "rely {} {} (th_mem ?y) (th_mem ?y)" by (simp add: rely_def)
  with runs_alone [of ?p "{}" "{}" ?y i] disciplined_client assms(4) obtain y' where
    y': "micro_step\<^sup>*\<^sup>* ?y y'" "th_mem y' = snd (run ?p (th_mem y))" "th_owner y' = (\<lambda>_. None)"
      "th_now y' = (th_now y)(i := None)" "th_todo y' = (th_todo y)(i := ps)"
      "th_replies y' = (th_replies y)(i := th_replies y i @ [fst (run ?p (th_mem y))])" by auto
  have "micro_step\<^sup>*\<^sup>* y y'" by (rule converse_rtranclp_into_rtranclp [OF micro_step.call [OF assms(2,3)] y'(1)])
  moreover have "(th_now y)(i := None) = th_now y" using assms(2) by (simp add: fun_upd_idem)
  ultimately show ?thesis using y'(2-6) by (auto simp: run_micro_client [OF assms(1)])
qed

lemma refused_calls_run:
  "\<exists>y. micro_step\<^sup>*\<^sup>* (start_threads (new_pool 7331 ''127.0.0.1'' 1 ''redis'') (\<lambda>i. map (micro_client plain_lib) (refused_calls i))) y \<and>
     all_returned y \<and> th_replies y 0 = [Replied (Err (ErrText ''refused''))] \<and> th_replies y 1 = [Replied (Err EOF)] \<and>
     length (pl_idle (th_mem y)) = 1 \<and> (\<forall>i. i \<noteq> 0 \<longrightarrow> i \<noteq> 1 \<longrightarrow> th_replies y i = [])"
proof -
  let ?p = "new_pool 7331 ''127.0.0.1'' 1 ''redis''"
  let ?y = "start_threads ?p (\<lambda>i. map (micro_client plain_lib) (refused_calls i))"
  have y0: "th_mem ?y = ?p" "th_owner ?y = (\<lambda>_. None)" "th_now ?y = (\<lambda>_. None)" "th_replies ?y = (\<lambda>_. [])"
    "th_todo ?y = (\<lambda>i. map (micro_client plain_lib) (refused_calls i))" by (simp_all add: start_threads_def)
  have todo: "th_todo ?y 0 = [micro_client plain_lib (Do_call (Inl (ErrText ''refused'')) 5 ''ping'' [])]"
    "th_todo ?y 1 = [micro_client plain_lib (Do_call (Inl EOF) 6 ''ping'' [])]"
    "\<And>i. i \<noteq> 0 \<Longrightarrow> i \<noteq> 1 \<Longrightarrow> th_todo ?y i = []" unfolding y0(5) by (simp_all add: refused_calls_def)
  obtain q where q: "client_do plain_lib (Inl (ErrText ''refused'')) 5 ''ping'' [] ?p = (Err (ErrText ''refused''), q)"
    by (simp add: client_do_def pool_get_def new_pool_def with_conn_def cc_do_def cc_do_async_def cc_connect_def pool_put_def)
  have q': "pool_ok q" using client_do_invariant [OF pool_ok_new, of plain_lib "Inl (ErrText ''refused'')" 5 "''ping''" "[]" 7331 "''127.0.0.1''" 1 "''redis''"] q by simp
  have r: "fst (client_do plain_lib (Inl EOF) 6 ''ping'' [] q) = Err EOF \<and> length (pl_idle (snd (client_do plain_lib (Inl EOF) 6 ''ping'' [] q))) = 1"
    using q by (auto simp: client_do_def pool_get_def new_pool_def with_conn_def cc_do_def cc_do_async_def cc_connect_def pool_put_def)
  obtain y1 where y1: "micro_step\<^sup>*\<^sup>* ?y y1" "th_mem y1 = q" "th_owner y1 = (\<lambda>_. None)" "th_now y1 = (\<lambda>_. None)"
    "th_todo y1 = (th_todo ?y)(0 := [])" "th_replies y1 = (\<lambda>_. [])(0 := [Replied (Err (ErrText ''refused''))])"
    using call_alone [OF _ _ todo(1)] pool_ok_new q y0 by fastforce
  have todo1: "th_todo y1 1 = [micro_client plain_lib (Do_call (Inl EOF) 6 ''ping'' [])]" using y1(5) todo(2) by simp
  obtain y2 where y2: "micro_step\<^sup>*\<^sup>* y1 y2" "th_mem y2 = snd (client_do plain_lib (Inl EOF) 6 ''ping'' [] q)" "th_now y2 = (\<lambda>_. None)"
    "th_todo y2 = (th_todo y1)(1 := [])" "th_replies y2 = (th_replies y1)(1 := [Replied (Err EOF)])"
    using call_alone [OF _ _ todo1] q' r y1(2-4,6) by fastforce
  have "all_returned y2" using y2(3,4) y1(5) todo(3) by (auto simp: all_returned_def)
  moreover have "micro_step\<^sup>*\<^sup>* ?y y2" using y1(1) y2(1) by (rule rtranclp_trans)
  ultimately show ?thesis using y2(2,5) y1(6) r by (intro exI [of _ y2]) simp
qed


text \<open>The replies that a program can end with.\<close>

primrec returns_only :: "('r \<Rightarrow> bool) \<Rightarrow> ('s, 'x, 'l, 'r) micro \<Rightarrow> bool" where
  "returns_only A (Ret r) \<longleftrightarrow> A r"
| "returns_only A (Acquire l p) \<longleftrightarrow> returns_only A p"
| "returns_only A (Release l p) \<longleftrightarrow> returns_only A p"
| "returns_only A (Fetch x f) \<longleftrightarrow> (\<forall>m. returns_only A (f m))"
| "returns_only A (Update x g p) \<longleftrightarrow> returns_only A p"

lemma returns_conn [simp]:
  "returns_only A (fetch_conn x c k) \<longleftrightarrow> (\<forall>m. returns_only A (k (conn_at m c)))"
  "returns_only A (set_conn x c f p) \<longleftrightarrow> returns_only A p"
  by (simp_all add: fetch_conn_def set_conn_def)

lemma returns_finalize: "(\<And>r. returns_only A (k r)) \<Longrightarrow> returns_only A (micro_finalize c k)"
  by (simp add: micro_finalize_def split: option.split res.split)

lemma returns_fail: "(\<And>r. returns_only A (k r)) \<Longrightarrow> returns_only A (micro_fail e c k)"
  by (simp add: micro_fail_def returns_finalize)

lemma returns_async: "(\<And>r. returns_only A (k r)) \<Longrightarrow> returns_only A (micro_conn_async L d cmd args c k)"
  by (simp add: micro_conn_async_def micro_connect_def micro_writes_def returns_fail split: option.split sum.split)

lemma returns_read: "(\<And>r. returns_only A (k r)) \<Longrightarrow> returns_only A (micro_conn_read L c k)"
  by (simp add: micro_conn_read_def returns_fail split: option.split res.split)

lemma returns_do: "(\<And>r. returns_only A (k r)) \<Longrightarrow> returns_only A (micro_conn_do L d cmd args c k)"
  by (auto simp: micro_conn_do_def intro!: returns_async returns_read split: res.split)

lemma returns_bench:
  assumes "\<And>r. returns_only A (k r)"
  shows "returns_only A (micro_bench_async L d cmd args n c k)" "returns_only A (micro_bench_sync L d cmd args n c k)"
    "returns_only A (micro_bench_reads L n c k)"
  by (induction n) (auto simp: assms intro!: returns_async returns_do returns_read split: res.split)

lemma returns_pipelined: "(\<And>r. returns_only A (k r)) \<Longrightarrow> returns_only A (micro_bench_pipelined L d cmd args n c k)"
  by (auto simp: micro_bench_pipelined_def intro!: returns_bench split: res.split)


text \<open>A worker reports success, having printed the error it met, or its panic.\<close>

fun reports :: "'f client_reply \<Rightarrow> bool" where
  "reports (Worked (Ok _) out) \<longleftrightarrow> True"
| "reports (Worked (Panic q) out) \<longleftrightarrow> True"
| "reports _ \<longleftrightarrow> False"

lemma reports_cases:
  assumes "reports r"
  obtains out where "r = Worked (Ok ()) out" | q out where "r = Worked (Panic q) out"
  using assms by (cases r rule: reports.cases) auto

lemma returns_worker:
  assumes "is_worker call"
  shows "returns_only reports (micro_client L call)"
proof -
  let ?A = "reports :: 'a client_reply \<Rightarrow> bool"
  have put: "(\<And>e. returns_only ?A (k e)) \<Longrightarrow> returns_only ?A (micro_pool_put now c k)" for now c k
    by (simp add: micro_pool_put_def returns_finalize)
  have get: "(\<And>c. returns_only ?A (k c)) \<Longrightarrow> returns_only ?A (micro_pool_get k)" for k
    by (simp add: micro_pool_get_def Let_def split: list.split)
  have "returns_only ?A (micro_bench_worker L now cmd body)"
    if b: "\<And>c k. (\<And>r. returns_only ?A (k r)) \<Longrightarrow> returns_only ?A (body c k)"
    for now cmd and body :: "loc \<Rightarrow> (unit res \<Rightarrow> 'a client_prog) \<Rightarrow> 'a client_prog"
    unfolding micro_bench_worker_def Let_def by (intro get b put) (simp split: res.split option.split)
  with assms show ?thesis
    by (cases call) (simp_all add: returns_bench returns_pipelined)
qed

lemma replies_run:
  assumes "micro_step\<^sup>*\<^sup>* y z"
    and "\<forall>i. (\<forall>p. th_now y i = Some p \<longrightarrow> returns_only A p) \<and> (\<forall>p \<in> set (th_todo y i). returns_only A p) \<and> (\<forall>r \<in> set (th_replies y i). A r)"
  shows "\<forall>i. (\<forall>p. th_now z i = Some p \<longrightarrow> returns_only A p) \<and> (\<forall>p \<in> set (th_todo z i). returns_only A p) \<and> (\<forall>r \<in> set (th_replies z i). A r)"
  using assms
proof (induction rule: rtranclp_induct)
  case (step u v)
  from step.IH [OF step.prems] have u: "\<And>i p. th_now u i = Some p \<Longrightarrow> returns_only A p"
    "\<And>i p. p \<in> set (th_todo u i) \<Longrightarrow> returns_only A p" "\<And>i r. r \<in> set (th_replies u i) \<Longrightarrow> A r" by blast+
  from step.hyps(2) show ?case
  proof cases
    case (call i p ps)
    then have "returns_only A p" "\<And>q. q \<in> set ps \<Longrightarrow> returns_only A q" using u(2) [of _ i] by auto
    with u call show ?thesis by auto
  next
    case (acquire i l p)
    then have "returns_only A p" using u(1) [of i] by simp
    with u acquire show ?thesis by auto
  next
    case (release i l p)
    then have "returns_only A p" using u(1) [of i] by simp
    with u release show ?thesis by auto
  next
    case (fetch i x f)
    then have "returns_only A (f (th_mem u))" using u(1) [of i] by simp
    with u fetch show ?thesis by auto
  next
    case (update i x g p)
    then have "returns_only A p" using u(1) [of i] by simp
    with u update show ?thesis by auto
  next
    case (return i r)
    then have "A r" using u(1) [of i] by simp
    with u return show ?thesis by auto
  qed
qed simp

lemma worker_replies:
  assumes "micro_step\<^sup>*\<^sup>* (bench_round L clients f p) y" and "\<forall>i. is_worker (f i)" and "r \<in> set (th_replies y i)"
  shows "reports r"
proof -
  have "\<forall>i. (\<forall>q. th_now (bench_round L clients f p) i = Some q \<longrightarrow> returns_only reports q) \<and>
      (\<forall>q \<in> set (th_todo (bench_round L clients f p) i). returns_only reports q) \<and>
      (\<forall>r \<in> set (th_replies (bench_round L clients f p) i). reports r)"
    using assms(2) by (simp add: bench_round_def start_threads_def returns_worker)
  from replies_run [OF assms(1) this] assms(3) show ?thesis by blast
qed

text \<open>What the workers of a benchmark have reported when none has panicked.\<close>

definition all_reported :: "nat \<Rightarrow> (nat \<Rightarrow> 'f client_reply list) \<Rightarrow> bool" where
  "all_reported clients replies \<longleftrightarrow>
     (\<forall>i. if i < clients then \<exists>out. replies i = [Worked (Ok ()) out] else replies i = [])"

text \<open>One benchmark, and all of them.\<close>

lemma bench_round_quiet:
  assumes "micro_step\<^sup>*\<^sup>* (bench_round L clients f p) y" and "all_returned y" and "\<forall>i. is_worker (f i)" and "quiet p"
  shows "quiet (th_mem y)" "pl_max_idle (th_mem y) = pl_max_idle p"
    "\<nexists>q. panicked q (th_replies y) \<Longrightarrow> all_reported clients (th_replies y)"
proof -
  have "\<not> leaky r" if "r \<in> set (th_replies y i)" for r i
    using worker_replies [OF assms(1,3) that] by (cases r rule: reports.cases) auto
  then have "\<forall>i. \<forall>r \<in> set (th_replies y i). \<not> leaky r" by blast
  from client_run_quiet [OF assms(1) [unfolded bench_round_def] assms(4,2) this]
  show "quiet (th_mem y)" "pl_max_idle (th_mem y) = pl_max_idle p" .
  have len: "length (th_replies y i) = (if i < clients then 1 else 0)" for i
    using replies_counted [OF assms(1), of i] assms(2) by (simp add: bench_round_def start_threads_def all_returned_def)
  show "all_reported clients (th_replies y)" if ok: "\<nexists>q. panicked q (th_replies y)"
    unfolding all_reported_def
  proof
    fix i
    show "if i < clients then \<exists>out. th_replies y i = [Worked (Ok ()) out] else th_replies y i = []"
    proof (cases "i < clients")
      case True
      then obtain r where r: "th_replies y i = [r]" using len [of i] by (cases "th_replies y i") auto
      then have "reports r" using worker_replies [OF assms(1,3), of r i] by simp
      then show ?thesis
      proof (cases rule: reports_cases)
        case (2 q out)
        with r have "panicked q (th_replies y)" unfolding panicked_def by (metis list.set_intros(1))
        with ok show ?thesis by blast
      qed (use True r in simp)
    qed (use len [of i] in simp)
  qed
qed

lemma bench_round_returns:
  assumes "quiet p"
  shows "\<exists>y. micro_step\<^sup>*\<^sup>* (bench_round L clients f p) y \<and> all_returned y"
proof -
  have "\<forall>i. i \<notin> {..<clients} \<longrightarrow> (if i < clients then [f i] else []) = []" by simp
  from client_runs_return [OF assms _ this rtranclp.rtrancl_refl] show ?thesis
    unfolding bench_round_def by blast
qed

lemma benchmarks_quiet:
  assumes "benchmarks L rounds p rs e" and "e = Ended q" and "quiet p" and "\<forall>r \<in> set rounds. \<forall>i. is_worker (snd r i)"
  shows "quiet q \<and> pl_max_idle q = pl_max_idle p \<and> list_all2 (\<lambda>(clients, f) replies. all_reported clients replies) rounds rs"
  using assms
proof (induction rule: benchmarks.induct)
  case (wait clients f p y rounds rs e)
  have f: "\<forall>i. is_worker (f i)" using wait.prems(3) by auto
  note round = bench_round_quiet [OF wait.hyps(1,2) f wait.prems(2)]
  from wait.IH [OF wait.prems(1) round(1)] wait.prems(3) round(2,3) wait.hyps(3) show ?case by simp
qed simp_all

lemma benchmarks_end:
  assumes "quiet p" and "\<forall>r \<in> set rounds. \<forall>i. is_worker (snd r i)"
  shows "\<exists>rs e. benchmarks L rounds p rs e"
  using assms
proof (induction rounds arbitrary: p)
  case Nil
  show ?case using benchmarks.finished by blast
next
  case (Cons r rounds)
  obtain clients f where r: "r = (clients, f)" by fastforce
  obtain y where y: "micro_step\<^sup>*\<^sup>* (bench_round L clients f p) y" "all_returned y"
    using bench_round_returns [OF Cons.prems(1)] by blast
  show ?case
  proof (cases "\<exists>q. panicked q (th_replies y)")
    case True
    then show ?thesis using benchmarks.crash [OF y(1)] unfolding r by blast
  next
    case False
    have "\<forall>i. is_worker (f i)" using Cons.prems(2) r by auto
    from Cons.IH [OF bench_round_quiet(1) [OF y this Cons.prems(1)]] Cons.prems(2)
    obtain rs e where "benchmarks L rounds (th_mem y) rs e" by auto
    from benchmarks.wait [OF y False this] show ?thesis unfolding r by blast
  qed
qed

section \<open>Properties\<close>

text \<open>
C8. A connection belongs to one goroutine at a time: however the accesses of goroutines that share one
client interleave, no two of them are ever about to access the same object, so there is no data race
although the methods of a connection take no lock; a connection that is in use is not idle; and no
goroutine waits for ever.
\<close>

theorem pool_is_exclusive:
  assumes "micro_step\<^sup>*\<^sup>* (start_threads p (\<lambda>i. map (micro_client L) (calls i))) y" and "quiet p"
  shows "\<not> data_race y \<and> (\<forall>i j x. about_to_access y i x \<and> about_to_access y j x \<longrightarrow> i = j) \<and>
    (\<forall>i c. about_to_access y i (Net_client c) \<or> about_to_access y i (Net_buffers c) \<longrightarrow> c \<notin> set (pl_idle (th_mem y))) \<and>
    ((\<nexists>z. micro_step y z) \<longrightarrow> all_returned y)"
proof -
  obtain own where own: "well_owned y own" using client_run_owned [OF assms] by blast
  have "c \<notin> set (pl_idle (th_mem y))" if "about_to_access y i (Net_client c) \<or> about_to_access y i (Net_buffers c)" for i c
    using that access_usable [OF own, of i] thread_okD(6) [OF well_ownedD(3) [OF own, where i = i]] by fastforce
  with well_owned_no_race [OF own] access_alone [OF own] well_owned_progress [OF own] show ?thesis by blast
qed

theorem pool_is_exclusive_witness:
  "\<exists>y. micro_step\<^sup>*\<^sup>* (start_threads (new_pool 7331 ''127.0.0.1'' 1 ''redis'') (\<lambda>i. map (micro_client plain_lib) (refused_calls i))) y \<and>
     th_replies y 0 = [Replied (Err (ErrText ''refused''))] \<and> \<not> data_race y"
proof -
  obtain y where y: "micro_step\<^sup>*\<^sup>* (start_threads (new_pool 7331 ''127.0.0.1'' 1 ''redis'') (\<lambda>i. map (micro_client plain_lib) (refused_calls i))) y"
    "th_replies y 0 = [Replied (Err (ErrText ''refused''))]"
    using refused_calls_run by blast
  with pool_is_exclusive [OF y(1) quiet_new] show ?thesis by blast
qed

text \<open>
C12. No connection is lost: when all goroutines have returned, and none of them called \<open>DoAsync\<close> or had a
panic in \<open>Do\<close>, every open connection is idle, there are at most \<open>maxIdle\<close>, and the pool is in order for
the next program; \<open>Close\<close> never panics.
\<close>

theorem no_connection_lost:
  assumes "micro_step\<^sup>*\<^sup>* (start_threads p (\<lambda>i. map (micro_client L) (calls i))) y" and "quiet p"
    and "all_returned y" and "\<forall>i. \<forall>r \<in> set (th_replies y i). \<not> leaky r"
  shows "pool_ok (th_mem y) \<and> int (length (pl_idle (th_mem y))) \<le> max 0 (pl_max_idle p) \<and>
    (\<forall>c x n. pl_store (th_mem y) c = Some x \<and> cc_net x = Some n \<longrightarrow> c \<in> set (pl_idle (th_mem y)) \<and> nc_conn_open n) \<and>
    (\<forall>i. \<forall>q. Closed_all (Some q) \<notin> set (th_replies y i))"
proof -
  obtain own where own: "well_owned y own" using client_run_owned [OF assms(1,2)] by blast
  note q = client_run_quiet [OF assms]
  have "int (length (pl_idle (th_mem y))) \<le> max 0 (pl_max_idle p)" using q by (auto simp: quiet_def pool_ok_def)
  moreover have "c \<in> set (pl_idle (th_mem y)) \<and> nc_conn_open n"
    if "pl_store (th_mem y) c = Some x" "cc_net x = Some n" for c x n
    using q(1) that pool_okD [of "th_mem y" c x] unfolding quiet_def by (auto simp: conn_ok_def nc_live_def)
  moreover have "Closed_all (Some q) \<notin> set (th_replies y i)" for i q
    using thread_okD(7) [OF well_ownedD(3) [OF own, where i = i]] by (auto simp: close_panics_def)
  ultimately show ?thesis using q(1) unfolding quiet_def by blast
qed

theorem no_connection_lost_witness:
  "\<exists>y. micro_step\<^sup>*\<^sup>* (start_threads (new_pool 7331 ''127.0.0.1'' 1 ''redis'') (\<lambda>i. map (micro_client plain_lib) (refused_calls i))) y \<and>
     pool_ok (th_mem y) \<and> length (pl_idle (th_mem y)) = 1"
proof -
  obtain y where y: "micro_step\<^sup>*\<^sup>* (start_threads (new_pool 7331 ''127.0.0.1'' 1 ''redis'') (\<lambda>i. map (micro_client plain_lib) (refused_calls i))) y"
    "all_returned y" "th_replies y 0 = [Replied (Err (ErrText ''refused''))]" "th_replies y 1 = [Replied (Err EOF)]"
    "length (pl_idle (th_mem y)) = 1" "\<forall>i. i \<noteq> 0 \<longrightarrow> i \<noteq> 1 \<longrightarrow> th_replies y i = []"
    using refused_calls_run by blast
  have "\<forall>i. \<forall>r \<in> set (th_replies y i). \<not> leaky r"
  proof
    fix i
    consider "i = 0" | "i = 1" | "th_replies y i = []" using y(6) by blast
    then show "\<forall>r \<in> set (th_replies y i). \<not> leaky r" using y(3,4) by cases simp_all
  qed
  from no_connection_lost [OF y(1) quiet_new y(2) this] y(1,5) show ?thesis by blast
qed

text \<open>
C15. The load generator against a server that answers or closes (a read returns): from every state of a
benchmark all of its workers can return, so nothing keeps the program from going on; the program either runs all
benchmarks or is ended by a panic of a worker; and if it runs them all, every worker has reported once and without a
panic, at most one connection is open, and it is idle.
\<close>

theorem load_generator_ends:
  fixes L :: "'f golib" and rounds :: "(nat \<times> (nat \<Rightarrow> 'f client_call)) list"
  assumes "rounds = bench_rounds pipelined loop clients d now rand"
  shows "(\<exists>rs e. benchmarks L rounds (new_pool port host 1 b) rs e) \<and>
    (\<forall>rs q. benchmarks L rounds (new_pool port host 1 b) rs (Ended q) \<longrightarrow>
       quiet q \<and> length (pl_idle q) \<le> 1 \<and> list_all2 (\<lambda>(n, f) replies. all_reported n replies) rounds rs) \<and>
    (\<forall>p y. quiet p \<and> micro_step\<^sup>*\<^sup>* (bench_round L n f p) y \<longrightarrow> (\<exists>z. micro_step\<^sup>*\<^sup>* y z \<and> all_returned z))"
proof (intro conjI allI impI)
  let ?p = "new_pool port host 1 b"
  have w: "\<forall>r \<in> set rounds. \<forall>i. is_worker (snd r i)" unfolding assms using bench_rounds_workers by blast
  show "\<exists>rs e. benchmarks L rounds ?p rs e" by (rule benchmarks_end [OF quiet_new w])
  show "\<exists>z. micro_step\<^sup>*\<^sup>* y z \<and> all_returned z" if "quiet p \<and> micro_step\<^sup>*\<^sup>* (bench_round L n f p) y" for p y
  proof -
    have "\<forall>i. i \<notin> {..<n} \<longrightarrow> (if i < n then [f i] else []) = []" by simp
    from client_runs_return [OF _ _ this] that show ?thesis unfolding bench_round_def by blast
  qed
  fix rs q assume "benchmarks L rounds ?p rs (Ended q)"
  from benchmarks_quiet [OF this refl quiet_new w] have q: "quiet q" "pl_max_idle q = 1"
    "list_all2 (\<lambda>(n, f) replies. all_reported n replies) rounds rs" by (simp_all add: new_pool_def)
  then show "quiet q" "list_all2 (\<lambda>(n, f) replies. all_reported n replies) rounds rs" by blast+
  show "length (pl_idle q) \<le> 1" using q(1,2) by (auto simp: quiet_def pool_ok_def)
qed

theorem load_generator_ends_witness:
  "\<exists>rs e. benchmarks plain_lib (bench_rounds False 2 3 (\<lambda>cmd i. Inl EOF) (\<lambda>cmd i. 5) (\<lambda>k. word_of_nat k))
      (new_pool 7331 ''127.0.0.1'' 1 ''redis'') rs e \<and> (\<forall>q. e = Ended q \<longrightarrow> length (pl_idle q) \<le> 1)"
proof -
  let ?rounds = "bench_rounds False 2 3 (\<lambda>cmd i. Inl EOF) (\<lambda>cmd i. 5) (\<lambda>k. word_of_nat k) :: (nat \<times> (nat \<Rightarrow> int64 client_call)) list"
  have "?rounds = bench_rounds False 2 3 (\<lambda>cmd i. Inl EOF) (\<lambda>cmd i. 5) (\<lambda>k. word_of_nat k)" by (rule refl)
  from load_generator_ends [OF this, where L = plain_lib and port = 7331 and host = "''127.0.0.1''" and b = "''redis''"]
  show ?thesis by blast
qed

end
