(* ===== verification/Linenoise.thy ===== *)
theory Linenoise
  imports Cli
begin

text \<open>
  \<open>cmd/broadcast-cli/linenoise.go\<close>: the binding of the interactive client to its line editor, the loop of
  \<open>main\<close> over it, and the history that the editor keeps (everything \<open>linenoise.c\<close> does to it in a session).
  How a line is edited on the terminal is a parameter: a function of the prompt, the state of the terminal and
  the history, which tells the line and which entries of the history have been rewritten on the way.
\<close>

section \<open>Strings and C\<close>

text \<open>
  What C reads of the string that \<open>C.CString\<close> has copied, and what \<open>C.GoString\<close> makes of a C string: the
  bytes before the first NUL.
\<close>

definition c_string :: "bytes \<Rightarrow> bytes" where
  "c_string s = takeWhile (\<lambda>c. c \<noteq> CHR 0x00) s"

text \<open>\<open>C.int\<close> of a Go \<open>int\<close> keeps the lower 32 bits.\<close>

definition c_int :: "int64 \<Rightarrow> int" where
  "c_int n = sint (ucast n :: 32 word)"

section \<open>The history of the editor\<close>

text \<open>The lines, oldest first, and the most there may be; memory does not run out.\<close>

record c_history =
  ch_lines :: "bytes list"
  ch_max_len :: nat

definition initial_history :: c_history where
  "initial_history = \<lparr>ch_lines = [], ch_max_len = 100\<rparr>"

definition c_history_add :: "bytes \<Rightarrow> c_history \<Rightarrow> int \<times> c_history" where
  "c_history_add line h =
     (if ch_max_len h = 0 then (0, h)
      else if ch_lines h \<noteq> [] \<and> last (ch_lines h) = line then (0, h)
      else
        let old = (if length (ch_lines h) = ch_max_len h then tl (ch_lines h) else ch_lines h)
        in (1, h\<lparr>ch_lines := old @ [line]\<rparr>))"

definition c_history_set_max_len :: "int \<Rightarrow> c_history \<Rightarrow> int \<times> c_history" where
  "c_history_set_max_len len h =
     (if len < 1 then (0, h)
      else (1, \<lparr>ch_lines = drop (length (ch_lines h) - nat len) (ch_lines h), ch_max_len = nat len\<rparr>))"

text \<open>
  What the C function \<open>linenoise\<close> does to the history while it edits a line: on a terminal it adds an empty
  entry for the line to come, stores the buffer in the entry shown when another one is chosen (\<open>index\<close>
  counts from the newest), and drops the newest entry when the line is ended by Enter or by Ctrl-D on an
  empty line (\<open>dropped\<close>); Ctrl-C and the end of the input leave it.
\<close>

definition c_history_rewrite :: "nat \<times> bytes \<Rightarrow> bytes list \<Rightarrow> bytes list" where
  "c_history_rewrite edit lines =
     (case edit of (index, buf) \<Rightarrow>
        if 1 < length lines then lines[length lines - 1 - index := c_string buf] else lines)"

definition c_history_edit :: "(nat \<times> bytes) list \<Rightarrow> bool \<Rightarrow> c_history \<Rightarrow> c_history" where
  "c_history_edit changes dropped h =
     (let h1 = snd (c_history_add [] h);
          lines = fold c_history_rewrite changes (ch_lines h1)
      in h1\<lparr>ch_lines := (if dropped then butlast lines else lines)\<rparr>)"

section \<open>The binding\<close>

text \<open>
  \<open>line\<close>: \<open>editor\<close> is the C function \<open>linenoise\<close>, whose result may be NULL.  Besides the result it tells how
  the history has been edited; \<open>None\<close> when the input is not a terminal, where lines are just read.
\<close>

type_synonym 't line_editor =
  "bytes \<Rightarrow> 't \<Rightarrow> bytes list \<Rightarrow> (bytes option \<times> ((nat \<times> bytes) list \<times> bool) option) \<times> 't"

definition ln_line :: "'t line_editor \<Rightarrow> bytes \<Rightarrow> 't \<Rightarrow> c_history \<Rightarrow> (gerr + bytes) \<times> 't \<times> c_history" where
  "ln_line editor prompt t h =
     (case editor (c_string prompt) t (ch_lines h) of
        ((r, edits), t') \<Rightarrow>
          (let h' = (case edits of None \<Rightarrow> h | Some (changes, dropped) \<Rightarrow> c_history_edit changes dropped h)
           in case r of
                None \<Rightarrow> (Inl (ErrText ''quited by a signal''), t', h')
              | Some result \<Rightarrow> (Inr (c_string result), t', h')))"

definition add_history :: "bytes \<Rightarrow> c_history \<Rightarrow> gerr option \<times> c_history" where
  "add_history line h =
     (let (res, h') = c_history_add (c_string line) h
      in (if res \<noteq> 1 then Some (ErrText ''Could not add line to history.'') else None, h'))"

definition set_history_capacity :: "int64 \<Rightarrow> c_history \<Rightarrow> gerr option \<times> c_history" where
  "set_history_capacity capacity h =
     (let (res, h') = c_history_set_max_len (c_int capacity) h
      in (if res \<noteq> 1 then Some (ErrText ''Could not set history max len.'') else None, h'))"

text \<open>The handler of completions is a global variable; the callback that C calls fills a struct of C.\<close>

type_synonym completion_fn = "bytes \<Rightarrow> bytes list"

definition default_completion_handler :: completion_fn where
  "default_completion_handler inp = []"

record c_completions =
  cc_len :: nat
  cc_vec :: "bytes list option"        \<comment> \<open>\<open>None\<close> is NULL\<close>

definition no_completions :: c_completions where
  "no_completions = \<lparr>cc_len = 0, cc_vec = None\<rparr>"

definition slice_panic :: string where
  "slice_panic = ''runtime error: slice bounds out of range''"

definition completion_hook :: "completion_fn \<Rightarrow> bytes \<Rightarrow> c_completions \<Rightarrow> unit res \<times> c_completions" where
  "completion_hook compl_handler inp completions =
     (let completions_slice = compl_handler (c_string inp);
          completions_len = length completions_slice;
          completions' = completions\<lparr>cc_len := completions_len\<rparr>
      in if completions_len > 0 then
           if completions_len > 999999 then (Panic slice_panic, completions')
           else (Ok (), completions'\<lparr>cc_vec := Some (map c_string completions_slice)\<rparr>)
         else (Ok (), completions'))"

section \<open>The loop of the interactive client\<close>

record editor_state =
  ed_handler :: completion_fn
  ed_history :: c_history

definition init_editor :: editor_state where
  "init_editor = \<lparr>ed_handler = default_completion_handler, ed_history = initial_history\<rparr>"

definition set_completion_handler :: "completion_fn \<Rightarrow> editor_state \<Rightarrow> editor_state" where
  "set_completion_handler c e = e\<lparr>ed_handler := c\<rparr>"

text \<open>What \<open>main\<close> sets before its loop; errors of \<open>setHistoryCapacity\<close> are ignored.\<close>

definition prepare_editor :: "completion_fn \<Rightarrow> editor_state \<Rightarrow> editor_state" where
  "prepare_editor handler e =
     (let e1 = set_completion_handler handler e
      in e1\<lparr>ed_history := snd (set_history_capacity 100 (ed_history e1))\<rparr>)"

definition cli_prompt :: "bytes \<Rightarrow> int64 \<Rightarrow> bytes" where
  "cli_prompt ip port = ip @ '':'' @ append_int port @ ''> ''"

text \<open>
  The loop, for as many lines as there are network inputs in the list: \<open>line\<close>, and for a line with words
  \<open>addHistory\<close>, whose error is ignored, and the command.
\<close>

fun cli_terminal :: "'f golib \<Rightarrow> 't line_editor \<Rightarrow> bytes \<Rightarrow> (dial \<times> int) list \<Rightarrow> 't \<Rightarrow> c_history \<Rightarrow>
    pool \<times> cli \<Rightarrow> unit res \<times> c_history \<times> pool \<times> cli" where
  "cli_terminal L editor prompt [] t h ps = (Ok (), h, ps)"
| "cli_terminal L editor prompt ((d, now) # ds) t h ps =
     (case ln_line editor prompt t h of
        (Inl e, t', h1) \<Rightarrow> (Ok (), h1, fst ps, cli_print (err_text L e @ [LF]) (snd ps))
      | (Inr input, t', h1) \<Rightarrow>
          (let h' = (if tokens input = [] then h1 else snd (add_history input h1))
           in case cli_line L d now input ps of
                (Ok _, ps') \<Rightarrow> cli_terminal L editor prompt ds t' h' ps'
              | (Err e, ps') \<Rightarrow> (Err e, h', ps')
              | (Panic q, ps') \<Rightarrow> (Panic q, h', ps')))"

section \<open>What the history holds\<close>

text \<open>What \<open>line\<close> returns in the course of the loop.\<close>

fun typed :: "'f golib \<Rightarrow> 't line_editor \<Rightarrow> bytes \<Rightarrow> (dial \<times> int) list \<Rightarrow> 't \<Rightarrow> c_history \<Rightarrow>
    ((bytes + bytes) \<times> dial \<times> int) list" where
  "typed L editor prompt [] t h = []"
| "typed L editor prompt (dn # ds) t h =
     (case ln_line editor prompt t h of
        (Inl e, t', h1) \<Rightarrow> [(Inl (err_text L e), dn)]
      | (Inr input, t', h1) \<Rightarrow>
          (Inr input, dn) # typed L editor prompt ds t'
             (if tokens input = [] then h1 else snd (add_history input h1)))"

text \<open>The array of the history has room for its entries.\<close>

definition history_fits :: "c_history \<Rightarrow> bool" where
  "history_fits h \<longleftrightarrow> 0 < ch_max_len h \<and> length (ch_lines h) \<le> ch_max_len h"

lemma c_history_add_fits:
  "history_fits h \<Longrightarrow> history_fits (snd (c_history_add line h)) \<and>
    ch_max_len (snd (c_history_add line h)) = ch_max_len h \<and>
    ch_lines (snd (c_history_add line h)) \<noteq> [] \<and> last (ch_lines (snd (c_history_add line h))) = line"
  by (auto simp: history_fits_def c_history_add_def Let_def)

lemma length_rewrites: "length (fold c_history_rewrite changes lines) = length lines"
  by (induction changes arbitrary: lines) (auto simp: c_history_rewrite_def split: prod.split)

lemma c_history_edit_fits:
  "history_fits h \<Longrightarrow> history_fits (c_history_edit changes dropped h) \<and>
    ch_max_len (c_history_edit changes dropped h) = ch_max_len h"
  using c_history_add_fits [of h "[]"]
  by (auto simp: history_fits_def c_history_edit_def Let_def length_rewrites)

lemma c_string_again [simp]: "c_string (c_string s) = c_string s"
  by (simp add: c_string_def takeWhile_idem)

lemma ln_line_fits:
  assumes "ln_line editor prompt t h = (r, t', h')" and "history_fits h"
  shows "history_fits h' \<and> ch_max_len h' = ch_max_len h"
  using assms c_history_edit_fits [OF assms(2)]
  by (auto simp: ln_line_def Let_def split: prod.splits option.splits)

lemma ln_line_c_string: "ln_line editor prompt t h = (Inr input, t', h') \<Longrightarrow> c_string input = input"
  by (auto simp: ln_line_def Let_def split: prod.splits option.splits)

lemma add_history_fits:
  "history_fits h \<Longrightarrow> c_string input = input \<Longrightarrow> history_fits (snd (add_history input h)) \<and>
    ch_max_len (snd (add_history input h)) = ch_max_len h \<and> last (ch_lines (snd (add_history input h))) = input"
  using c_history_add_fits [of h input] by (auto simp: add_history_def split: prod.split)

text \<open>A session: its history fits whatever happens, and the command executed last is the newest entry.\<close>

lemma cli_terminal_history:
  assumes "cli_terminal L editor prompt ds t h ps = (r, h', ps')" and "history_fits h"
  shows "history_fits h' \<and> ch_max_len h' = ch_max_len h \<and> cli_loop L (typed L editor prompt ds t h) ps = (r, ps') \<and>
    (\<forall>evs input dn. typed L editor prompt ds t h = evs @ [(Inr input, dn)] \<longrightarrow> tokens input \<noteq> [] \<longrightarrow>
      r = Ok () \<longrightarrow> last (ch_lines h') = input)"
  using assms
proof (induction ds arbitrary: t h ps)
  case (Cons dn ds)
  obtain d now where dn: "dn = (d, now)" by fastforce
  obtain x t' h1 where x: "ln_line editor prompt t h = (x, t', h1)" by (metis prod_cases3)
  have h1: "history_fits h1" "ch_max_len h1 = ch_max_len h" using ln_line_fits [OF x Cons.prems(2)] by simp_all
  show ?case
  proof (cases x)
    case (Inl e)
    with Cons.prems x dn h1 show ?thesis by auto
  next
    case (Inr input)
    let ?h = "if tokens input = [] then h1 else snd (add_history input h1)"
    have fits: "history_fits ?h" "ch_max_len ?h = ch_max_len h" "tokens input \<noteq> [] \<longrightarrow> last (ch_lines ?h) = input"
      using h1 add_history_fits [OF h1(1) ln_line_c_string [OF x [unfolded Inr]]] by auto
    obtain out qs where out: "cli_line L d now input ps = (out, qs)" by (cases "cli_line L d now input ps")
    show ?thesis
    proof (cases out)
      case (Ok v)
      with Cons.prems(1) x dn Inr out have rest: "cli_terminal L editor prompt ds t' ?h qs = (r, h', ps')"
        by (simp add: Let_def)
      show ?thesis
      proof (cases ds)
        case Nil
        with rest fits x dn Inr out Ok show ?thesis by auto
      next
        case (Cons dn' ds')
        have "typed L editor prompt ds t' ?h \<noteq> []" by (simp add: Cons split: prod.split sum.split)
        with Cons.IH [OF rest fits(1)] fits(2) x dn Inr out Ok show ?thesis by (auto simp: Cons_eq_append_conv)
      qed
    qed (use Cons.prems(1) x dn Inr out fits in \<open>auto simp: Let_def\<close>)
  qed
qed simp

text \<open>A repeated line is reported as an error although the history is right as it is.\<close>

lemma add_history_repeated:
  "ch_lines h \<noteq> [] \<Longrightarrow> last (ch_lines h) = c_string line \<Longrightarrow>
    add_history line h = (Some (ErrText ''Could not add line to history.''), h)"
  by (simp add: add_history_def c_history_add_def)

section \<open>Properties\<close>

text \<open>
C33. The interactive client over its line editor, however the lines are edited and the entries of the history are
rewritten on the way: the session does with the lines that have been typed what the loop over them does; the
history never holds more than the 100 entries its array has room for; and a command that has just been
executed is its newest entry.
\<close>

theorem session_history:
  assumes "cli_terminal L editor prompt ds t (ed_history (prepare_editor handler init_editor)) ps = (r, h, ps')"
  shows "cli_loop L (typed L editor prompt ds t (ed_history (prepare_editor handler init_editor))) ps = (r, ps') \<and>
    ch_max_len h = 100 \<and> length (ch_lines h) \<le> 100 \<and>
    (\<forall>evs input dn. typed L editor prompt ds t (ed_history (prepare_editor handler init_editor)) = evs @ [(Inr input, dn)] \<longrightarrow>
      tokens input \<noteq> [] \<longrightarrow> r = Ok () \<longrightarrow> last (ch_lines h) = input)"
proof -
  have "c_int 100 = 100" by (simp add: c_int_def)
  then have "history_fits (ed_history (prepare_editor handler init_editor))"
    and m: "ch_max_len (ed_history (prepare_editor handler init_editor)) = 100"
    by (simp_all add: history_fits_def prepare_editor_def set_history_capacity_def c_history_set_max_len_def
        set_completion_handler_def init_editor_def initial_history_def)
  from cli_terminal_history [OF assms this(1)] m show ?thesis by (simp add: history_fits_def)
qed

theorem session_history_witness:
  "\<exists>h ps'. cli_terminal plain_lib (\<lambda>p (n::nat) ls. ((Some ''help'', Some ([(0, ''hel'')], True)), n)) (cli_prompt ''127.0.0.1'' 7331)
      [(Inl EOF, 1), (Inl EOF, 2)] 0 (ed_history (prepare_editor default_completion_handler init_editor))
      (new_pool 7331 ''127.0.0.1'' 1 ''redis'', cli_start) = (Ok (), h, ps') \<and> last (ch_lines h) = ''help''"
proof -
  let ?ed = "\<lambda>p (n::nat) ls. ((Some ''help'', Some ([(0, ''hel'')], True)), n)" and ?pr = "cli_prompt ''127.0.0.1'' 7331"
  let ?ds = "[(Inl EOF, 1), (Inl EOF, 2)] :: (dial \<times> int) list"
  let ?h0 = "ed_history (prepare_editor default_completion_handler init_editor)"
  have tok: "tokens ''help'' = [''help'']" by (simp add: tokens.simps re_space_def)
  have "map upper_char ''help'' = ''HELP''" "is_ascii ''help''" by code_simp+
  then have "to_upper plain_lib ''help'' = ''HELP''" by (simp add: to_upper_ascii)
  moreover have "to_lower plain_lib ''HELP'' = ''help''" by code_simp
  ultimately have up: "to_upper plain_lib ''help'' = ''HELP''" "to_lower plain_lib ''HELP'' = ''help''" by simp_all
  have line: "cli_line plain_lib d now ''help'' ps = (Ok (), fst ps, print_help plain_lib [''help''] (snd ps))" for d now ps
    by (simp add: cli_line_def tok up)
  have ln: "ln_line ?ed ?pr n h = (Inr ''help'', n, c_history_edit [(0, ''hel'')] True h)" for n h
    by (simp add: ln_line_def c_string_def)
  obtain h ps' where run: "cli_terminal plain_lib ?ed ?pr ?ds 0 ?h0
      (new_pool 7331 ''127.0.0.1'' 1 ''redis'', cli_start) = (Ok (), h, ps')"
    by (simp add: ln line Let_def)
  have "typed plain_lib ?ed ?pr ?ds 0 ?h0 = [(Inr ''help'', Inl EOF, 1)] @ [(Inr ''help'', Inl EOF, 2)]"
    by (simp add: ln tok)
  with session_history [OF run] have "last (ch_lines h) = ''help''" by (simp add: tok)
  with run show ?thesis by blast
qed

text \<open>
Completion: the editor is offered exactly the names that the handler of the program computes for what has
been typed, as long as there are at most 999999 of them; with more the callback panics.
\<close>

lemma completion_offers:
  assumes "compl_handler = (\<lambda>inp. completion_handler L inp s)" and "\<forall>e \<in> set (help_commands s). CHR 0x00 \<notin> set (he_name e)"
  shows "completion_hook compl_handler inp no_completions =
    (let names = map he_name (filter (\<lambda>e. has_prefix (he_name e) (to_upper L (c_string inp))) (help_commands s)) in
     if length names > 999999 then (Panic slice_panic, \<lparr>cc_len = length names, cc_vec = None\<rparr>)
     else (Ok (), \<lparr>cc_len = length names, cc_vec = if names = [] then None else Some names\<rparr>))"
proof -
  have "c_string (he_name e) = he_name e" if "e \<in> set (help_commands s)" for e
    using assms(2) that by (auto simp: c_string_def takeWhile_eq_all_conv)
  then show ?thesis
    unfolding assms(1) by (auto simp: completion_hook_def completion_handler_def no_completions_def Let_def intro!: map_cong)
qed

end
