(* ===== verification/Spec2Isabelle.thy ===== *)
theory Spec2Isabelle
  imports Daemon Concurrent SharedMaps LoadGenerator Linenoise
begin

text \<open>
  A verification of \<open>broadcast\<close>, a Go server that executes commands of TCP clients on pluggable backends, with
  its client library and programs.  Paths are relative to \<open>src/\<close>.

  \<^bold>\<open>The program.\<close>  \<open>server.BroadcastServer\<close> accepts connections and gives each to the run loop of a protocol
  (\<open>interface\<close>, \<open>redis\<close> or \<open>line\<close>).  A run loop reads a command, looks its handler up in the registry that
  server, protocols and backends share (\<open>BroadcastContext\<close>), calls it and reports errors to the client.  The
  backends are the default one (\<open>PING\<close>, \<open>ECHO\<close>, \<open>INFO\<close>, \<open>CMDS\<close>), the stats one (numbers, counters and sets in
  an in-memory store) and the pub/sub one.  \<open>BufferClient\<close> encodes and decodes the wire format for both
  sides; the Go client library keeps a pool of connections over it, and the interactive client and the
  load generator are programs over the library.

  \<^bold>\<open>Theories and sources.\<close>
    \<^item> \<open>Prelude\<close>, \<open>GoLib\<close>, \<open>BufIO\<close>: Go values, errors and results; the parts of \<open>strconv\<close>, \<open>strings\<close>, \<open>bytes\<close>,
      \<open>fmt\<close> and \<open>bufio\<close> that the program uses.  A call returns \<open>Ok\<close>, \<open>Err\<close> or \<open>Panic\<close>.
    \<^item> \<open>Client\<close>, \<open>Wire\<close>: \<open>server/client.go\<close>, \<open>server/const.go\<close>; one definition per method of \<open>BufferClient\<close> and
      \<open>NetworkClient\<close>.  Write methods act on a \<open>bufwriter\<close>, read methods on a \<open>bufreader\<close>, whose \<open>br_in\<close> holds all
      bytes that will arrive.  \<open>Wire\<close> has the round trips, the framing and the types of replies.
    \<^item> \<open>Memory\<close>: \<open>backends/stats/memorybackend.go\<close>; each method is a function on the record \<open>mem\<close>.
    \<^item> \<open>Threads\<close>, \<open>Locking\<close>: goroutines that are interleaved access by access, and every method of the store as the
      sequence of its accesses, \<open>Lock\<close> and \<open>Unlock\<close>.
    \<^item> \<open>Stats\<close>, \<open>PubSub\<close>, \<open>BDefault\<close>: the handlers of \<open>backends/stats/metrics.go\<close>,
      \<open>backends/pubsub/pubsub_backend.go\<close> and \<open>backends/bdefault/backend.go\<close>, and what they register.
    \<^item> \<open>StoreSpec\<close>: what the stats backend promises, an abstract store with requests and answers; \<open>Races\<close>: the
      handlers that use a map of the store without its lock; \<open>Concurrent\<close>: requests of one method each, access by access.
    \<^item> \<open>Registry\<close>: \<open>server/context.go\<close>, \<open>handler.go\<close>, \<open>event.go\<close>.
    \<^item> \<open>World\<close>: the record \<open>server\<close>, that is \<open>BroadcastServer\<close>, its backends and a store of network clients, which
      are shared by pointer; \<open>run_method\<close> calls a registered method value.
    \<^item> \<open>Protocols\<close>: \<open>server/protocol.go\<close>, \<open>protocols/redis\<close>, \<open>protocols/line\<close>: dispatch, one iteration of each run
      loop (\<open>client_iter\<close>), the whole loop (\<open>run_client\<close>) and its deferred function.
    \<^item> \<open>Server\<close>: \<open>server/server.go\<close> and the start-up of \<open>cmd/broadcast-server/main.go\<close>.  The goroutines are two
      step relations: \<open>work\<close> (an iteration of a run loop, its end, an exit watcher, the delivery of a
      published message) and \<open>step\<close> (work, an accepted connection, a tick of the stats backend, \<open>Close\<close>).
    \<^item> \<open>SharedMaps\<close>: the operations on the maps of topics and of connected clients, which have no lock.
    \<^item> \<open>Sessions\<close>: what a booted server answers in a whole session.
    \<^item> \<open>Service\<close>: the abstract service of many clients that a server with the stats backend implements.
    \<^item> \<open>GoClient\<close>: \<open>client/go/broadcast/client.go\<close>: connections in a store, the pool as the list of the idle ones,
      and \<open>client_step\<close>, what programs that hold connections can do.
    \<^item> \<open>Cli\<close>: \<open>cmd/broadcast-cli/main.go\<close>: words and types of a command line, the table of commands, printing,
      the loop of \<open>main\<close>.  \<open>Linenoise\<close>: \<open>cmd/broadcast-cli/linenoise.go\<close>, the binding of that loop to its line editor
      in C, with the history that the editor keeps.
    \<^item> \<open>Programs\<close>: \<open>cmd/broadcast-benchmark/main.go\<close>, \<open>cmd/broadcast-stats/main.go\<close>, and the configuration and log
      lines of the servers.  \<open>Daemon\<close>: the process around the server, which prints its events, and the two server
      programs from their configuration on.
    \<^item> \<open>PoolPrograms\<close>: the methods of \<open>client/go/broadcast/client.go\<close> and the workers of the load generator as sequences
      of accesses, \<open>Lock\<close> and \<open>Unlock\<close>.  \<open>Ownership\<close>: which connections a goroutine owns, and what it may rely on and must
      guarantee.  \<open>Discipline\<close>: every call follows these rules.  \<open>LoadGenerator\<close>: programs whose goroutines share one
      client, and the rounds of \<open>cmd/broadcast-benchmark/main.go\<close>.
    \<^item> This theory: properties that span client, protocol and backends.

  \<^bold>\<open>What is shown.\<close>
    \<^item> Wire format: scalars, commands and bulks within the limits of the format are read back as they were written; what
      is read has the type that its first byte announces; which strings cannot be read back.
    \<^item> Refinement from the store to the client: on all arguments, well formed or not, each of the 18 handlers
      returns, stores and sends exactly what \<open>StoreSpec\<close> specifies, so none panics (an index that is out of range
      panics in the model as in Go); every run of the process, with any clients whose requests need one method of the
      store each, one request a turn, is a run of the abstract service; and the calls of the Go client get
      exactly the specified answers, where these can be read.
    \<^item> Store: its invariant, flushing of counters; under its locks the methods are linearizable and free of
      races and deadlocks when they are interleaved access by access, so no update is lost, and every call returns.
    \<^item> Pub/sub: a refinement of a relation of topics and subscribers; exact delivery.
    \<^item> Protocols: run loops end on every input, and a session over pipelined commands refines executing the
      commands in order.
    \<^item> Server: by rule induction over \<open>step\<close>, the process survives every order of its steps before \<open>Close\<close> (under either
      of the two server programs), the client count is exact as long as accepts and exit watchers do not overlap, and
      the backends stay well formed; \<open>work\<close> is well-founded, so the clients drain.
    \<^item> Concurrency errors, each as a reachable state: \<open>SMEMBERS\<close>, \<open>SDIFF\<close> and \<open>COUNTERS\<close> race with updates of the
      maps they read without a lock, and a reply of \<open>SMEMBERS\<close> can be longer than its header; subscriptions and counts of
      clients can be lost.
    \<^item> Client library and programs: the invariant of the pool, redialling after errors, agreement of the
      interactive client's table with the registry, splitting of command lines, the bound of its history, the numbers of the load
      generator, agreement of the two server programs.
    \<^item> The pool of the client library under goroutines that are interleaved access by access: by rely and guarantee with
      ownership, a connection belongs to one goroutine at a time although its methods take no lock, no connection
      is lost, and the benchmarks of the load generator end, by themselves or by the panic of a worker.
    \<^item> Deviations, each proved as what the code does: \<open>DECR\<close> and \<open>KEYS\<close>, empty and long strings, \<open>Close\<close> with its
      value receiver and with live clients, the size of topics, arguments over the \<open>interface\<close> protocol, leaks and
      crashes of the clients.

  \<^bold>\<open>Interfaces.\<close>  Locales state what one part relies on in another, and are interpreted on the model:
  \<open>byte_sink\<close> and \<open>flushed_sink\<close> (what encoders need of \<open>bufio.Writer\<close>), \<open>metric_values\<close> and \<open>metric_sets\<close> (what
  handlers need of \<open>Metrics\<close>), \<open>subscriptions\<close>, \<open>request_loop\<close>, \<open>protocol_loop\<close> and \<open>command_codec\<close> (a run loop,
  a loop over a reader and a handler, and a client's encoder for it; three interpretations), \<open>idle_pool\<close>,
  \<open>one_lock_methods\<close> (what makes the methods of an object atomic under its locks).

  \<^bold>\<open>Fuel and bounds.\<close>  \<open>ReadInterface\<close> recurses on its input and gets one unit of fuel per unread byte; it
  satisfies the equation of the source without fuel (\<open>read_interface_unfold\<close>).  The interactive client with its editor
  runs for as many lines as there are network inputs in a list.  A run loop gets one iteration more
  than there are unread bytes; the termination theorem of \<open>Protocols\<close> shows that this is always enough.  The endless loop behind
  \<open>SUBSCRIBE\<close> gets enough fuel to reach its panic in every case, as \<open>Cli\<close> shows.
  \<open>int64\<close> and \<open>int\<close> are 64-bit words; lengths are naturals.

  \<^bold>\<open>Parameters.\<close>  The record \<open>golib\<close> holds what rests on IEEE arithmetic or large tables: floats, \<open>encoding/json\<close>,
  case mapping of non-ASCII text, \<open>%q\<close>, and the order of \<open>range\<close> over a map, which the model takes to be a function of
  the key set.  Hypotheses on them are \<open>range_ok\<close>, \<open>float_ok\<close>, \<open>unjson_typed\<close> and round trips of JSON named in
  the statements.  Binding a port, dialling, what arrives on a connection, the clock, package \<open>runtime\<close>, reading a
  file, \<open>toml.Decode\<close> and the editing of a line on the terminal are arguments.

  \<^bold>\<open>Granularity.\<close>  The step relations of the server (\<open>work\<close>, \<open>step\<close>) execute one request, one exit watcher or one
  accepted connection at a time, as the source means them to be.  For the methods of the store, and for
  requests of one method, this is justified by \<open>Locking\<close> and \<open>Concurrent\<close>.  In \<open>PoolPrograms\<close> a call of \<open>ReadInterface\<close> or of \<open>WriteCommand\<close> on a connection is one access to its
  buffers; that is justified by \<open>LoadGenerator\<close>, because no other goroutine accesses them at the same time.  For a handler that calls several methods, that uses a map without its lock, or that shares the
  map of topics or of clients with another goroutine it is an idealisation; \<open>Races\<close> and \<open>SharedMaps\<close> show what it leaves
  out.  The same holds for the delivery of a published message, which is one step although the goroutines that
  publish to one client share its unlocked writer, and for the fatal error of the runtime when it notices
  concurrent accesses to a map, which no step relation has.  \<open>client_step\<close> assumes of a program that it gives a connection
  back once and only while it holds it.  In \<open>PoolPrograms\<close> a read of a connection returns, with a value or an error.

  \<^bold>\<open>Not modelled.\<close>  The interleaving of different handlers other than at the granularity above; that a
  goroutine that reports an event waits until the log has taken it; that arguments of the line protocol alias the
  reader's buffer while a publication is pending; a peer that closes its connection between two writes of
  one reply; profiling; the parsing of flags; the graph backend, which is another repository; of
  \<open>linenoise.c\<close> all but what it does to the history.
\<close>


section \<open>Properties of the whole server\<close>

text \<open>
C34. After start-up the server offers exactly the commands of the enabled backends, each bound to
its own handler and its own help entry: no two backends register the same name.
\<close>

theorem boot_registry:
  assumes "boot bind rt L now cfg = Ok s"
  shows "(\<forall>(c, h) \<in> set (boot_commands cfg).
      ctx_commands (app_ctx s) (cmd_name c) = Some h \<and> ctx_help (app_ctx s) (cmd_name c) = Some c) \<and>
    dom (ctx_commands (app_ctx s)) = (\<lambda>(c, h). cmd_name c) ` set (boot_commands cfg)"
proof -
  have "dom (ctx_commands (app_ctx s)) = (\<lambda>(c, h). to_upper L (cmd_name c)) ` set (boot_commands cfg)"
    using boot_Ok [OF assms] register_commands_dom(1) [of L "boot_commands cfg" new_broadcast_context]
    by (simp add: new_broadcast_context_def)
  also have "\<dots> = (\<lambda>(c, h). cmd_name c) ` set (boot_commands cfg)"
    using boot_command_upper [of _ _ cfg L] by (intro image_cong) auto
  finally show ?thesis using boot_lookup [OF assms] by auto
qed

theorem boot_registry_witness:
  "\<exists>s. boot (\<lambda>_. None) rt_idle plain_lib 0 default_config = Ok s \<and>
    dom (ctx_commands (app_ctx s)) = {''PING'', ''ECHO'', ''INFO'', ''CMDS''}"
proof -
  obtain s where s: "boot (\<lambda>_. None) rt_idle plain_lib 0 default_config = Ok s" using boot_default by blast
  from boot_registry [OF s] have "dom (ctx_commands (app_ctx s)) = {''PING'', ''ECHO'', ''INFO'', ''CMDS''}"
    by (simp add: boot_commands_def default_config_def bdefault_commands_def command_def)
  with s show ?thesis by blast
qed

section \<open>Sessions at concrete inputs\<close>

lemma fst_of_apsnd: "apsnd f p = (a, b) \<Longrightarrow> fst p = a"
  by (cases p) simp

lemma act_quit:
  "redis_act L 0 [''QUIT''] x = (Return, quit_ok 0 x)" "line_act L 0 [''QUIT''] x = (Return, x)"
  "default_act L 0 (VArray [VBytes ''QUIT'']) x = (Return, quit_ok 0 x)"
  by (simp_all add: redis_act_def redis_handle_data_def line_act_def line_handle_data_def default_act_def
      default_handle_data_def default_command_name_def after_handle_def)

theorem redis_session_witness:
  "\<exists>s y. boot (\<lambda>_. None) rt_idle plain_lib 0 default_config = Ok s \<and>
    y = set_input 0 (client_sends (\<lambda>q. redis_write_command plain_lib (fst q) (snd q)) [(''quit'', [])])
      (srv (first_connection ''1.2.3.4:5'' [] s)) \<and>
    fst (run_loop (client_iter PRedis plain_lib 0) (Suc (input_left 0 y)) y) = Return"
proof -
  obtain s where s: "boot (\<lambda>_. None) rt_idle plain_lib 0 default_config = Ok s" using boot_default by blast
  have "\<forall>q \<in> set [(''quit'', [])]. redis_ok plain_lib q"
    by (simp add: redis_ok_def bulk_request_def blob_ok_def)
  note run = redis_session [OF first_client(3) [OF s, of "''1.2.3.4:5''"] this refl]
  show ?thesis
    by (intro exI conjI, rule s, rule refl, rule fst_of_apsnd, rule trans [OF run])
       (simp add: bulk_request_def act_quit)
qed

theorem line_session_witness:
  "\<exists>s y. boot (\<lambda>_. None) rt_idle plain_lib 0 default_config = Ok s \<and>
    y = set_input 0 (client_sends (\<lambda>q. line_write_command plain_lib (fst q) (snd q)) [(''quit'', [])])
      (srv (first_connection ''1.2.3.4:5'' [] s)) \<and>
    fst (run_loop (client_iter PLine plain_lib 0) (Suc (input_left 0 y)) y) = Return"
proof -
  obtain s where s: "boot (\<lambda>_. None) rt_idle plain_lib 0 default_config = Ok s" using boot_default by blast
  have "\<forall>q \<in> set [(''quit'', [])]. line_ok plain_lib q"
    by (simp add: line_ok_def bulk_request_def)
  note run = line_session [OF first_client(3) [OF s, of "''1.2.3.4:5''"] this refl]
  show ?thesis
    by (intro exI conjI, rule s, rule refl, rule fst_of_apsnd, rule trans [OF run])
       (simp add: bulk_request_def act_quit)
qed

theorem interface_session_witness:
  "\<exists>s y. boot (\<lambda>_. None) rt_idle plain_lib 0 default_config = Ok s \<and>
    y = set_input 0 (client_sends (\<lambda>q. write_command plain_lib (fst q) (snd q)) [(''quit'', [])])
      (srv (first_connection ''1.2.3.4:5'' [] s)) \<and>
    fst (run_loop (client_iter PInterface plain_lib 0) (Suc (input_left 0 y)) y) = Return"
proof -
  obtain s where s: "boot (\<lambda>_. None) rt_idle plain_lib 0 default_config = Ok s" using boot_default by blast
  have "\<forall>q \<in> set [(''quit'', [])]. default_ok plain_lib q"
    by (simp add: default_ok_def blob_ok_def)
  note run = interface_session [OF plain_lib_float_ok first_client(3) [OF s, of "''1.2.3.4:5''"] this refl]
  show ?thesis
    by (intro exI conjI, rule s, rule refl, rule fst_of_apsnd, rule trans [OF run])
       (simp add: default_request_def act_quit)
qed

text \<open>
C24. End to end for pub/sub: when a message is published on a topic, every connected subscriber has
a delivery pending, and running that delivery puts the message on the subscriber's connection, where
\<open>ReadInterface\<close> reads it as an array of the topic and the message parts.
\<close>

theorem published_message_arrives:
  assumes "range_ok L" and "backends_ok s" and "(k, a) \<in> subs (pubsub_topics s)"
    and "get_client a s = Some c" and "heap s c = Some n" and "bw_ok (nc_writer n)"
    and "rest \<noteq> []" and "\<forall>d \<in> set (k # rest). blob_ok d" and "length (k # rest) * 16 \<le> 2 ^ 48"
    and "run_method L (PubSubM PPublish) (ABulk (k # rest)) publisher s = (r, s')"
  shows "r = Ok () \<and> (c, k # rest) \<in> set (pending s') \<and>
    (\<exists>n' reply. heap (deliver c (k # rest) s') c = Some n' \<and>
       bw_sent (nc_writer n') = bw_stream (nc_writer n) @ reply \<and>
       fst (read_interface L (new_reader 128 reply)) = Ok (VArray (map VBytes (k # rest))))"
proof -
  obtain t where t: "pubsub_topics s k = Some t" "a \<in> tp_clients t" using assms(3) by (auto simp: subs_def)
  have bound: "sizes_bound (pubsub_topics s)" using assms(2) by (simp add: backends_ok_def)
  then have fin: "finite (tp_clients t)" using t(1) by (auto simp: sizes_bound_def)
  have "tp_clients t \<noteq> {}" using t(2) by blast
  from publish_found [OF assms(1) bound t(1) assms(7) this, of "app_clients s"] assms(10)
  have r: "r = Ok ()" and s': "heap s' = heap s" "pending s' = pending s @
      map (\<lambda>a. (the (app_clients s a), k # rest)) (filter (\<lambda>a. app_clients s a \<noteq> None) (gl_range L (tp_clients t)))"
    by auto
  have "app_clients s a = Some c" using assms(4) by (simp add: get_client_def)
  then have "(c, k # rest) \<in> set (pending s')"
    using s'(2) t(2) range_okD(2) [OF assms(1) fin] by force
  moreover have "replied (nc_writer n) (enc_bulk (k # rest)) (snd (bw_flush (snd (write_bulk (k # rest) (nc_writer n)))))"
    by (rule replied_flush [OF emits_client_bulk assms(6)])
  moreover have "heap (deliver c (k # rest) s') c =
      Some (n\<lparr>nc_writer := snd (bw_flush (snd (write_bulk (k # rest) (nc_writer n))))\<rparr>)"
    using assms(5) s'(1) by (simp add: deliver_def client_write_def put_writer_def seqw_def)
  moreover have "fst (read_interface L (new_reader 128 (enc_bulk (k # rest)))) = Ok (VArray (map VBytes (k # rest)))"
    using decodes_new_reader [OF bulk_interface_decodes [OF assms(8,9)], of L "[]"] by simp
  ultimately show ?thesis using r by (auto simp: replied_def)
qed

theorem published_message_arrives_witness:
  "\<exists>s n' reply. boot (\<lambda>_. None) rt_idle plain_lib 0 default_config = Ok s \<and>
    heap (deliver 0 [''t'', ''hi''] (snd (run_method plain_lib (PubSubM PPublish) (ABulk [''t'', ''hi'']) 0
      ((srv (first_connection ''a'' [] s))\<lparr>pubsub_topics := ps_subscribe (ABulk [''t''] :: int64 args) ''a'' Map.empty\<rparr>)))) 0 = Some n' \<and>
    bw_sent (nc_writer n') = reply \<and>
    fst (read_interface plain_lib (new_reader 128 reply)) = Ok (VArray [VBytes ''t'', VBytes ''hi''])"
proof -
  obtain s where s: "boot (\<lambda>_. None) rt_idle plain_lib 0 default_config = Ok s" using boot_default by blast
  note x = first_client [OF s, of "''a''"]
  let ?T = "ps_subscribe (ABulk [''t''] :: int64 args) ''a'' Map.empty"
  let ?x = "(srv (first_connection ''a'' [] s))\<lparr>pubsub_topics := ?T\<rparr>"
  let ?w = "nc_writer (nc_initialize ''a'' [] 128)"
  have ok: "backends_ok ?x"
    using boot_Ok [OF s] x(5) by (simp add: backends_ok_def sizes_bound_ops)
  have sub: "(''t'', ''a'') \<in> subs (pubsub_topics ?x)" by (simp add: registry.rel_sub)
  have get: "get_client ''a'' ?x = Some 0" by (simp add: get_client_def x(6))
  have w: "bw_ok ?w" "bw_stream ?w = []" by (simp_all add: nc_initialize_def)
  have b: "\<forall>d \<in> set (''t'' # [''hi'']). blob_ok d" by (simp add: blob_ok_def)
  have "heap ?x 0 = Some (nc_initialize ''a'' [] 128)" by (simp add: x(1))
  from published_message_arrives [OF plain_lib_range_ok ok sub get this w(1) _ b _ surjective_pairing, of 0] w(2) s
  show ?thesis by auto
qed


section \<open>The Go client against the server\<close>

lemma emits_net_redis: "emits (net_write_command L ''redis'' cmd args) (enc_bulk (bulk_request L (cmd, args)))"
  by (simp add: net_write_command_def emits_redis_command)

text \<open>Several calls of \<open>Do\<close> one after the other, and their results.\<close>

fun client_dos :: "'f golib \<Rightarrow> dial \<Rightarrow> int \<Rightarrow> 'f command_call list \<Rightarrow> pool \<Rightarrow> 'f gval res list \<times> pool" where
  "client_dos L d now [] p = ([], p)"
| "client_dos L d now (q # qs) p =
     (case client_do L d now (fst q) (snd q) p of
        (r, p1) \<Rightarrow> (case client_dos L d now qs p1 of (rs, p2) \<Rightarrow> (r # rs, p2)))"

lemma next_dos_answered:
  assumes "pl_idle p = [c]" and "pool_ok p" and "pl_store p c = Some x" and "cc_net x = Some n" and "cc_bprotocol x = ''redis''"
    and "wired n sent (concat (map (enc_answer L) as))" and "list_all2 (asks L) qs cmds"
    and "length as = length qs" and "\<forall>a \<in> set as. decodes 128 (read_interface L) (enc_answer L a) (answer_value L a)"
  shows "\<exists>p' y m. client_dos L d now cmds p = (map (\<lambda>a. Ok (answer_value L a)) as, p') \<and> pl_idle p' = [c] \<and>
    pl_store p' c = Some y \<and> cc_net y = Some m \<and> wired m (sent @ enc_requests qs) []"
  using assms(7,1-6,8,9)
proof (induction arbitrary: p x n sent as)
  case Nil
  then show ?case by (auto simp: enc_requests_def)
next
  case (Cons q qs cmd cmds)
  then obtain a as' where as: "as = a # as'" by (cases as) auto
  have w: "wired n sent (enc_answer L a @ concat (map (enc_answer L) as'))" using Cons.prems(6) as by simp
  have d: "decodes 128 (read_interface L) (enc_answer L a) (answer_value L a)" using Cons.prems(8) as by simp
  have e: "emits (net_write_command L (cc_bprotocol x) (fst cmd) (snd cmd)) (enc_bulk (wire_request q))"
    using emits_net_redis [of L "fst cmd" "snd cmd"] Cons.hyps(1) Cons.prems(5) by (simp add: asks_def)
  obtain p' y m where y: "client_do L d now (fst cmd) (snd cmd) p = (Ok (answer_value L a), p')" "pl_idle p' = [c]"
    "pl_store p' c = Some y" "cc_net y = Some m" "wired m (sent @ enc_bulk (wire_request q)) (concat (map (enc_answer L) as'))"
    "cc_bprotocol y = cc_bprotocol x" "pool_ok p'"
    using next_do_answered [OF Cons.prems(1-4) w d e, of d now] by blast
  have "cc_bprotocol y = ''redis''" "length as' = length qs"
    "\<forall>a \<in> set as'. decodes 128 (read_interface L) (enc_answer L a) (answer_value L a)"
    using y(6) Cons.prems(5,7,8) as by simp_all
  from Cons.IH [OF y(2,7,3,4) this(1) y(5) this(2,3)] y(1) as show ?case
    by (auto simp: enc_requests_def)
qed

lemma length_answers: "length (answers qs s) = length qs"
  by (induction qs arbitrary: s) simp_all

text \<open>
C1. The whole system implements the specification of the stats backend, for the requests whose answers a client
can read.  A program calls \<open>Do\<close> on a pool for a list of well-formed requests (any but \<open>KEYS\<close> and \<open>COUNTERS\<close>, with the
amount of \<open>INCR\<close> and \<open>DECR\<close> written out) that fit the protocol's limits, each of which is answered
(\<open>COUNT\<close> is not) and whose sets in answers have only members of 1 to 125 bytes without a line feed; over the
connection that the pool opens arrives what a redis server with the stats backend sends when it reads what
the program sends, one request after the other.  Then the calls return exactly the answers
of the specification, from an empty store on, in order; they share one connection, which ends up
idle in the pool and has carried exactly the bytes that the server has read; and the server's store is
the one that the specification demands.
\<close>

theorem system_implements_spec:
  assumes "boot bind rt L now cfg = Ok s" and "cfg_stats cfg" and "cfg_bprotocol cfg = ''redis''"
    and "range_ok L" and "float_ok L" and "list_all2 (asks L) qs cmds" and "qs \<noteq> []"
    and "\<forall>a \<in> set (answers qs empty_store). readable a" and "0 < max_idle"
    and "sent = client_sends (\<lambda>q. redis_write_command L (fst q) (snd q)) cmds"
    and "run_client PRedis L 0 (srv (first_connection addr sent s)) = (d, t)" and "heap t 0 = Some c"
    and "client_dos L (Inr (peer, bw_sent (nc_writer c))) t1 cmds (new_pool port host max_idle ''redis'') = (rs, p)"
  shows "d = None \<and> rs = map (\<lambda>a. Ok (answer_value L a)) (answers qs empty_store) \<and>
    abs_store (stats_mem t) = final_store qs empty_store \<and>
    (\<exists>x m. pl_idle p = [0] \<and> pl_store p 0 = Some x \<and> cc_net x = Some m \<and> bw_sent (nc_writer m) = sent)"
proof -
  note qs = client_sends_requests [OF assms(6)]
  let ?as = "answers qs empty_store"
  have sent: "sent = enc_requests qs" using qs(1) assms(10) by simp
  from session_answers [OF assms(1-3) qs(2), of addr] assms(11,12) sent
  have t: "d = None" "bw_sent (nc_writer c) = concat (map (enc_answer L) ?as)" "abs_store (stats_mem t) = final_store qs empty_store"
    by auto
  have dec: "\<forall>a \<in> set ?as. decodes 128 (read_interface L) (enc_answer L a) (answer_value L a)"
    using assms(8) answer_decodes [OF assms(4,5)] by blast
  let ?p = "new_pool port host max_idle ''redis''" and ?d = "Inr (peer, bw_sent (nc_writer c))"
  have p: "pl_idle ?p = []" "0 < pl_max_idle ?p" "pl_bprotocol ?p = ''redis''" "pl_next ?p = 0"
    using assms(9) by (simp_all add: new_pool_def)
  from assms(6,7) obtain q qs' cmd cmds' where c: "qs = q # qs'" "cmds = cmd # cmds'" "asks L q cmd" "list_all2 (asks L) qs' cmds'"
    by (cases qs; cases cmds) auto
  let ?a = "answer_of q empty_store" and ?as' = "answers qs' (new_store q empty_store)"
  have e: "emits (net_write_command L (pl_bprotocol ?p) (fst cmd) (snd cmd)) (enc_bulk (wire_request q))"
    using emits_net_redis [of L "fst cmd" "snd cmd"] c(3) p(3) by (simp add: asks_def)
  have da: "decodes 128 (read_interface L) (enc_answer L ?a) (answer_value L ?a)" using dec c(1) by simp
  obtain p1 x m where x: "client_do L ?d t1 (fst cmd) (snd cmd) ?p = (Ok (answer_value L ?a), p1)" "pl_idle p1 = [0]"
    "pl_store p1 0 = Some x" "cc_net x = Some m" "wired m (enc_bulk (wire_request q)) (concat (map (enc_answer L) ?as'))"
    "cc_bprotocol x = ''redis''" "pool_ok p1"
    using first_do_answered [OF p(1,2) pool_ok_new da e, of peer "concat (map (enc_answer L) ?as')" t1] t(2) c(1) p(3,4) by auto
  have "length ?as' = length qs'" by (rule length_answers)
  moreover have "\<forall>a \<in> set ?as'. decodes 128 (read_interface L) (enc_answer L a) (answer_value L a)" using dec c(1) by simp
  ultimately obtain p2 y m' where y: "client_dos L ?d t1 cmds' p1 = (map (\<lambda>a. Ok (answer_value L a)) ?as', p2)" "pl_idle p2 = [0]"
    "pl_store p2 0 = Some y" "cc_net y = Some m'" "wired m' (enc_bulk (wire_request q) @ enc_requests qs') []"
    using next_dos_answered [OF x(2,7,3,4,6,5) c(4), of ?d t1] by blast
  have "rs = map (\<lambda>a. Ok (answer_value L a)) ?as" "p = p2" using assms(13) x(1) y(1) c(1,2) by simp_all
  moreover have "bw_sent (nc_writer m') = sent" using y(5) sent c(1) by (simp add: wired_def enc_requests_def)
  ultimately show ?thesis using t y by blast
qed


theorem system_implements_spec_witness:
  "\<exists>s t c p. boot (\<lambda>_. None) rt_idle plain_lib 0 stats_config_on = Ok s \<and>
    run_client PRedis plain_lib 0 (srv (first_connection ''1.2.3.4:5''
      (client_sends (\<lambda>q. redis_write_command plain_lib (fst q) (snd q))
        [(''set'', [VString ''k'', VInt64 7]), (''get'', [VString ''k''])]) s)) = (None, t) \<and>
    heap t 0 = Some c \<and>
    client_dos plain_lib (Inr (''1.2.3.4:7331'', bw_sent (nc_writer c))) 0
      [(''set'', [VString ''k'', VInt64 7]), (''get'', [VString ''k''])] (new_pool 7331 ''1.2.3.4'' 1 ''redis'') =
      ([Ok (VInt64 1), Ok (VInt64 7)], p) \<and>
    mem_values (stats_mem t) ''k'' = Some 7 \<and> pl_idle p = [0]"
proof -
  let ?qs = "[Set_number ''k'' 7, Get_number ''k'']"
  let ?cmds = "[(''set'', [VString ''k'', VInt64 7]), (''get'', [VString ''k''])] :: int64 command_call list"
  let ?sent = "client_sends (\<lambda>q. redis_write_command plain_lib (fst q) (snd q)) ?cmds"
  obtain s where s: "boot (\<lambda>_. None) rt_idle plain_lib 0 stats_config_on = Ok s" using boot_stats by blast
  have asks: "list_all2 (asks plain_lib) ?qs ?cmds"
    using sendable_set_get by (simp add: asks_def bulk_request_def wire_request_def)
  note q = client_sends_requests [OF asks]
  obtain t c where t: "run_client PRedis plain_lib 0 (srv (first_connection ''1.2.3.4:5'' ?sent s)) = (None, t)" "heap t 0 = Some c"
    using session_answers [OF s stats_config_on q(2), of "''1.2.3.4:5''"] unfolding q(1) by blast
  have as: "answers ?qs empty_store = [Number 1, Number 7]" "numbers (final_store ?qs empty_store) ''k'' = Some 7"
    by (simp_all add: empty_store_def)
  have r: "\<forall>a \<in> set (answers ?qs empty_store). readable a" unfolding as(1) by simp
  obtain rs p where p: "client_dos plain_lib (Inr (''1.2.3.4:7331'', bw_sent (nc_writer c))) 0 ?cmds
    (new_pool 7331 ''1.2.3.4'' 1 ''redis'') = (rs, p)" by (rule prod.exhaust)
  from system_implements_spec [OF s stats_config_on plain_lib_range_ok plain_lib_float_ok asks _ r _ refl t p]
  have "rs = map (\<lambda>a. Ok (answer_value plain_lib a)) (answers ?qs empty_store)"
    "abs_store (stats_mem t) = final_store ?qs empty_store" "pl_idle p = [0]" by auto
  moreover have "mem_values (stats_mem t) ''k'' = Some 7"
    using trans [OF fun_cong [OF abs_store_sel(1) [of "stats_mem t", symmetric]]] as(2) unfolding calculation(2) .
  ultimately have x: "rs = [Ok (VInt64 1), Ok (VInt64 7)]" "mem_values (stats_mem t) ''k'' = Some 7" "pl_idle p = [0]"
    unfolding as(1) by simp_all
  show ?thesis using s t p x by blast
qed

end
